(* ===== verification/Go_Prelude.thy ===== *)
theory Go_Prelude
  imports Main "HOL-Library.Multiset" "HOL-Library.Word" "HOL-Library.Monad_Syntax"
begin

text \<open>
  Shared vocabulary of the development.

  Go strings and byte slices are byte sequences, which is what \<^typ>\<open>string\<close> is (a
  \<^typ>\<open>char\<close> is one byte), so \<open>[]byte(s)\<close> and \<open>string(b)\<close> are the identity.  A
  \<open>time.Time\<close> is its number of nanoseconds since Go's zero time, so that \<open>IsZero\<close> is
  \<open>t = 0\<close>; a \<open>time.Duration\<close> that has been bounded is an \<^typ>\<open>int\<close> of nanoseconds.

  A Go map is a partial function.  Where the code ranges over a map, Go fixes no order: the
  model takes the order as an argument (a list of keys) and the theorems hold for every order.

  A goroutine that panics, or that blocks forever while it holds the bus mutex, has no next
  state: such an operation returns \<^const>\<open>None\<close>.  Go \<open>error\<close> results are values of
  \<open>gerr option\<close>, with \<^const>\<open>None\<close> for \<open>nil\<close>.
\<close>

type_synonym bytes = string
type_synonym gotime = int

named_theorems bus_simps \<open>equations of the primitive state updates\<close>

subsection \<open>Time constants\<close>

definition ns_second :: int where
  "ns_second = 1000000000"

definition ns_minute :: int where
  "ns_minute = 60 * ns_second"

subsection \<open>Sums over a finite map\<close>

text \<open>
  \<open>msum f m\<close> adds \<open>f\<close> over the values of a finite map.  Queue contents, leased deliveries
  and channel buffers are all counted with it.
\<close>

definition msum :: "('v \<Rightarrow> 'a multiset) \<Rightarrow> ('k \<rightharpoonup> 'v) \<Rightarrow> 'a multiset" where
  "msum f m = (\<Sum>k\<in>dom m. f (the (m k)))"

lemma msum_empty [simp]: "msum f Map.empty = {#}"
  by (simp add: msum_def)

lemma msum_remove:
  assumes "finite (dom m)" and "m k = Some v"
  shows "msum f m = f v + msum f (m(k := None))"
proof -
  have k: "k \<in> dom m" using assms(2) by auto
  have "(\<Sum>x\<in>dom m. f (the (m x))) = f (the (m k)) + (\<Sum>x\<in>dom m - {k}. f (the (m x)))"
    by (rule sum.remove [OF assms(1) k])
  also have "(\<Sum>x\<in>dom m - {k}. f (the (m x))) = (\<Sum>x\<in>dom m - {k}. f (the ((m(k := None)) x)))"
    by (rule sum.cong) auto
  finally show ?thesis using assms(2) by (simp add: msum_def)
qed

lemma msum_none: "m k = None \<Longrightarrow> msum f (m(k := None)) = msum f m"
  by (simp add: fun_upd_idem)

lemma msum_update:
  assumes "finite (dom m)"
  shows "msum f (m(k \<mapsto> v)) = f v + msum f (m(k := None))"
proof -
  have "finite (dom (m(k \<mapsto> v)))" using assms by simp
  then have "msum f (m(k \<mapsto> v)) = f v + msum f ((m(k \<mapsto> v))(k := None))"
    by (rule msum_remove) simp
  then show ?thesis by simp
qed

lemma msum_insert:
  "finite (dom m) \<Longrightarrow> m k = None \<Longrightarrow> msum f (m(k \<mapsto> v)) = f v + msum f m"
  by (simp add: msum_update msum_none)

lemma msum_same:
  "finite (dom m) \<Longrightarrow> m k = Some v \<Longrightarrow> f v' = f v \<Longrightarrow> msum f (m(k \<mapsto> v')) = msum f m"
  by (simp add: msum_update msum_remove [of m k v])

lemma msum_mem:
  assumes "finite (dom m)"
  shows "x \<in># msum f m \<longleftrightarrow> (\<exists>k v. m k = Some v \<and> x \<in># f v)"
proof -
  have "set_mset (\<Sum>k\<in>A. f (the (m k))) = (\<Union>k\<in>A. set_mset (f (the (m k))))"
    if "finite A" for A
    using that by (induction A rule: finite_induct) auto
  then have "x \<in># msum f m \<longleftrightarrow> (\<exists>k\<in>dom m. x \<in># f (the (m k)))"
    using assms by (simp add: msum_def)
  then show ?thesis by (force simp: dom_def)
qed

lemma msum_zero: "(\<And>k v. m k = Some v \<Longrightarrow> f v = {#}) \<Longrightarrow> msum f m = {#}"
  unfolding msum_def by (rule sum.neutral) auto

subsection \<open>Decimal rendering of a natural number (\<open>%d\<close>)\<close>

fun dec_string :: "nat \<Rightarrow> string" where
  "dec_string n = (if n < 10 then [char_of (48 + n)]
                   else dec_string (n div 10) @ [char_of (48 + n mod 10)])"

declare dec_string.simps [simp del]

definition is_digit :: "char \<Rightarrow> bool" where
  "is_digit c \<longleftrightarrow> 48 \<le> (of_char c :: nat) \<and> (of_char c :: nat) \<le> 57"

fun dec_value :: "nat \<Rightarrow> string \<Rightarrow> nat" where
  "dec_value acc [] = acc"
| "dec_value acc (c # cs) = dec_value (10 * acc + (of_char c - 48)) cs"

lemma of_char_digit: "n < 10 \<Longrightarrow> (of_char (char_of (48 + n) :: char) :: nat) = 48 + n" for n :: nat
  by simp

lemma is_digit_char_of [simp]: "n < 10 \<Longrightarrow> is_digit (char_of (48 + n))" for n :: nat
  by (simp add: is_digit_def)

lemma dec_string_digits: "\<forall>c \<in> set (dec_string n). is_digit c"
proof (induction n rule: dec_string.induct)
  case (1 n)
  show ?case
  proof (cases "n < 10")
    case True
    then show ?thesis by (simp add: dec_string.simps [of n])
  next
    case False
    then show ?thesis using "1.IH" by (auto simp: dec_string.simps [of n])
  qed
qed

lemma dec_string_ne [simp]: "dec_string n \<noteq> []"
  by (simp add: dec_string.simps [of n])

lemma dec_value_append: "dec_value acc (xs @ [c]) = 10 * dec_value acc xs + (of_char c - 48)"
  by (induction xs arbitrary: acc) auto

lemma dec_value_dec_string: "dec_value 0 (dec_string n) = n"
proof (induction n rule: dec_string.induct)
  case (1 n)
  show ?case
  proof (cases "n < 10")
    case True
    then show ?thesis by (simp add: dec_string.simps [of n])
  next
    case False
    then show ?thesis using "1.IH" by (simp add: dec_string.simps [of n] dec_value_append)
  qed
qed

lemma dec_string_inject [simp]: "dec_string m = dec_string n \<longleftrightarrow> m = n"
  by (metis dec_value_dec_string)

subsection \<open>Splitting at a separator that does not occur in the first part\<close>

lemma append_sep_inject:
  assumes "xs @ s # ys = xs' @ s # ys'" and "s \<notin> set xs" and "s \<notin> set xs'"
  shows "xs = xs' \<and> ys = ys'"
  using assms
proof (induction xs arbitrary: xs')
  case Nil
  then show ?case by (cases xs') auto
next
  case (Cons x xs)
  then show ?case by (cases xs') auto
qed

end
