(* ===== verification/Chan.thy ===== *)
theory Chan
  imports Go_Prelude
begin

text \<open>
  Buffered Go channels, as \<open>internal/mailbox\<close> uses them.  Channels are shared: the box that
  lists a waiter and the goroutine blocked in \<open>Take\<close> hold the same channel, so they live in a
  store from channel numbers to channels.  A send on or a close of a closed channel panics; a
  blocking send into a full buffer made under the bus mutex never returns, because the only
  goroutine that could drain it needs the mutex first.  Both are \<^const>\<open>None\<close>.
\<close>

record 'a chan =
  buf :: "'a list"
  chClosed :: bool

type_synonym 'a chans = "nat \<rightharpoonup> 'a chan"

definition fresh_chan :: "'a chan" where
  "fresh_chan = \<lparr>buf = [], chClosed = False\<rparr>"

definition ch_send :: "nat \<Rightarrow> nat \<Rightarrow> 'a \<Rightarrow> 'a chans \<Rightarrow> 'a chans option" where
  "ch_send cap w x st = (case st w of
     None \<Rightarrow> None
   | Some c \<Rightarrow> if chClosed c then None
               else if length (buf c) < cap then Some (st(w \<mapsto> c\<lparr>buf := buf c @ [x]\<rparr>))
               else None)"

text \<open>\<open>select { case ch <- x: default: }\<close>: a full buffer drops \<open>x\<close>, a closed channel panics.\<close>

definition ch_try_send :: "nat \<Rightarrow> nat \<Rightarrow> 'a \<Rightarrow> 'a chans \<Rightarrow> 'a chans option" where
  "ch_try_send cap w x st = (case st w of
     None \<Rightarrow> None
   | Some c \<Rightarrow> if chClosed c then None
               else if length (buf c) < cap then Some (st(w \<mapsto> c\<lparr>buf := buf c @ [x]\<rparr>))
               else Some st)"

definition ch_close :: "nat \<Rightarrow> 'a chans \<Rightarrow> 'a chans option" where
  "ch_close w st = (case st w of
     None \<Rightarrow> None
   | Some c \<Rightarrow> if chClosed c then None else Some (st(w \<mapsto> c\<lparr>chClosed := True\<rparr>)))"

fun ch_close_all :: "nat list \<Rightarrow> 'a chans \<Rightarrow> 'a chans option" where
  "ch_close_all [] st = Some st"
| "ch_close_all (w # ws) st = Option.bind (ch_close w st) (ch_close_all ws)"

text \<open>What a receive finds: a value, a closed and drained channel, or nothing yet.\<close>

datatype 'a recv = Got 'a | Drained | Blocks

definition ch_recv :: "nat \<Rightarrow> 'a chans \<Rightarrow> 'a recv \<times> 'a chans" where
  "ch_recv w st = (case st w of
     None \<Rightarrow> (Blocks, st)
   | Some c \<Rightarrow> (case buf c of
       x # xs \<Rightarrow> (Got x, st(w \<mapsto> c\<lparr>buf := xs\<rparr>))
     | [] \<Rightarrow> if chClosed c then (Drained, st) else (Blocks, st)))"

text \<open>
  \<open>w <- msg; close(w)\<close>: the message stays in the buffer of the closed channel, from where the
  waiting goroutine reads it.
\<close>

definition hand_off :: "nat \<Rightarrow> 'a \<Rightarrow> 'a chans \<Rightarrow> 'a chans option" where
  "hand_off w x st = do { st1 \<leftarrow> ch_send 1 w x st; ch_close w st1 }"

lemma hand_off_fresh:
  "st w = Some fresh_chan \<Longrightarrow> hand_off w x st = Some (st(w \<mapsto> \<lparr>buf = [x], chClosed = True\<rparr>))"
  by (simp add: hand_off_def ch_send_def ch_close_def fresh_chan_def)

lemma ch_close_all_fresh:
  assumes "distinct ws" and "\<forall>w\<in>set ws. st w = Some fresh_chan"
  shows "ch_close_all ws st
         = Some (\<lambda>w. if w \<in> set ws then Some \<lparr>buf = [], chClosed = True\<rparr> else st w)"
  using assms
proof (induction ws arbitrary: st)
  case Nil
  then show ?case by simp
next
  case (Cons w ws)
  then have c: "ch_close w st = Some (st(w \<mapsto> \<lparr>buf = [], chClosed = True\<rparr>))"
    by (simp add: ch_close_def fresh_chan_def)
  have "ch_close_all ws (st(w \<mapsto> \<lparr>buf = [], chClosed = True\<rparr>))
        = Some (\<lambda>v. if v \<in> set ws then Some \<lparr>buf = [], chClosed = True\<rparr>
                    else (st(w \<mapsto> \<lparr>buf = [], chClosed = True\<rparr>)) v)"
    using Cons.prems by (intro Cons.IH) auto
  then show ?case using c by (auto simp: fun_eq_iff)
qed

lemma ch_recv_hand_off:
  "st w = Some fresh_chan \<Longrightarrow> hand_off w x st = Some st' \<Longrightarrow> fst (ch_recv w st') = Got x"
  by (auto simp: hand_off_fresh ch_recv_def)

end
