(* ===== verification/Dedup.thy ===== *)
theory Dedup
  imports Go_Prelude
begin

text \<open>
  The idempotent-retry index of \<open>internal/mailbox/mailbox.go\<close>: \<open>dedup\<close> counts, per mailbox
  name and message id, the copies of a message that are queued or leased.  The contract the bus
  relies on is the locale \<open>ref_index\<close>: the index counts the members of a multiset of messages.
\<close>

record msg =
  m_id :: string
  m_name :: string
  m_from :: string
  m_body :: bytes
  m_at :: gotime

type_synonym dedup_map = "string \<rightharpoonup> nat"

definition dedupKey :: "string \<Rightarrow> string \<Rightarrow> string" where
  "dedupKey name i = name @ CHR 0x00 # i"

definition indexAddLocked :: "msg \<Rightarrow> dedup_map \<Rightarrow> dedup_map" where
  "indexAddLocked m dd =
     (if m_id m = '''' \<or> m_name m = '''' then dd
      else let k = dedupKey (m_name m) (m_id m) in
        dd(k \<mapsto> (case dd k of None \<Rightarrow> 0 | Some n \<Rightarrow> n) + 1))"

definition indexDelLocked :: "msg \<Rightarrow> dedup_map \<Rightarrow> dedup_map" where
  "indexDelLocked m dd =
     (if m_id m = '''' \<or> m_name m = '''' then dd
      else let k = dedupKey (m_name m) (m_id m);
               n = (case dd k of None \<Rightarrow> 0 | Some n \<Rightarrow> n) in
        if n > 1 then dd(k \<mapsto> n - 1) else dd(k := None))"

definition indexedLocked :: "string \<Rightarrow> string \<Rightarrow> dedup_map \<Rightarrow> bool" where
  "indexedLocked name i dd =
     (if i = '''' \<or> name = '''' then False else dd (dedupKey name i) \<noteq> None)"

subsection \<open>The contract\<close>

definition job_key :: "msg \<Rightarrow> string option" where
  "job_key m = (if m_id m = '''' \<or> m_name m = '''' then None
                else Some (dedupKey (m_name m) (m_id m)))"

definition tally :: "('m \<Rightarrow> 'k option) \<Rightarrow> 'm multiset \<Rightarrow> 'k \<Rightarrow> nat" where
  "tally key M k = size {#m \<in># M. key m = Some k#}"

lemma tally_empty [simp]: "tally key {#} k = 0"
  by (simp add: tally_def)

lemma tally_add [simp]:
  "tally key (add_mset m M) k = (if key m = Some k then 1 else 0) + tally key M k"
  by (simp add: tally_def)

lemma tally_pos: "0 < tally key M k \<longleftrightarrow> (\<exists>m\<in>#M. key m = Some k)"
  by (auto simp: tally_def nonempty_has_size [symmetric] multiset_eq_iff)

locale ref_index =
  fixes add :: "'m \<Rightarrow> 'd \<Rightarrow> 'd"
    and del :: "'m \<Rightarrow> 'd \<Rightarrow> 'd"
    and mem :: "'k \<Rightarrow> 'd \<Rightarrow> bool"
    and key :: "'m \<Rightarrow> 'k option"
    and cnt :: "'d \<Rightarrow> 'k \<Rightarrow> nat"
    and ok :: "'d \<Rightarrow> bool"
  assumes ok_add: "ok d \<Longrightarrow> ok (add m d)"
    and ok_del: "ok d \<Longrightarrow> ok (del m d)"
    and cnt_add: "ok d \<Longrightarrow> cnt (add m d) k = (if key m = Some k then 1 else 0) + cnt d k"
    and cnt_del: "ok d \<Longrightarrow> cnt (del m d) k = cnt d k - (if key m = Some k then 1 else 0)"
    and mem_cnt: "ok d \<Longrightarrow> mem k d \<longleftrightarrow> 0 < cnt d k"
begin

definition counts :: "'d \<Rightarrow> 'm multiset \<Rightarrow> bool" where
  "counts d M \<longleftrightarrow> ok d \<and> cnt d = tally key M"

lemma counts_add: "counts d M \<Longrightarrow> counts (add m d) (add_mset m M)"
  by (auto simp: counts_def ok_add cnt_add fun_eq_iff)

lemma counts_del: "counts d (add_mset m M) \<Longrightarrow> counts (del m d) M"
  by (auto simp: counts_def ok_del cnt_del fun_eq_iff)

lemma counts_add_del: "counts d M \<Longrightarrow> counts (del m (add m d)) M"
  by (intro counts_del counts_add)

lemma counts_del_add: "counts d (add_mset m M) \<Longrightarrow> counts (add m (del m d)) (add_mset m M)"
  by (intro counts_add counts_del)

lemma counts_mem: "counts d M \<Longrightarrow> mem k d \<longleftrightarrow> (\<exists>m\<in>#M. key m = Some k)"
  by (auto simp: counts_def mem_cnt tally_pos)

end

subsection \<open>The Go map provides it\<close>

definition dd_count :: "dedup_map \<Rightarrow> string \<Rightarrow> nat" where
  "dd_count dd k = (case dd k of None \<Rightarrow> 0 | Some n \<Rightarrow> n)"

definition dd_ok :: "dedup_map \<Rightarrow> bool" where
  "dd_ok dd \<longleftrightarrow> (\<forall>k. dd k \<noteq> Some 0)"

definition dd_mem :: "string \<Rightarrow> dedup_map \<Rightarrow> bool" where
  "dd_mem k dd \<longleftrightarrow> dd k \<noteq> None"

interpretation ix: ref_index indexAddLocked indexDelLocked dd_mem job_key dd_count dd_ok
proof unfold_locales
  fix d :: dedup_map and m :: msg and k :: string
  assume ok: "dd_ok d"
  show "dd_ok (indexAddLocked m d)"
    using ok by (auto simp: dd_ok_def indexAddLocked_def Let_def)
  show "dd_ok (indexDelLocked m d)"
    using ok by (auto simp: dd_ok_def indexDelLocked_def Let_def)
  show "dd_count (indexAddLocked m d) k = (if job_key m = Some k then 1 else 0) + dd_count d k"
    by (auto simp: dd_count_def indexAddLocked_def job_key_def Let_def)
  show "dd_count (indexDelLocked m d) k = dd_count d k - (if job_key m = Some k then 1 else 0)"
    by (auto simp: dd_count_def indexDelLocked_def job_key_def Let_def split: option.splits)
  show "dd_mem k d \<longleftrightarrow> 0 < dd_count d k"
    using ok by (cases "d k"; cases "the (d k)") (auto simp: dd_mem_def dd_count_def dd_ok_def)
qed

lemma counts_empty: "ix.counts Map.empty {#}"
  by (auto simp: ix.counts_def dd_ok_def dd_count_def fun_eq_iff)

lemma indexed_iff_counted:
  assumes "ix.counts dd M" and "name \<noteq> ''''" and "i \<noteq> ''''"
  shows "indexedLocked name i dd \<longleftrightarrow> (\<exists>m\<in>#M. job_key m = Some (dedupKey name i))"
  using ix.counts_mem [OF assms(1), of "dedupKey name i"] assms(2,3)
  by (simp add: indexedLocked_def dd_mem_def)

text \<open>
  The separator keeps keys apart only for names without a NUL byte: JSON strings may hold one, so
  two different pairs of mailbox and id can share a key.
\<close>

lemma dedupKey_inject:
  assumes "CHR 0x00 \<notin> set n" and "CHR 0x00 \<notin> set n'"
  shows "dedupKey n i = dedupKey n' i' \<longleftrightarrow> n = n' \<and> i = i'"
  using assms append_sep_inject [of n "CHR 0x00" i n' i'] by (auto simp: dedupKey_def)

end
