(* ===== verification/Bus.thy ===== *)
theory Bus
  imports Chan Dedup
begin

text \<open>
  The state of \<open>mailbox.Bus\<close> and every operation on its job queues (\<open>mailbox.go\<close>).

  Each function is one critical section of the bus mutex, so it is one atomic step of the
  concurrent program; the blocking \<open>Take\<close> is two of them, \<open>takeChan\<close> and then either the
  receive (\<open>takeRecv\<close>) or \<open>cancelWaiter\<close>.  Values the code gets from outside are arguments:
  \<open>now\<close> (\<open>time.Now\<close>), \<open>nid\<close> (\<open>newID\<close>), \<open>io\<close> (whether the file system calls of
  \<open>persistLocked\<close> succeed) and \<open>ord\<close> (the order in which Go ranges over a map).
\<close>

datatype gerr = ErrClosed | ErrEmpty | ErrTooLarge | ErrBadName | ErrDropped | ErrNotFound
  | ErrCtx \<comment> \<open>\<open>ctx.Err()\<close>\<close>
  | ErrIO  \<comment> \<open>a failed file system call\<close>

definition DefaultMaxQueue :: int where "DefaultMaxQueue = 1024"
definition DefaultMaxBody :: int where "DefaultMaxBody = 1048576"
definition MaxCachedTopics :: nat where "MaxCachedTopics = 4096"
definition SubBuffer :: nat where "SubBuffer = 64"

record delivery =
  d_id :: string
  d_msg :: msg
  d_expires :: gotime

record box =
  bq :: "msg list"
  bwaiters :: "nat list"

record subr =
  sprefix :: string
  sch :: nat

text \<open>The struct \<open>st\<close> that \<open>persistLocked\<close> writes and \<open>OpenPersistent\<close> reads.\<close>

record snapshot =
  sn_boxes :: "string \<rightharpoonup> msg list"
  sn_inflight :: "string \<rightharpoonup> delivery"

record bus =
  maxQueue :: int
  maxBody :: int
  closed :: bool
  boxes :: "string \<rightharpoonup> box"
  subs :: "subr list"
  lastv :: "string \<rightharpoonup> msg"
  dedup :: dedup_map
  path :: string
  inflight :: "string \<rightharpoonup> delivery"
  stopped :: bool
  tchan :: "msg chans"   \<comment> \<open>the one-slot channels of \<open>takeChan\<close>\<close>
  nextT :: nat
  schan :: "msg chans"   \<comment> \<open>the channels of \<open>Sub\<close>\<close>
  nextS :: nat
  disk :: "snapshot option" \<comment> \<open>what the file at \<open>path\<close> holds\<close>

subsection \<open>Construction and persistence\<close>

definition newWithLimits :: "int \<Rightarrow> int \<Rightarrow> bus" where
  "newWithLimits mq mb =
     \<lparr>maxQueue = (if mq \<le> 0 then DefaultMaxQueue else mq),
      maxBody = (if mb \<le> 0 then DefaultMaxBody else mb),
      closed = False, boxes = Map.empty, subs = [], lastv = Map.empty, dedup = Map.empty,
      path = '''', inflight = Map.empty, stopped = False,
      tchan = Map.empty, nextT = 0, schan = Map.empty, nextS = 0, disk = None\<rparr>"

definition newBus :: bus where
  "newBus = newWithLimits DefaultMaxQueue DefaultMaxBody"

definition durable :: "bus \<Rightarrow> bool" where
  "durable b \<longleftrightarrow> path b \<noteq> ''''"

definition snap_of :: "bus \<Rightarrow> snapshot" where
  "snap_of b =
     \<lparr>sn_boxes = (\<lambda>n. case boxes b n of None \<Rightarrow> None
                   | Some bx \<Rightarrow> if 0 < length (bq bx) then Some (bq bx) else None),
      sn_inflight = inflight b\<rparr>"

definition persistLocked :: "bool \<Rightarrow> bus \<Rightarrow> gerr option \<times> bus" where
  "persistLocked io b =
     (if path b = '''' then (None, b)
      else if io then (None, b\<lparr>disk := Some (snap_of b)\<rparr>)
      else (Some ErrIO, b))"

text \<open>
  \<open>OpenPersistent\<close>: \<open>file\<close> is \<^const>\<open>None\<close> when there is none, otherwise the decoded
  struct; \<open>bord\<close> and \<open>iord\<close> are the orders in which the two maps are ranged over.  (A file
  that cannot be read or parsed makes the code return the error and no bus.)
\<close>

fun loadBoxes :: "snapshot \<Rightarrow> string list \<Rightarrow> bus \<Rightarrow> bus" where
  "loadBoxes st [] b = b"
| "loadBoxes st (n # ns) b = (case sn_boxes st n of
     None \<Rightarrow> loadBoxes st ns b
   | Some q \<Rightarrow> loadBoxes st ns
       (b\<lparr>boxes := (boxes b)(n \<mapsto> \<lparr>bq = q, bwaiters = []\<rparr>),
          dedup := fold indexAddLocked q (dedup b)\<rparr>))"

fun loadInflight :: "snapshot \<Rightarrow> string list \<Rightarrow> bus \<Rightarrow> bus" where
  "loadInflight st [] b = b"
| "loadInflight st (i # is) b = (case sn_inflight st i of
     None \<Rightarrow> loadInflight st is b
   | Some d \<Rightarrow> loadInflight st is
       (b\<lparr>inflight := (inflight b)(i \<mapsto> d), dedup := indexAddLocked (d_msg d) (dedup b)\<rparr>))"

definition openPersistent ::
  "string \<Rightarrow> int \<Rightarrow> int \<Rightarrow> snapshot option \<Rightarrow> string list \<Rightarrow> string list \<Rightarrow> bus" where
  "openPersistent p mq mb file bord iord =
     (let b = (newWithLimits mq mb)\<lparr>path := p, disk := file\<rparr> in
      case file of None \<Rightarrow> b
      | Some st \<Rightarrow> loadInflight st iord (loadBoxes st bord b))"

subsection \<open>Access to a box\<close>

definition boxLocked :: "string \<Rightarrow> bus \<Rightarrow> bus" where
  "boxLocked name b = (case boxes b name of
     None \<Rightarrow> b\<lparr>boxes := (boxes b)(name \<mapsto> \<lparr>bq = [], bwaiters = []\<rparr>)\<rparr>
   | Some _ \<Rightarrow> b)"

definition box_of :: "bus \<Rightarrow> string \<Rightarrow> box" where
  "box_of b name = (case boxes b name of None \<Rightarrow> \<lparr>bq = [], bwaiters = []\<rparr> | Some bx \<Rightarrow> bx)"

definition q_of :: "bus \<Rightarrow> string \<Rightarrow> msg list" where
  "q_of b name = bq (box_of b name)"

definition waiters_of :: "bus \<Rightarrow> string \<Rightarrow> nat list" where
  "waiters_of b name = bwaiters (box_of b name)"

definition set_q :: "string \<Rightarrow> msg list \<Rightarrow> bus \<Rightarrow> bus" where
  "set_q name q b = b\<lparr>boxes := (boxes b)(name \<mapsto> (box_of b name)\<lparr>bq := q\<rparr>)\<rparr>"

definition set_waiters :: "string \<Rightarrow> nat list \<Rightarrow> bus \<Rightarrow> bus" where
  "set_waiters name ws b = b\<lparr>boxes := (boxes b)(name \<mapsto> (box_of b name)\<lparr>bwaiters := ws\<rparr>)\<rparr>"

definition index_add :: "msg \<Rightarrow> bus \<Rightarrow> bus" where
  "index_add m b = b\<lparr>dedup := indexAddLocked m (dedup b)\<rparr>"

definition index_del :: "msg \<Rightarrow> bus \<Rightarrow> bus" where
  "index_del m b = b\<lparr>dedup := indexDelLocked m (dedup b)\<rparr>"

subsection \<open>Put\<close>

text \<open>\<open>stamp\<close> is the part of \<open>Put\<close> before the lock: name, id and time are filled in.\<close>

definition stamp :: "gotime \<Rightarrow> string \<Rightarrow> string \<Rightarrow> msg \<Rightarrow> msg" where
  "stamp now nid name m =
     (let m1 = m\<lparr>m_name := name\<rparr>;
          m2 = (if m_id m1 = '''' then m1\<lparr>m_id := nid\<rparr> else m1)
      in if m_at m2 = 0 then m2\<lparr>m_at := now\<rparr> else m2)"

definition putLocked :: "bool \<Rightarrow> string \<Rightarrow> msg \<Rightarrow> bus \<Rightarrow> (gerr option \<times> bus) option" where
  "putLocked io name m b0 =
     (let b = boxLocked name b0 in
      if indexedLocked name (m_id m) (dedup b) then Some (None, b)
      else case waiters_of b name of
        w # ws \<Rightarrow> do {
          st \<leftarrow> hand_off w m (tchan b);
          Some (None, (set_waiters name ws b)\<lparr>tchan := st\<rparr>) }
      | [] \<Rightarrow>
        if maxQueue b \<le> int (length (q_of b name)) then Some (Some ErrDropped, b)
        else case persistLocked io (index_add m (set_q name (q_of b name @ [m]) b)) of
          (None, b2) \<Rightarrow> Some (None, b2)
        | (Some e, b2) \<Rightarrow>
            Some (Some e, index_del m (set_q name (butlast (q_of b2 name)) b2)))"

definition put ::
  "gotime \<Rightarrow> string \<Rightarrow> bool \<Rightarrow> string \<Rightarrow> msg \<Rightarrow> bus \<Rightarrow> (gerr option \<times> bus) option" where
  "put now nid io name m b =
     (if name = '''' then Some (Some ErrBadName, b)
      else if maxBody b < int (length (m_body m)) then Some (Some ErrTooLarge, b)
      else if closed b then Some (Some ErrClosed, b)
      else putLocked io name (stamp now nid name m) b)"

subsection \<open>Leases: Hold, Ack, Nack, Requeue, expiry\<close>

definition deliverLocked :: "msg \<Rightarrow> bus \<Rightarrow> bus option" where
  "deliverLocked m b0 =
     (let b = boxLocked (m_name m) b0 in
      case waiters_of b (m_name m) of
        w # ws \<Rightarrow> do {
          st \<leftarrow> hand_off w m (tchan b);
          Some ((set_waiters (m_name m) ws b)\<lparr>tchan := st\<rparr>) }
      | [] \<Rightarrow> Some (index_add m (set_q (m_name m) (m # q_of b (m_name m)) b)))"

definition lease_or_default :: "int \<Rightarrow> int" where
  "lease_or_default lease = (if lease \<le> 0 then ns_minute else lease)"

definition hold ::
  "gotime \<Rightarrow> string \<Rightarrow> bool \<Rightarrow> msg \<Rightarrow> int \<Rightarrow> bus \<Rightarrow> (gerr + delivery) \<times> bus" where
  "hold now nid io m lease b =
     (if m_name m = '''' then (Inl ErrBadName, b)
      else if closed b then (Inl ErrClosed, b)
      else let d = \<lparr>d_id = nid, d_msg = m, d_expires = now + lease_or_default lease\<rparr>
        in case persistLocked io (index_add m (b\<lparr>inflight := (inflight b)(nid \<mapsto> d)\<rparr>)) of
          (None, b2) \<Rightarrow> (Inr d, b2)
        | (Some e, b2) \<Rightarrow> (Inl e, index_del m (b2\<lparr>inflight := (inflight b2)(nid := None)\<rparr>)))"

definition drop_lease :: "string \<Rightarrow> delivery \<Rightarrow> bus \<Rightarrow> bus" where
  "drop_lease i d b = index_del (d_msg d) (b\<lparr>inflight := (inflight b)(i := None)\<rparr>)"

definition ack :: "bool \<Rightarrow> string \<Rightarrow> bus \<Rightarrow> gerr option \<times> bus" where
  "ack io i b = (case inflight b i of
     None \<Rightarrow> (Some ErrNotFound, b)
   | Some d \<Rightarrow> persistLocked io (drop_lease i d b))"

definition nack :: "bool \<Rightarrow> string \<Rightarrow> bus \<Rightarrow> (gerr option \<times> bus) option" where
  "nack io i b = (case inflight b i of
     None \<Rightarrow> Some (Some ErrNotFound, b)
   | Some d \<Rightarrow> do {
       b1 \<leftarrow> deliverLocked (d_msg d) (drop_lease i d b);
       Some (persistLocked io b1) })"

definition requeue :: "bool \<Rightarrow> msg \<Rightarrow> bus \<Rightarrow> (gerr option \<times> bus) option" where
  "requeue io m b =
     (if m_name m = '''' then Some (Some ErrBadName, b)
      else if closed b then Some (Some ErrClosed, b)
      else do {
        b1 \<leftarrow> deliverLocked m b;
        Some (persistLocked io b1) })"

fun requeueExpiredLocked ::
  "gotime \<Rightarrow> string list \<Rightarrow> bool \<Rightarrow> bus \<Rightarrow> (bool \<times> bus) option" where
  "requeueExpiredLocked now [] changed b = Some (changed, b)"
| "requeueExpiredLocked now (i # is) changed b = (case inflight b i of
     None \<Rightarrow> requeueExpiredLocked now is changed b
   | Some d \<Rightarrow>
       if d_expires d < now then do {
         b1 \<leftarrow> deliverLocked (d_msg d) (drop_lease i d b);
         requeueExpiredLocked now is True b1 }
       else requeueExpiredLocked now is changed b)"

definition expireLeases :: "gotime \<Rightarrow> string list \<Rightarrow> bool \<Rightarrow> bus \<Rightarrow> bus option" where
  "expireLeases now ord io b =
     (if closed b then Some b
      else do {
        r \<leftarrow> requeueExpiredLocked now ord False b;
        Some (if fst r then snd (persistLocked io (snd r)) else snd r) })"

subsection \<open>Take\<close>

definition alloc_waiter :: "string \<Rightarrow> bus \<Rightarrow> nat \<times> bus" where
  "alloc_waiter name b =
     (nextT b, (set_waiters name (waiters_of b name @ [nextT b]) b)
        \<lparr>tchan := (tchan b)(nextT b \<mapsto> fresh_chan), nextT := Suc (nextT b)\<rparr>)"

definition alloc_full :: "msg \<Rightarrow> bus \<Rightarrow> nat \<times> bus" where
  "alloc_full m b =
     (nextT b, b\<lparr>tchan := (tchan b)(nextT b \<mapsto> \<lparr>buf = [m], chClosed = True\<rparr>),
                nextT := Suc (nextT b)\<rparr>)"

text \<open>
  \<open>pop_front\<close> is the common middle of \<open>takeChan\<close> and \<open>TryTake\<close>: the head leaves the
  queue and the index, and both are restored when persisting fails.
\<close>

definition pop_front :: "bool \<Rightarrow> string \<Rightarrow> msg \<Rightarrow> msg list \<Rightarrow> bus \<Rightarrow> gerr option \<times> bus" where
  "pop_front io name m rest b =
     (case persistLocked io (index_del m (set_q name rest b)) of
        (None, b1) \<Rightarrow> (None, b1)
      | (Some e, b1) \<Rightarrow> (Some e, index_add m (set_q name (m # q_of b1 name) b1)))"

definition takeChan ::
  "gotime \<Rightarrow> string list \<Rightarrow> bool \<Rightarrow> string \<Rightarrow> bus \<Rightarrow> ((gerr + nat) \<times> bus) option" where
  "takeChan now ord io name b0 =
     (if closed b0 then Some (Inl ErrClosed, b0)
      else do {
        r \<leftarrow> requeueExpiredLocked now ord False b0;
        let b = boxLocked name (snd r) in
        case q_of b name of
          m # rest \<Rightarrow> (case pop_front io name m rest b of
              (Some e, b1) \<Rightarrow> Some (Inl e, b1)
            | (None, b1) \<Rightarrow> (case alloc_full m b1 of (ch, b2) \<Rightarrow> Some (Inr ch, b2)))
        | [] \<Rightarrow> (case alloc_waiter name b of (ch, b1) \<Rightarrow> Some (Inr ch, b1)) })"

text \<open>\<open>Take\<close> up to its \<open>select\<close>, the two ways the \<open>select\<close> ends, and \<open>TryTake\<close>.\<close>

definition takeStart ::
  "gotime \<Rightarrow> string list \<Rightarrow> bool \<Rightarrow> string \<Rightarrow> bus \<Rightarrow> ((gerr + nat) \<times> bus) option" where
  "takeStart now ord io name b =
     (if name = '''' then Some (Inl ErrBadName, b) else takeChan now ord io name b)"

definition takeRecv :: "nat \<Rightarrow> bus \<Rightarrow> (gerr + msg) option \<times> bus" where
  "takeRecv ch b = (case ch_recv ch (tchan b) of
     (Got m, st) \<Rightarrow> (Some (Inr m), b\<lparr>tchan := st\<rparr>)
   | (Drained, st) \<Rightarrow> (Some (Inl ErrClosed), b)
   | (Blocks, st) \<Rightarrow> (None, b))"

definition cancelWaiter :: "bool \<Rightarrow> string \<Rightarrow> nat \<Rightarrow> bus \<Rightarrow> bus" where
  "cancelWaiter io name ch b = (case boxes b name of
     None \<Rightarrow> b
   | Some bx \<Rightarrow>
       let b1 = set_waiters name (filter (\<lambda>w. w \<noteq> ch) (bwaiters bx)) b in
       case ch_recv ch (tchan b1) of
         (Got m, st) \<Rightarrow>
           snd (persistLocked io
             (index_add m (set_q name (m # q_of b1 name) (b1\<lparr>tchan := st\<rparr>))))
       | (_, st) \<Rightarrow> b1)"

definition tryTake ::
  "gotime \<Rightarrow> string list \<Rightarrow> bool \<Rightarrow> string \<Rightarrow> bus \<Rightarrow> ((gerr + msg) \<times> bus) option" where
  "tryTake now ord io name b0 =
     (if name = '''' then Some (Inl ErrBadName, b0)
      else if closed b0 then Some (Inl ErrClosed, b0)
      else do {
        r \<leftarrow> requeueExpiredLocked now ord False b0;
        let b = snd r in
        case q_of b name of
          [] \<Rightarrow> Some (Inl ErrEmpty, b)
        | m # rest \<Rightarrow> (case pop_front io name m rest b of
              (Some e, b1) \<Rightarrow> Some (Inl e, b1)
            | (None, b1) \<Rightarrow> Some (Inr m, b1)) })"

text \<open>
  The second half of \<open>Reserve\<close> and \<open>TryReserve\<close>: lease the message that was taken, and put
  it back when that fails.
\<close>

definition holdOrRequeue ::
  "gotime \<Rightarrow> string \<Rightarrow> bool \<Rightarrow> bool \<Rightarrow> int \<Rightarrow> msg \<Rightarrow> bus \<Rightarrow> ((gerr + delivery) \<times> bus) option" where
  "holdOrRequeue now nid io io2 lease m b = (case hold now nid io m lease b of
     (Inr d, b1) \<Rightarrow> Some (Inr d, b1)
   | (Inl e, b1) \<Rightarrow> do { r \<leftarrow> requeue io2 m b1; Some (Inl e, snd r) })"

definition tryReserve ::
  "gotime \<Rightarrow> string list \<Rightarrow> string \<Rightarrow> bool \<Rightarrow> bool \<Rightarrow> bool \<Rightarrow> string \<Rightarrow> int \<Rightarrow> bus
   \<Rightarrow> ((gerr + delivery) \<times> bus) option" where
  "tryReserve now ord nid io1 io2 io3 name lease b =
     (if name = '''' then Some (Inl ErrBadName, b)
      else do {
        r \<leftarrow> tryTake now ord io1 name b;
        case r of
          (Inl e, b1) \<Rightarrow> Some (Inl e, b1)
        | (Inr m, b1) \<Rightarrow> holdOrRequeue now nid io2 io3 (lease_or_default lease) m b1 })"

subsection \<open>Inspection and Close\<close>

definition depth :: "string \<Rightarrow> bus \<Rightarrow> nat" where
  "depth name b = (case boxes b name of None \<Rightarrow> 0 | Some bx \<Rightarrow> length (bq bx))"

definition inflightCount :: "bus \<Rightarrow> nat" where
  "inflightCount b = card (dom (inflight b))"

fun closeBoxes :: "string list \<Rightarrow> bus \<Rightarrow> bus option" where
  "closeBoxes [] b = Some b"
| "closeBoxes (n # ns) b = (case boxes b n of
     None \<Rightarrow> closeBoxes ns b
   | Some bx \<Rightarrow> do {
       st \<leftarrow> ch_close_all (bwaiters bx) (tchan b);
       closeBoxes ns (b\<lparr>tchan := st, boxes := (boxes b)(n \<mapsto> \<lparr>bq = [], bwaiters = []\<rparr>)\<rparr>) })"

definition closeBus :: "string list \<Rightarrow> bus \<Rightarrow> bus option" where
  "closeBus ord b =
     (if closed b then Some b
      else do {
        b1 \<leftarrow> closeBoxes ord (b\<lparr>closed := True\<rparr>);
        st \<leftarrow> ch_close_all (map sch (subs b1)) (schan b1);
        if stopped b1 then None
        else Some (b1\<lparr>schan := st, subs := [], stopped := True\<rparr>) })"

end
