(* ===== verification/Bus_Inv.thy ===== *)
theory Bus_Inv
  imports Bus
begin

text \<open>
  What the bus keeps true between critical sections, and that every operation keeps it.

  \<^item> \<open>waiters_ok\<close>: every channel a box lists as a waiter is open and empty, and is listed
    once.  So a hand-off neither blocks nor panics and \<open>Close\<close> closes no channel twice.
  \<^item> \<open>index_ok\<close>: the dedup index counts exactly the queued and leased messages.
  \<^item> \<open>jobs\<close>: the messages the bus is responsible for, queued, leased or sitting in the
    channel of a \<open>Take\<close> that has not read it yet.  Operations move jobs between the three;
    none is dropped.
\<close>

subsection \<open>Counting messages\<close>

definition queued :: "bus \<Rightarrow> msg multiset" where
  "queued b = msum (\<lambda>bx. mset (bq bx)) (boxes b)"

definition leased :: "bus \<Rightarrow> msg multiset" where
  "leased b = msum (\<lambda>d. {#d_msg d#}) (inflight b)"

definition transit :: "bus \<Rightarrow> msg multiset" where
  "transit b = msum (\<lambda>c. mset (buf c)) (tchan b)"

definition held :: "bus \<Rightarrow> msg multiset" where
  "held b = queued b + leased b"

definition jobs :: "bus \<Rightarrow> msg multiset" where
  "jobs b = held b + transit b"

definition fin_ok :: "bus \<Rightarrow> bool" where
  "fin_ok b \<longleftrightarrow> finite (dom (boxes b)) \<and> finite (dom (inflight b)) \<and> finite (dom (tchan b))"

definition waiters_ok :: "bus \<Rightarrow> bool" where
  "waiters_ok b \<longleftrightarrow>
     (\<forall>n. distinct (waiters_of b n)) \<and>
     (\<forall>n. \<forall>w\<in>set (waiters_of b n). tchan b w = Some fresh_chan) \<and>
     (\<forall>n n'. n \<noteq> n' \<longrightarrow> set (waiters_of b n) \<inter> set (waiters_of b n') = {})"

definition alloc_ok :: "bus \<Rightarrow> bool" where
  "alloc_ok b \<longleftrightarrow> (\<forall>w. nextT b \<le> w \<longrightarrow> tchan b w = None)"

definition index_ok :: "bus \<Rightarrow> bool" where
  "index_ok b \<longleftrightarrow> ix.counts (dedup b) (held b)"

definition keys_ok :: "bus \<Rightarrow> bool" where
  "keys_ok b \<longleftrightarrow> (\<forall>i d. inflight b i = Some d \<longrightarrow> d_id d = i)"

definition bus_inv :: "bus \<Rightarrow> bool" where
  "bus_inv b \<longleftrightarrow> fin_ok b \<and> waiters_ok b \<and> alloc_ok b \<and> keys_ok b \<and>
     (\<not> closed b \<longrightarrow> index_ok b)"

text \<open>A box with a blocked \<open>Take\<close> has nothing queued: no message waits beside a waiter.\<close>

definition wake_ok :: "bus \<Rightarrow> bool" where
  "wake_ok b \<longleftrightarrow> (\<forall>n. waiters_of b n \<noteq> [] \<longrightarrow> q_of b n = [])"

text \<open>What the job operations never touch.\<close>

definition same_frame :: "bus \<Rightarrow> bus \<Rightarrow> bool" where
  "same_frame b b' \<longleftrightarrow>
     closed b' = closed b \<and> path b' = path b \<and> maxQueue b' = maxQueue b \<and> maxBody b' = maxBody b \<and>
     subs b' = subs b \<and> lastv b' = lastv b \<and> schan b' = schan b \<and> nextS b' = nextS b \<and>
     stopped b' = stopped b"

lemma same_frame_refl [simp]: "same_frame b b"
  by (simp add: same_frame_def)

lemma same_frame_trans: "same_frame a b \<Longrightarrow> same_frame b c \<Longrightarrow> same_frame a c"
  by (simp add: same_frame_def)

subsection \<open>The primitive updates\<close>

lemma box_of_updates [simp]:
  "box_of (b\<lparr>tchan := t\<rparr>) = box_of b" "box_of (b\<lparr>nextT := k\<rparr>) = box_of b"
  "box_of (b\<lparr>inflight := f\<rparr>) = box_of b" "box_of (b\<lparr>dedup := dd\<rparr>) = box_of b"
  "box_of (b\<lparr>disk := ds\<rparr>) = box_of b" "box_of (b\<lparr>closed := cl\<rparr>) = box_of b"
  "box_of (b\<lparr>subs := sb\<rparr>) = box_of b" "box_of (b\<lparr>schan := sc\<rparr>) = box_of b"
  "box_of (b\<lparr>stopped := sp\<rparr>) = box_of b" "box_of (b\<lparr>lastv := lv\<rparr>) = box_of b"
  "box_of (b\<lparr>nextS := ns\<rparr>) = box_of b"
  by (auto simp: box_of_def)

lemma qw_updates [simp]:
  "q_of (b\<lparr>tchan := t\<rparr>) = q_of b" "q_of (b\<lparr>nextT := k\<rparr>) = q_of b"
  "q_of (b\<lparr>inflight := f\<rparr>) = q_of b" "q_of (b\<lparr>dedup := dd\<rparr>) = q_of b"
  "q_of (b\<lparr>disk := ds\<rparr>) = q_of b" "q_of (b\<lparr>closed := cl\<rparr>) = q_of b"
  "q_of (b\<lparr>subs := sb\<rparr>) = q_of b" "q_of (b\<lparr>schan := sc\<rparr>) = q_of b"
  "q_of (b\<lparr>stopped := sp\<rparr>) = q_of b" "q_of (b\<lparr>lastv := lv\<rparr>) = q_of b"
  "q_of (b\<lparr>nextS := ns\<rparr>) = q_of b"
  "waiters_of (b\<lparr>tchan := t\<rparr>) = waiters_of b" "waiters_of (b\<lparr>nextT := k\<rparr>) = waiters_of b"
  "waiters_of (b\<lparr>inflight := f\<rparr>) = waiters_of b" "waiters_of (b\<lparr>dedup := dd\<rparr>) = waiters_of b"
  "waiters_of (b\<lparr>disk := ds\<rparr>) = waiters_of b" "waiters_of (b\<lparr>closed := cl\<rparr>) = waiters_of b"
  "waiters_of (b\<lparr>subs := sb\<rparr>) = waiters_of b" "waiters_of (b\<lparr>schan := sc\<rparr>) = waiters_of b"
  "waiters_of (b\<lparr>stopped := sp\<rparr>) = waiters_of b" "waiters_of (b\<lparr>lastv := lv\<rparr>) = waiters_of b"
  "waiters_of (b\<lparr>nextS := ns\<rparr>) = waiters_of b"
  by (simp_all add: q_of_def waiters_of_def fun_eq_iff)

lemma q_of_set_q [simp]: "q_of (set_q n q b) x = (if x = n then q else q_of b x)"
  by (simp add: q_of_def set_q_def box_of_def)

lemma q_of_set_waiters [simp]: "q_of (set_waiters n ws b) x = q_of b x"
  by (simp add: q_of_def set_waiters_def box_of_def)

lemma waiters_of_set_q [simp]: "waiters_of (set_q n q b) x = waiters_of b x"
  by (simp add: waiters_of_def set_q_def box_of_def)

lemma waiters_of_set_waiters [simp]:
  "waiters_of (set_waiters n ws b) x = (if x = n then ws else waiters_of b x)"
  by (simp add: waiters_of_def set_waiters_def box_of_def)

lemma qw_boxLocked [simp]:
  "q_of (boxLocked n b) = q_of b" "waiters_of (boxLocked n b) = waiters_of b"
  by (auto simp: q_of_def waiters_of_def boxLocked_def box_of_def fun_eq_iff split: option.splits)

lemma qw_index [simp]:
  "q_of (index_add m b) = q_of b" "waiters_of (index_add m b) = waiters_of b"
  "q_of (index_del m b) = q_of b" "waiters_of (index_del m b) = waiters_of b"
  by (simp_all add: index_add_def index_del_def)

lemma field_set_q [simp]:
  "tchan (set_q n q b) = tchan b" "inflight (set_q n q b) = inflight b"
  "dedup (set_q n q b) = dedup b" "nextT (set_q n q b) = nextT b"
  "closed (set_q n q b) = closed b" "disk (set_q n q b) = disk b" "path (set_q n q b) = path b"
  "maxQueue (set_q n q b) = maxQueue b" "same_frame b' (set_q n q b) = same_frame b' b"
  by (simp_all add: set_q_def same_frame_def)

lemma field_set_waiters [simp]:
  "tchan (set_waiters n ws b) = tchan b" "inflight (set_waiters n ws b) = inflight b"
  "dedup (set_waiters n ws b) = dedup b" "nextT (set_waiters n ws b) = nextT b"
  "closed (set_waiters n ws b) = closed b" "disk (set_waiters n ws b) = disk b"
  "path (set_waiters n ws b) = path b" "maxQueue (set_waiters n ws b) = maxQueue b"
  "same_frame b' (set_waiters n ws b) = same_frame b' b"
  by (simp_all add: set_waiters_def same_frame_def)

lemma field_boxLocked [simp]:
  "tchan (boxLocked n b) = tchan b" "inflight (boxLocked n b) = inflight b"
  "dedup (boxLocked n b) = dedup b" "nextT (boxLocked n b) = nextT b"
  "closed (boxLocked n b) = closed b" "disk (boxLocked n b) = disk b"
  "path (boxLocked n b) = path b" "maxQueue (boxLocked n b) = maxQueue b"
  "same_frame b' (boxLocked n b) = same_frame b' b"
  by (simp_all add: boxLocked_def same_frame_def split: option.split)

lemma field_index [simp]:
  "tchan (index_add m b) = tchan b" "tchan (index_del m b) = tchan b"
  "inflight (index_add m b) = inflight b" "inflight (index_del m b) = inflight b"
  "nextT (index_add m b) = nextT b" "nextT (index_del m b) = nextT b"
  "closed (index_add m b) = closed b" "closed (index_del m b) = closed b"
  "disk (index_add m b) = disk b" "disk (index_del m b) = disk b"
  "path (index_add m b) = path b" "path (index_del m b) = path b"
  "boxes (index_add m b) = boxes b" "boxes (index_del m b) = boxes b"
  "maxQueue (index_add m b) = maxQueue b" "maxQueue (index_del m b) = maxQueue b"
  "dedup (index_add m b) = indexAddLocked m (dedup b)"
  "dedup (index_del m b) = indexDelLocked m (dedup b)"
  "same_frame b' (index_add m b) = same_frame b' b" "same_frame b' (index_del m b) = same_frame b' b"
  by (simp_all add: index_add_def index_del_def same_frame_def)

lemma same_frame_updates [simp]:
  "same_frame b' (b\<lparr>tchan := t\<rparr>) = same_frame b' b" "same_frame b' (b\<lparr>nextT := k\<rparr>) = same_frame b' b"
  "same_frame b' (b\<lparr>inflight := f\<rparr>) = same_frame b' b" "same_frame b' (b\<lparr>disk := ds\<rparr>) = same_frame b' b"
  by (simp_all add: same_frame_def)


subsection \<open>Counting under the primitive updates\<close>

lemma count_updates [simp]:
  "queued (b\<lparr>tchan := t\<rparr>) = queued b" "queued (b\<lparr>nextT := k\<rparr>) = queued b"
  "queued (b\<lparr>inflight := f\<rparr>) = queued b" "queued (b\<lparr>disk := ds\<rparr>) = queued b"
  "leased (b\<lparr>tchan := t\<rparr>) = leased b" "leased (b\<lparr>nextT := k\<rparr>) = leased b"
  "leased (b\<lparr>disk := ds\<rparr>) = leased b" "leased (set_q n q b) = leased b"
  "leased (set_waiters n ws b) = leased b" "leased (boxLocked n b) = leased b"
  "leased (index_add m b) = leased b" "leased (index_del m b) = leased b"
  "transit (b\<lparr>nextT := k\<rparr>) = transit b" "transit (b\<lparr>inflight := f\<rparr>) = transit b"
  "transit (b\<lparr>disk := ds\<rparr>) = transit b" "transit (set_q n q b) = transit b"
  "transit (set_waiters n ws b) = transit b" "transit (boxLocked n b) = transit b"
  "transit (index_add m b) = transit b" "transit (index_del m b) = transit b"
  "queued (index_add m b) = queued b" "queued (index_del m b) = queued b"
  by (simp_all add: queued_def leased_def transit_def)

lemma queued_none: "boxes b n = None \<Longrightarrow> q_of b n = []"
  by (simp add: q_of_def box_of_def)

lemma queued_split:
  assumes "finite (dom (boxes b))"
  shows "queued b = mset (q_of b n) + msum (\<lambda>bx. mset (bq bx)) ((boxes b)(n := None))"
proof (cases "boxes b n")
  case None
  then show ?thesis by (simp add: queued_def q_of_def box_of_def msum_none)
next
  case (Some bx)
  then show ?thesis
    using msum_remove [OF assms Some, of "\<lambda>bx. mset (bq bx)"]
    by (simp add: queued_def q_of_def box_of_def)
qed

lemma queued_set_q:
  assumes "finite (dom (boxes b))"
  shows "queued (set_q n q b) + mset (q_of b n) = queued b + mset q"
  unfolding queued_split [OF assms, of n]
  using assms by (simp add: queued_def set_q_def msum_update)

lemma queued_more:
  "finite (dom (boxes b)) \<Longrightarrow> mset q = add_mset m (mset (q_of b n)) \<Longrightarrow>
   queued (set_q n q b) = add_mset m (queued b)"
  using queued_set_q [of b n q] by simp

lemma queued_less:
  "finite (dom (boxes b)) \<Longrightarrow> mset (q_of b n) = add_mset m (mset q) \<Longrightarrow>
   queued b = add_mset m (queued (set_q n q b))"
  using queued_set_q [of b n q] by simp

lemma queued_set_waiters [simp]:
  assumes "finite (dom (boxes b))"
  shows "queued (set_waiters n ws b) = queued b"
  unfolding queued_split [OF assms, of n]
  using assms by (simp add: queued_def set_waiters_def msum_update q_of_def)

lemma queued_boxLocked [simp]:
  "finite (dom (boxes b)) \<Longrightarrow> queued (boxLocked n b) = queued b"
  by (simp add: queued_def boxLocked_def msum_insert split: option.split)

lemma leased_add:
  "finite (dom (inflight b)) \<Longrightarrow> inflight b i = None \<Longrightarrow>
   leased (b\<lparr>inflight := (inflight b)(i \<mapsto> d)\<rparr>) = add_mset (d_msg d) (leased b)"
  by (simp add: leased_def msum_insert)

lemma leased_drop:
  "finite (dom (inflight b)) \<Longrightarrow> inflight b i = Some d \<Longrightarrow>
   leased b = add_mset (d_msg d) (leased (b\<lparr>inflight := (inflight b)(i := None)\<rparr>))"
  using msum_remove [of "inflight b" i d "\<lambda>d. {#d_msg d#}"] by (simp add: leased_def)

lemma transit_put:
  "finite (dom (tchan b)) \<Longrightarrow> tchan b w = Some c \<Longrightarrow> buf c = [] \<Longrightarrow>
   transit (b\<lparr>tchan := (tchan b)(w \<mapsto> \<lparr>buf = [m], chClosed = True\<rparr>)\<rparr>) = add_mset m (transit b)"
  using msum_remove [of "tchan b" w c "\<lambda>c. mset (buf c)"]
  by (simp add: transit_def msum_update)

lemma transit_new:
  "finite (dom (tchan b)) \<Longrightarrow> tchan b w = None \<Longrightarrow>
   transit (b\<lparr>tchan := (tchan b)(w \<mapsto> c)\<rparr>) = mset (buf c) + transit b"
  by (simp add: transit_def msum_insert)

lemma transit_take:
  "finite (dom (tchan b)) \<Longrightarrow> tchan b w = Some c \<Longrightarrow> buf c = m # ms \<Longrightarrow>
   transit b = add_mset m (transit (b\<lparr>tchan := (tchan b)(w \<mapsto> c\<lparr>buf := ms\<rparr>)\<rparr>))"
  using msum_remove [of "tchan b" w c "\<lambda>c. mset (buf c)"]
  by (simp add: transit_def msum_update)

subsection \<open>Invariants under the primitive updates\<close>

lemma fin_ok_updates [simp]:
  "fin_ok (set_q n q b) = fin_ok b" "fin_ok (set_waiters n ws b) = fin_ok b"
  "fin_ok (index_add m b) = fin_ok b" "fin_ok (index_del m b) = fin_ok b"
  "fin_ok (b\<lparr>disk := ds\<rparr>) = fin_ok b" "fin_ok (b\<lparr>nextT := k\<rparr>) = fin_ok b"
  "fin_ok (b\<lparr>tchan := (tchan b)(w \<mapsto> c)\<rparr>) = fin_ok b"
  "fin_ok (b\<lparr>inflight := (inflight b)(i \<mapsto> d)\<rparr>) = fin_ok b"
  by (auto simp: fin_ok_def set_q_def set_waiters_def index_add_def index_del_def)

lemma fin_ok_boxLocked [simp]: "fin_ok (boxLocked n b) = fin_ok b"
  by (auto simp: fin_ok_def boxLocked_def split: option.split)

lemma fin_ok_drop [simp]: "fin_ok (b\<lparr>inflight := (inflight b)(i := None)\<rparr>) = fin_ok b"
  by (auto simp: fin_ok_def)

lemma waiters_ok_cong:
  "waiters_of b' = waiters_of b \<Longrightarrow> tchan b' = tchan b \<Longrightarrow> waiters_ok b' = waiters_ok b"
  by (simp add: waiters_ok_def)

lemma waiters_ok_updates [simp]:
  "waiters_ok (set_q n q b) = waiters_ok b" "waiters_ok (index_add m b) = waiters_ok b"
  "waiters_ok (index_del m b) = waiters_ok b" "waiters_ok (boxLocked n b) = waiters_ok b"
  "waiters_ok (b\<lparr>inflight := f\<rparr>) = waiters_ok b" "waiters_ok (b\<lparr>disk := ds\<rparr>) = waiters_ok b"
  "waiters_ok (b\<lparr>nextT := k\<rparr>) = waiters_ok b"
  by (intro waiters_ok_cong; simp add: fun_eq_iff)+

lemma waiters_okD:
  assumes "waiters_ok b" and "waiters_of b n = w # ws"
  shows "tchan b w = Some fresh_chan" and "distinct ws" and "w \<notin> set ws"
    and "x \<noteq> n \<Longrightarrow> w \<notin> set (waiters_of b x)"
proof -
  have "distinct (w # ws)" and "\<forall>v\<in>set (w # ws). tchan b v = Some fresh_chan"
    using assms unfolding waiters_ok_def by metis+
  then show "tchan b w = Some fresh_chan" "distinct ws" "w \<notin> set ws" by simp_all
  show "w \<notin> set (waiters_of b x)" if "x \<noteq> n"
  proof -
    have "set (waiters_of b x) \<inter> set (waiters_of b n) = {}"
      using assms(1) that unfolding waiters_ok_def by blast
    then show ?thesis using assms(2) by auto
  qed
qed

lemma waiters_ok_mem:
  "waiters_ok b \<Longrightarrow> w \<in> set (waiters_of b n) \<Longrightarrow> tchan b w = Some fresh_chan"
  by (simp add: waiters_ok_def)

lemma waiters_ok_disj:
  assumes "waiters_ok b" and "w \<in> set (waiters_of b x)" and "x \<noteq> y"
  shows "w \<notin> set (waiters_of b y)"
proof -
  have "set (waiters_of b x) \<inter> set (waiters_of b y) = {}"
    using assms(1,3) by (simp add: waiters_ok_def)
  then show ?thesis using assms(2) by auto
qed

lemma waiters_ok_handoff:
  assumes "waiters_ok b" and "waiters_of b n = w # ws"
  shows "waiters_ok ((set_waiters n ws b)\<lparr>tchan := (tchan b)(w \<mapsto> c)\<rparr>)"
proof -
  note d = waiters_okD [OF assms]
  have mem: "\<forall>x. \<forall>v\<in>set (waiters_of b x). tchan b v = Some fresh_chan"
    and dist: "\<forall>x. distinct (waiters_of b x)"
    and disj: "\<And>x y. x \<noteq> y \<Longrightarrow> set (waiters_of b x) \<inter> set (waiters_of b y) = {}"
    using assms(1) by (auto simp: waiters_ok_def)
  have sub: "set ws \<subseteq> set (waiters_of b n)" using assms(2) by auto
  show ?thesis
    unfolding waiters_ok_def
  proof (intro conjI allI ballI impI)
    fix x y
    let ?b = "(set_waiters n ws b)\<lparr>tchan := (tchan b)(w \<mapsto> c)\<rparr>"
    show "distinct (waiters_of ?b x)" using dist d(2) by simp
    show "set (waiters_of ?b x) \<inter> set (waiters_of ?b y) = {}" if "x \<noteq> y"
      using disj [OF that] that sub disj [of n y] disj [of x n] by auto
    show "tchan ?b v = Some fresh_chan" if "v \<in> set (waiters_of ?b x)" for v
      using that mem sub d(3) d(4) [of x] by (auto split: if_splits)
  qed
qed

lemma alloc_ok_updates [simp]:
  "alloc_ok (set_q n q b) = alloc_ok b" "alloc_ok (index_add m b) = alloc_ok b"
  "alloc_ok (index_del m b) = alloc_ok b" "alloc_ok (boxLocked n b) = alloc_ok b"
  "alloc_ok (b\<lparr>inflight := f\<rparr>) = alloc_ok b" "alloc_ok (b\<lparr>disk := ds\<rparr>) = alloc_ok b"
  "alloc_ok (set_waiters n ws b) = alloc_ok b"
  by (simp_all add: alloc_ok_def)

lemma keys_ok_updates [simp]:
  "keys_ok (set_q n q b) = keys_ok b" "keys_ok (index_add m b) = keys_ok b"
  "keys_ok (index_del m b) = keys_ok b" "keys_ok (boxLocked n b) = keys_ok b"
  "keys_ok (set_waiters n ws b) = keys_ok b" "keys_ok (b\<lparr>tchan := t\<rparr>) = keys_ok b"
  "keys_ok (b\<lparr>disk := ds\<rparr>) = keys_ok b" "keys_ok (b\<lparr>nextT := k\<rparr>) = keys_ok b"
  by (simp_all add: keys_ok_def)

lemma keys_ok_drop: "keys_ok b \<Longrightarrow> keys_ok (b\<lparr>inflight := (inflight b)(i := None)\<rparr>)"
  by (simp add: keys_ok_def)

lemma index_ok_disk [simp]: "index_ok (b\<lparr>disk := ds\<rparr>) = index_ok b"
  by (simp add: index_ok_def held_def)

lemma wake_ok_cong:
  "q_of b' = q_of b \<Longrightarrow> waiters_of b' = waiters_of b \<Longrightarrow> wake_ok b' = wake_ok b"
  by (simp add: wake_ok_def)

lemma wake_ok_updates [simp]:
  "wake_ok (index_add m b) = wake_ok b" "wake_ok (index_del m b) = wake_ok b"
  "wake_ok (boxLocked n b) = wake_ok b" "wake_ok (b\<lparr>inflight := f\<rparr>) = wake_ok b"
  "wake_ok (b\<lparr>disk := ds\<rparr>) = wake_ok b" "wake_ok (b\<lparr>nextT := k\<rparr>) = wake_ok b"
  "wake_ok (b\<lparr>tchan := t\<rparr>) = wake_ok b"
  by (intro wake_ok_cong; simp)+

lemma persist_shape: "\<exists>ds. snd (persistLocked io b) = b\<lparr>disk := ds\<rparr>"
  by (cases "disk b"; simp add: persistLocked_def) (metis bus.surjective bus.update_convs(15))+

lemma bus_inv_disk [simp]: "bus_inv (b\<lparr>disk := ds\<rparr>) = bus_inv b"
  by (simp add: bus_inv_def)

end
