(* ===== verification/Bus_Ops.thy ===== *)
theory Bus_Ops
  imports Bus_Inv
begin

text \<open>
  Every job operation of the bus, run in a state that satisfies the invariant, returns (it
  neither panics nor blocks under the mutex), keeps the invariant, and changes the jobs the bus
  is responsible for by exactly the messages that came in and went out.

  \<open>moves b ins outs b'\<close> says this of the step from \<open>b\<close> to \<open>b'\<close>; \<open>moves\<close> composes,
  so a handler that makes several of these calls needs no new argument.
\<close>

definition moves :: "bus \<Rightarrow> msg multiset \<Rightarrow> msg multiset \<Rightarrow> bus \<Rightarrow> bool" where
  "moves b ins outs b' \<longleftrightarrow>
     bus_inv b' \<and> same_frame b b' \<and> jobs b' + outs = jobs b + ins \<and> (wake_ok b \<longrightarrow> wake_ok b')"

lemma moves_refl: "bus_inv b \<Longrightarrow> moves b {#} {#} b"
  by (simp add: moves_def)

lemma moves_trans:
  assumes "moves a i u b" and "moves b j v c"
  shows "moves a (i + j) (u + v) c"
proof -
  have "jobs c + v + u = jobs a + i + j"
    using assms by (simp add: moves_def union_ac)
  then have "jobs c + (u + v) = jobs a + (i + j)" by (simp add: ac_simps)
  then show ?thesis using assms by (auto simp: moves_def dest: same_frame_trans)
qed

lemma moves_inv: "moves b i u b' \<Longrightarrow> bus_inv b'"
  by (simp add: moves_def)

lemma moves_closed: "moves b i u b' \<Longrightarrow> closed b' = closed b"
  by (simp add: moves_def same_frame_def)

lemma bus_inv_fin:
  "bus_inv b \<Longrightarrow> finite (dom (boxes b))" "bus_inv b \<Longrightarrow> finite (dom (inflight b))"
  "bus_inv b \<Longrightarrow> finite (dom (tchan b))"
  by (simp_all add: bus_inv_def fin_ok_def)

subsection \<open>Persisting\<close>

lemma held_disk [simp]: "held (b\<lparr>disk := ds\<rparr>) = held b" "jobs (b\<lparr>disk := ds\<rparr>) = jobs b"
  by (simp_all add: held_def jobs_def)

lemma persist_None: "persistLocked io b = (None, b') \<Longrightarrow> \<exists>ds. b' = b\<lparr>disk := ds\<rparr>"
  using persist_shape [of io b] by simp

lemma persist_Some: "persistLocked io b = (Some e, b') \<Longrightarrow> b' = b \<and> e = ErrIO"
  by (auto simp: persistLocked_def split: if_splits)

lemma moves_disk: "moves b i u b' \<Longrightarrow> moves b i u (b'\<lparr>disk := ds\<rparr>)"
  by (simp add: moves_def)

lemma moves_persist: "moves b i u b' \<Longrightarrow> moves b i u (snd (persistLocked io b'))"
  using persist_shape [of io b'] by (auto intro: moves_disk)

subsection \<open>Handing a message to a waiter, or to the queue\<close>

lemma hand_off_waiter:
  assumes inv: "bus_inv b" and w: "waiters_of b n = w # ws"
  shows "hand_off w m (tchan b) = Some ((tchan b)(w \<mapsto> \<lparr>buf = [m], chClosed = True\<rparr>))"
    and "moves b {#m#} {#}
           ((set_waiters n ws b)\<lparr>tchan := (tchan b)(w \<mapsto> \<lparr>buf = [m], chClosed = True\<rparr>)\<rparr>)"
proof -
  have fin: "finite (dom (boxes b))" "finite (dom (tchan b))"
    and wok: "waiters_ok b" and al: "alloc_ok b"
    using inv by (auto simp: bus_inv_def fin_ok_def)
  note d = waiters_okD [OF wok w]
  have fresh: "tchan b w = Some fresh_chan" using d by simp
  then show "hand_off w m (tchan b) = Some ((tchan b)(w \<mapsto> \<lparr>buf = [m], chClosed = True\<rparr>))"
    by (rule hand_off_fresh)
  let ?b = "(set_waiters n ws b)\<lparr>tchan := (tchan b)(w \<mapsto> \<lparr>buf = [m], chClosed = True\<rparr>)\<rparr>"
  have "waiters_ok ?b" by (rule waiters_ok_handoff [OF wok w])
  moreover have "alloc_ok ?b"
    using al fresh by (auto simp: alloc_ok_def)
  moreover have t: "transit ?b = add_mset m (transit b)"
    using transit_put [OF _ fresh, of m] fin by (simp add: fresh_chan_def transit_def)
  moreover have h: "held ?b = held b"
    using fin by (simp add: held_def)
  moreover have "fin_ok ?b" using inv by (auto simp: bus_inv_def fin_ok_def set_waiters_def)
  moreover have "wake_ok b \<longrightarrow> wake_ok ?b"
    using w by (auto simp: wake_ok_def split: if_splits)
  ultimately show "moves b {#m#} {#} ?b"
    using inv by (simp add: moves_def bus_inv_def jobs_def index_ok_def)
qed

text \<open>The three ways a message enters or leaves a queue, with its index entry.\<close>

lemma moves_boxLocked: "bus_inv b \<Longrightarrow> moves b {#} {#} (boxLocked n b)"
  using bus_inv_fin [of b]
  by (simp add: moves_def bus_inv_def jobs_def held_def index_ok_def)

lemma enqueue_core:
  assumes "bus_inv b" and q: "mset q = add_mset m (mset (q_of b n))"
  shows "bus_inv (index_add m (set_q n q b))"
    and "jobs (index_add m (set_q n q b)) = add_mset m (jobs b)"
proof -
  let ?b = "index_add m (set_q n q b)"
  have h: "held ?b = add_mset m (held b)"
    using assms queued_more [OF _ q] by (simp add: held_def bus_inv_def fin_ok_def)
  then have "\<not> closed b \<longrightarrow> index_ok ?b"
    using assms by (auto simp: bus_inv_def index_ok_def intro: ix.counts_add)
  then show "bus_inv ?b" using assms by (auto simp: bus_inv_def)
  show "jobs ?b = add_mset m (jobs b)" using h by (simp add: jobs_def)
qed

lemma moves_enqueue:
  assumes "bus_inv b" and "waiters_of b n = []" and "mset q = add_mset m (mset (q_of b n))"
  shows "moves b {#m#} {#} (index_add m (set_q n q b))"
  using enqueue_core [OF assms(1,3)] assms(2) by (auto simp: moves_def wake_ok_def)

lemma moves_unqueue:
  assumes "bus_inv b" and q: "mset (q_of b n) = add_mset m (mset q)"
  shows "moves b {#} {#m#} (index_del m (set_q n q b))"
proof -
  let ?b = "index_del m (set_q n q b)"
  have h: "held b = add_mset m (held ?b)"
    using assms queued_less [OF _ q] by (simp add: held_def bus_inv_def fin_ok_def)
  then have "\<not> closed b \<longrightarrow> index_ok ?b"
    using assms by (auto simp: bus_inv_def index_ok_def intro: ix.counts_del)
  moreover have "wake_ok b \<longrightarrow> wake_ok ?b"
    using q by (auto simp: wake_ok_def)
  ultimately show ?thesis
    using assms h by (auto simp: moves_def bus_inv_def jobs_def)
qed

lemma held_drop_lease:
  "bus_inv b \<Longrightarrow> inflight b i = Some d \<Longrightarrow> held b = add_mset (d_msg d) (held (drop_lease i d b))"
  using leased_drop [of b i d] by (simp add: held_def drop_lease_def bus_inv_def fin_ok_def)

lemma moves_drop_lease:
  assumes inv: "bus_inv b" and d: "inflight b i = Some d"
  shows "moves b {#} {#d_msg d#} (drop_lease i d b)"
proof -
  let ?b = "drop_lease i d b"
  have h: "held b = add_mset (d_msg d) (held ?b)" by (rule held_drop_lease [OF inv d])
  then have "\<not> closed b \<longrightarrow> index_ok ?b"
    using inv by (auto simp: bus_inv_def index_ok_def drop_lease_def intro: ix.counts_del)
  then show ?thesis
    using inv h by (auto simp: moves_def bus_inv_def jobs_def drop_lease_def keys_ok_drop)
qed

lemma moves_add_lease:
  assumes inv: "bus_inv b" and i: "inflight b i = None" and d: "d_id d = i"
  shows "moves b {#d_msg d#} {#} (index_add (d_msg d) (b\<lparr>inflight := (inflight b)(i \<mapsto> d)\<rparr>))"
proof -
  let ?b = "index_add (d_msg d) (b\<lparr>inflight := (inflight b)(i \<mapsto> d)\<rparr>)"
  have h: "held ?b = add_mset (d_msg d) (held b)"
    using inv i by (simp add: held_def leased_add bus_inv_def fin_ok_def)
  then have "\<not> closed b \<longrightarrow> index_ok ?b"
    using inv by (auto simp: bus_inv_def index_ok_def intro: ix.counts_add)
  moreover have "keys_ok ?b" using inv d by (simp add: bus_inv_def keys_ok_def)
  ultimately show ?thesis
    using inv h by (auto simp: moves_def bus_inv_def jobs_def)
qed

subsection \<open>Delivering, holding, acknowledging\<close>

lemma deliverLocked_moves:
  assumes inv: "bus_inv b"
  obtains b' where "deliverLocked m b = Some b'" and "moves b {#m#} {#} b'"
    and "inflight b' = inflight b" and "nextT b' = nextT b"
proof -
  let ?n = "m_name m"
  have box: "moves b {#} {#} (boxLocked ?n b)" by (rule moves_boxLocked [OF inv])
  note inv1 = moves_inv [OF box]
  show ?thesis
  proof (cases "waiters_of b ?n")
    case Nil
    let ?b1 = "index_add m (set_q ?n (m # q_of b ?n) (boxLocked ?n b))"
    have "moves (boxLocked ?n b) {#m#} {#} ?b1"
      using moves_enqueue [OF inv1, of ?n "m # q_of b ?n" m] Nil by simp
    from moves_trans [OF box this] Nil show ?thesis
      by (intro that [of ?b1]) (simp_all add: deliverLocked_def Let_def)
  next
    case (Cons w ws)
    let ?b1 = "(set_waiters ?n ws (boxLocked ?n b))
                 \<lparr>tchan := (tchan b)(w \<mapsto> \<lparr>buf = [m], chClosed = True\<rparr>)\<rparr>"
    have w: "waiters_of (boxLocked ?n b) ?n = w # ws" using Cons by simp
    have mv: "moves (boxLocked ?n b) {#m#} {#} ?b1"
      using hand_off_waiter(2) [OF inv1 w, of m] by simp
    show ?thesis
      using moves_trans [OF box mv] hand_off_waiter(1) [OF inv1 w, of m] Cons
      by (intro that [of ?b1]) (simp_all add: deliverLocked_def Let_def)
  qed
qed

lemma hold_moves:
  assumes inv: "bus_inv b" and fresh: "inflight b nid = None"
  shows "case hold now nid io m lease b of
           (Inr d, b') \<Rightarrow> moves b {#m#} {#} b' \<and> m_name m \<noteq> '''' \<and> \<not> closed b \<and> d_msg d = m \<and>
              d_id d = nid \<and> d_expires d = now + lease_or_default lease \<and>
              inflight b' = (inflight b)(nid \<mapsto> d)
         | (Inl e, b') \<Rightarrow> moves b {#} {#} b' \<and> inflight b' = inflight b"
proof -
  let ?d = "\<lparr>d_id = nid, d_msg = m, d_expires = now + lease_or_default lease\<rparr>"
  let ?b = "index_add m (b\<lparr>inflight := (inflight b)(nid \<mapsto> ?d)\<rparr>)"
  have mv: "moves b {#m#} {#} ?b" using moves_add_lease [OF inv fresh, of ?d] by simp
  show ?thesis
  proof (cases "m_name m = '''' \<or> closed b")
    case True
    then show ?thesis by (auto simp: hold_def moves_refl [OF inv])
  next
    case False
    show ?thesis
    proof (cases "persistLocked io ?b")
      case (Pair r b2)
      show ?thesis
      proof (cases r)
        case None
        then obtain ds where b2: "b2 = ?b\<lparr>disk := ds\<rparr>" using persist_None Pair by blast
        have "moves b {#m#} {#} b2" unfolding b2 by (rule moves_disk [OF mv])
        then show ?thesis using False Pair None b2 by (simp add: hold_def Let_def)
      next
        case (Some e)
        then have b2: "b2 = ?b" using persist_Some Pair by blast
        have "moves ?b {#} {#m#} (drop_lease nid ?d ?b)"
          using moves_drop_lease [OF moves_inv [OF mv], of nid ?d] by simp
        from moves_trans [OF mv this]
        have "moves b {#} {#} (drop_lease nid ?d ?b)" by (simp add: moves_def)
        then show ?thesis using False Pair Some b2 fresh
          by (auto simp: hold_def Let_def drop_lease_def fun_upd_idem)
      qed
    qed
  qed
qed

lemma ack_moves:
  assumes inv: "bus_inv b" and d: "inflight b i = Some d"
  shows "moves b {#} {#d_msg d#} (snd (ack io i b))"
    and "inflight (snd (ack io i b)) = (inflight b)(i := None)"
proof -
  show "moves b {#} {#d_msg d#} (snd (ack io i b))"
    using moves_persist [OF moves_drop_lease [OF inv d]] d by (simp add: ack_def)
  show "inflight (snd (ack io i b)) = (inflight b)(i := None)"
    using d persist_shape [of io "drop_lease i d b"]
    by (auto simp: ack_def drop_lease_def)
qed

lemma moves_cancel:
  assumes "moves b {#m#} {#m#} b'"
  shows "moves b {#} {#} b'"
  using assms by (simp add: moves_def)

lemma redeliver_moves:
  assumes inv: "bus_inv b" and d: "inflight b i = Some d"
  obtains b' where "deliverLocked (d_msg d) (drop_lease i d b) = Some b'"
    and "moves b {#} {#} b'" and "inflight b' = (inflight b)(i := None)"
proof -
  have dl: "moves b {#} {#d_msg d#} (drop_lease i d b)" by (rule moves_drop_lease [OF inv d])
  obtain b' where b': "deliverLocked (d_msg d) (drop_lease i d b) = Some b'"
    and mv: "moves (drop_lease i d b) {#d_msg d#} {#} b'"
    and inf: "inflight b' = inflight (drop_lease i d b)"
    by (rule deliverLocked_moves [OF moves_inv [OF dl]])
  have "moves b {#} {#} b'" using moves_cancel [of b "d_msg d" b'] moves_trans [OF dl mv] by simp
  then show ?thesis using b' inf by (intro that) (auto simp: drop_lease_def)
qed

lemma nack_moves:
  assumes inv: "bus_inv b" and d: "inflight b i = Some d"
  obtains r b' where "nack io i b = Some (r, b')" and "moves b {#} {#} b'"
    and "inflight b' = (inflight b)(i := None)"
proof -
  obtain b1 where b1: "deliverLocked (d_msg d) (drop_lease i d b) = Some b1"
    and mv: "moves b {#} {#} b1" and inf: "inflight b1 = (inflight b)(i := None)"
    by (rule redeliver_moves [OF inv d])
  show ?thesis
    using that [of "fst (persistLocked io b1)" "snd (persistLocked io b1)"] d b1 inf
      moves_persist [OF mv] persist_shape [of io b1]
    by (auto simp: nack_def)
qed

lemma requeue_moves:
  assumes inv: "bus_inv b" and live: "\<not> closed b" and n: "m_name m \<noteq> ''''"
  obtains r b' where "requeue io m b = Some (r, b')" and "moves b {#m#} {#} b'"
    and "inflight b' = inflight b"
proof -
  obtain b1 where b1: "deliverLocked m b = Some b1" and mv: "moves b {#m#} {#} b1"
    and inf: "inflight b1 = inflight b"
    by (rule deliverLocked_moves [OF inv])
  show ?thesis
    using that [of "fst (persistLocked io b1)" "snd (persistLocked io b1)"] b1 inf live n
      moves_persist [OF mv] persist_shape [of io b1]
    by (auto simp: requeue_def)
qed

subsection \<open>Lease expiry\<close>

text \<open>
  The loop over the leases, for any order and with repetitions allowed: exactly the visited
  leases that have run out are gone afterwards.
\<close>

lemma requeueExpired_moves:
  assumes "bus_inv b"
  obtains ch b' where "requeueExpiredLocked now ord changed b = Some (ch, b')"
    and "moves b {#} {#} b'"
    and "inflight b' = (\<lambda>i. case inflight b i of None \<Rightarrow> None
           | Some d \<Rightarrow> if i \<in> set ord \<and> d_expires d < now then None else Some d)"
    and "ch = (changed \<or> (\<exists>i\<in>set ord. \<exists>d. inflight b i = Some d \<and> d_expires d < now))"
  using assms
proof (induction ord arbitrary: b changed thesis)
  case Nil
  show ?case
    by (rule Nil.prems(1) [of changed b])
      (auto simp: moves_refl [OF Nil.prems(2)] fun_eq_iff split: option.split)
next
  case (Cons i ord)
  show ?case
  proof (cases "\<exists>d. inflight b i = Some d \<and> d_expires d < now")
    case False
    obtain ch b' where r: "requeueExpiredLocked now ord changed b = Some (ch, b')"
      and mv: "moves b {#} {#} b'"
      and inf: "inflight b' = (\<lambda>i. case inflight b i of None \<Rightarrow> None
           | Some d \<Rightarrow> if i \<in> set ord \<and> d_expires d < now then None else Some d)"
      and ch: "ch = (changed \<or> (\<exists>i\<in>set ord. \<exists>d. inflight b i = Some d \<and> d_expires d < now))"
      using Cons.IH [OF _ Cons.prems(2), where changed = changed] by blast
    show ?thesis
    proof (rule Cons.prems(1) [of ch b'])
      show "requeueExpiredLocked now (i # ord) changed b = Some (ch, b')"
        using False r by (auto split: option.split)
      show "inflight b' = (\<lambda>j. case inflight b j of None \<Rightarrow> None
           | Some d \<Rightarrow> if j \<in> set (i # ord) \<and> d_expires d < now then None else Some d)"
        using False inf by (auto simp: fun_eq_iff split: option.split)
    qed (use mv ch False in auto)
  next
    case True
    then obtain d where d: "inflight b i = Some d" "d_expires d < now" by blast
    obtain b1 where b1: "deliverLocked (d_msg d) (drop_lease i d b) = Some b1"
      and mv1: "moves b {#} {#} b1" and inf1: "inflight b1 = (inflight b)(i := None)"
      by (rule redeliver_moves [OF Cons.prems(2) d(1)])
    obtain ch b' where r: "requeueExpiredLocked now ord True b1 = Some (ch, b')"
      and mv: "moves b1 {#} {#} b'"
      and inf: "inflight b' = (\<lambda>i. case inflight b1 i of None \<Rightarrow> None
           | Some d \<Rightarrow> if i \<in> set ord \<and> d_expires d < now then None else Some d)"
      and ch: "ch = (True \<or> (\<exists>i\<in>set ord. \<exists>d. inflight b1 i = Some d \<and> d_expires d < now))"
      using Cons.IH [OF _ moves_inv [OF mv1], where changed = True] by blast
    show ?thesis
    proof (rule Cons.prems(1) [of ch b'])
      show "requeueExpiredLocked now (i # ord) changed b = Some (ch, b')"
        using d b1 r by simp
      show "moves b {#} {#} b'" using moves_trans [OF mv1 mv] by simp
      show "inflight b' = (\<lambda>j. case inflight b j of None \<Rightarrow> None
           | Some d \<Rightarrow> if j \<in> set (i # ord) \<and> d_expires d < now then None else Some d)"
        using d inf inf1 by (auto simp: fun_eq_iff split: option.split)
    qed (use ch d in auto)
  qed
qed

subsection \<open>Put\<close>

lemma putLocked_moves:
  assumes inv: "bus_inv b"
  obtains r b' where "putLocked io n m b = Some (r, b')"
    and "moves b (if r = None \<and> \<not> indexedLocked n (m_id m) (dedup b) then {#m#} else {#}) {#} b'"
    and "inflight b' = inflight b"
proof -
  let ?bx = "boxLocked n b" and ?q = "q_of b n @ [m]"
  let ?b1 = "index_add m (set_q n ?q ?bx)"
  have box: "moves b {#} {#} ?bx" by (rule moves_boxLocked [OF inv])
  note inv1 = moves_inv [OF box]
  consider (dup) "indexedLocked n (m_id m) (dedup b)"
    | (wait) w ws where "\<not> indexedLocked n (m_id m) (dedup b)" "waiters_of b n = w # ws"
    | (full) "\<not> indexedLocked n (m_id m) (dedup b)" "waiters_of b n = []"
        "maxQueue b \<le> int (length (q_of b n))"
    | (room) "\<not> indexedLocked n (m_id m) (dedup b)" "waiters_of b n = []"
        "\<not> maxQueue b \<le> int (length (q_of b n))"
    by (metis list.exhaust)
  then show ?thesis
  proof cases
    case dup
    then show ?thesis
      using box by (intro that [of None ?bx]) (simp_all add: putLocked_def Let_def)
  next
    case wait
    let ?b2 = "(set_waiters n ws ?bx)\<lparr>tchan := (tchan b)(w \<mapsto> \<lparr>buf = [m], chClosed = True\<rparr>)\<rparr>"
    have w: "waiters_of ?bx n = w # ws" using wait by simp
    have mv: "moves ?bx {#m#} {#} ?b2" using hand_off_waiter(2) [OF inv1 w, of m] by simp
    show ?thesis
      using moves_trans [OF box mv] hand_off_waiter(1) [OF inv1 w, of m] wait
      by (intro that [of None ?b2]) (simp_all add: putLocked_def Let_def)
  next
    case full
    then show ?thesis
      using box by (intro that [of "Some ErrDropped" ?bx]) (simp_all add: putLocked_def Let_def)
  next
    case room
    have add: "moves ?bx {#m#} {#} ?b1"
      using moves_enqueue [OF inv1, of n ?q m] room by simp
    show ?thesis
    proof (cases "persistLocked io ?b1")
      case (Pair r b2)
      show ?thesis
      proof (cases r)
        case None
        then obtain ds where b2: "b2 = ?b1\<lparr>disk := ds\<rparr>" using persist_None Pair by blast
        have "moves ?bx {#m#} {#} b2" unfolding b2 by (rule moves_disk [OF add])
        from moves_trans [OF box this] show ?thesis
          using Pair None room b2
          by (intro that [of None b2]) (simp_all add: putLocked_def Let_def)
      next
        case (Some e)
        then have b2: "b2 = ?b1" using persist_Some Pair by blast
        let ?b3 = "index_del m (set_q n (q_of b n) ?b1)"
        have "moves ?b1 {#} {#m#} ?b3"
          by (rule moves_unqueue [OF moves_inv [OF add]]) simp
        from moves_trans [OF add this] have "moves ?bx {#} {#} ?b3"
          using moves_cancel [of ?bx m ?b3] by simp
        from moves_trans [OF box this] show ?thesis
          using Pair Some room b2
          by (intro that [of "Some e" ?b3]) (simp_all add: putLocked_def Let_def)
      qed
    qed
  qed
qed

lemma put_moves:
  assumes inv: "bus_inv b"
  obtains r b' where "put now nid io n m b = Some (r, b')"
    and "moves b (if r = None \<and> \<not> indexedLocked n (m_id (stamp now nid n m)) (dedup b)
                  then {#stamp now nid n m#} else {#}) {#} b'"
    and "inflight b' = inflight b"
proof (cases "put now nid io n m b = putLocked io n (stamp now nid n m) b")
  case True
  then show ?thesis using putLocked_moves [OF inv] that by metis
next
  case False
  then obtain e where "put now nid io n m b = Some (Some e, b)"
    by (auto simp: put_def split: if_splits)
  then show ?thesis using moves_refl [OF inv] by (intro that [of "Some e" b]) simp_all
qed

subsection \<open>Take\<close>

lemma pop_front_moves:
  assumes inv: "bus_inv b" and q: "q_of b n = m # rest"
  shows "case pop_front io n m rest b of
           (None, b') \<Rightarrow> moves b {#} {#m#} b' \<and> inflight b' = inflight b \<and> nextT b' = nextT b
         | (Some e, b') \<Rightarrow> moves b {#} {#} b' \<and> inflight b' = inflight b \<and> nextT b' = nextT b"
proof -
  let ?b1 = "index_del m (set_q n rest b)"
  have del: "moves b {#} {#m#} ?b1" by (rule moves_unqueue [OF inv]) (simp add: q)
  show ?thesis
  proof (cases "persistLocked io ?b1")
    case (Pair r b2)
    show ?thesis
    proof (cases r)
      case None
      then obtain ds where b2: "b2 = ?b1\<lparr>disk := ds\<rparr>" using persist_None Pair by blast
      have "moves b {#} {#m#} b2" unfolding b2 by (rule moves_disk [OF del])
      then show ?thesis using Pair None b2 by (simp add: pop_front_def)
    next
      case (Some e)
      then have b2: "b2 = ?b1" using persist_Some Pair by blast
      let ?b3 = "index_add m (set_q n (m # rest) ?b1)"
      have "mset (m # rest) = add_mset m (mset (q_of ?b1 n))" by simp
      note core = enqueue_core [OF moves_inv [OF del] this]
      have "wake_ok b \<longrightarrow> wake_ok ?b3" using q by (auto simp: wake_ok_def)
      then have "moves b {#} {#} ?b3" using core del by (simp add: moves_def)
      then show ?thesis using Pair Some b2 by (simp add: pop_front_def)
    qed
  qed
qed

lemma alloc_full_moves:
  assumes inv: "bus_inv b" and a: "alloc_full m b = (ch, b')"
  shows "moves b {#m#} {#} b'" and "inflight b' = inflight b"
    and "tchan b' ch = Some \<lparr>buf = [m], chClosed = True\<rparr>" and "ch = nextT b" and "nextT b' = Suc ch"
proof -
  let ?b = "b\<lparr>tchan := (tchan b)(nextT b \<mapsto> \<lparr>buf = [m], chClosed = True\<rparr>)\<rparr>"
  have b': "b' = ?b\<lparr>nextT := Suc (nextT b)\<rparr>" and ch: "ch = nextT b"
    using a by (auto simp: alloc_full_def)
  have free: "tchan b (nextT b) = None" using inv by (simp add: bus_inv_def alloc_ok_def)
  have t: "transit b' = add_mset m (transit b)"
    using transit_new [OF bus_inv_fin(3) [OF inv] free, of "\<lparr>buf = [m], chClosed = True\<rparr>"]
    by (simp add: b')
  have h: "held b' = held b" by (simp add: b' held_def)
  have "waiters_ok b'"
  proof -
    have "w \<noteq> nextT b" if "w \<in> set (waiters_of b n)" for w n
      using that inv free by (auto simp: bus_inv_def waiters_ok_def fresh_chan_def)
    then show ?thesis using inv by (simp add: b' bus_inv_def waiters_ok_def)
  qed
  moreover have "alloc_ok b'" using inv by (auto simp: b' bus_inv_def alloc_ok_def)
  ultimately show "moves b {#m#} {#} b'"
    using inv t h by (simp add: moves_def bus_inv_def jobs_def index_ok_def b')
  show "inflight b' = inflight b" "tchan b' ch = Some \<lparr>buf = [m], chClosed = True\<rparr>"
    "ch = nextT b" "nextT b' = Suc ch"
    by (simp_all add: b' ch)
qed

lemma alloc_waiter_moves:
  assumes inv: "bus_inv b" and q: "q_of b n = []" and a: "alloc_waiter n b = (ch, b')"
  shows "moves b {#} {#} b'" and "inflight b' = inflight b"
    and "tchan b' ch = Some fresh_chan" and "waiters_of b' n = waiters_of b n @ [ch]"
    and "ch = nextT b" and "nextT b' = Suc ch"
proof -
  have b': "b' = (set_waiters n (waiters_of b n @ [nextT b]) b)
      \<lparr>tchan := (tchan b)(nextT b \<mapsto> fresh_chan), nextT := Suc (nextT b)\<rparr>" and ch: "ch = nextT b"
    using a by (auto simp: alloc_waiter_def)
  have free: "tchan b (nextT b) = None" using inv by (simp add: bus_inv_def alloc_ok_def)
  have t: "transit b' = transit b"
    using transit_new [OF bus_inv_fin(3) [OF inv] free, of fresh_chan]
    by (simp add: b' fresh_chan_def transit_def)
  have h: "held b' = held b" using bus_inv_fin(1) [OF inv] by (simp add: b' held_def)
  have new: "nextT b \<notin> set (waiters_of b x)" for x
    using inv free by (auto simp: bus_inv_def waiters_ok_def fresh_chan_def)
  have "waiters_ok b'"
    using inv new unfolding bus_inv_def waiters_ok_def b' by (auto split: if_splits)
  moreover have "alloc_ok b'" using inv by (auto simp: b' bus_inv_def alloc_ok_def)
  moreover have "fin_ok b'" using inv by (auto simp: b' bus_inv_def fin_ok_def set_waiters_def)
  moreover have "wake_ok b \<longrightarrow> wake_ok b'" using q by (auto simp: b' wake_ok_def)
  ultimately show "moves b {#} {#} b'"
    using inv t h by (simp add: moves_def bus_inv_def jobs_def index_ok_def b')
  show "inflight b' = inflight b" "tchan b' ch = Some fresh_chan"
    "waiters_of b' n = waiters_of b n @ [ch]" "ch = nextT b" "nextT b' = Suc ch"
    by (simp_all add: b' ch)
qed

lemma takeChan_moves:
  assumes inv: "bus_inv b"
  obtains r b' where "takeChan now ord io n b = Some (r, b')" and "moves b {#} {#} b'"
    and "\<And>ch. r = Inr ch \<Longrightarrow> \<not> closed b \<and> tchan b' ch \<noteq> None"
proof (cases "closed b")
  case True
  then show ?thesis
    using that [of "Inl ErrClosed" b] moves_refl [OF inv] by (simp add: takeChan_def)
next
  case False
  obtain x b1 where r: "requeueExpiredLocked now ord False b = Some (x, b1)"
    and mv1: "moves b {#} {#} b1"
    by (rule requeueExpired_moves [OF inv, of now ord False]) blast
  let ?b2 = "boxLocked n b1"
  have mv2: "moves b {#} {#} ?b2"
    using moves_trans [OF mv1 moves_boxLocked [OF moves_inv [OF mv1]]] by simp
  note inv2 = moves_inv [OF mv2]
  show ?thesis
  proof (cases "q_of ?b2 n")
    case Nil
    obtain ch b3 where a: "alloc_waiter n ?b2 = (ch, b3)" by fastforce
    note al = alloc_waiter_moves [OF inv2 Nil a]
    show ?thesis
    proof (rule that [of "Inr ch" b3])
      show "takeChan now ord io n b = Some (Inr ch, b3)"
        using False r Nil a by (simp add: takeChan_def Let_def)
      show "moves b {#} {#} b3" using moves_trans [OF mv2 al(1)] by simp
    qed (use False al in simp)
  next
    case (Cons m rest)
    note pf = pop_front_moves [OF inv2 Cons, of io]
    show ?thesis
    proof (cases "pop_front io n m rest ?b2")
      case (Pair e b3)
      show ?thesis
      proof (cases e)
        case None
        obtain ch b4 where a: "alloc_full m b3 = (ch, b4)" by fastforce
        from pf Pair None have mv3: "moves ?b2 {#} {#m#} b3" by simp
        note al = alloc_full_moves [OF moves_inv [OF mv3] a]
        have "moves ?b2 {#} {#} b4"
          using moves_cancel [of ?b2 m b4] moves_trans [OF mv3 al(1)] by simp
        from moves_trans [OF mv2 this] show ?thesis
          using False r Cons Pair None a al
          by (intro that [of "Inr ch" b4]) (auto simp: takeChan_def Let_def)
      next
        case (Some err)
        from pf Pair Some have "moves ?b2 {#} {#} b3" by simp
        from moves_trans [OF mv2 this] show ?thesis
          using False r Cons Pair Some
          by (intro that [of "Inl err" b3]) (auto simp: takeChan_def Let_def)
      qed
    qed
  qed
qed

lemma tryTake_moves:
  assumes inv: "bus_inv b"
  obtains r b' where "tryTake now ord io n b = Some (r, b')"
    and "moves b {#} (case r of Inr m \<Rightarrow> {#m#} | Inl e \<Rightarrow> {#}) b'"
    and "\<And>m. r = Inr m \<Longrightarrow> \<not> closed b'"
proof (cases "n = '''' \<or> closed b")
  case True
  then show ?thesis
    using that [of "Inl (if n = '''' then ErrBadName else ErrClosed)" b] moves_refl [OF inv]
    by (auto simp: tryTake_def)
next
  case False
  obtain x b1 where r: "requeueExpiredLocked now ord False b = Some (x, b1)"
    and mv1: "moves b {#} {#} b1"
    by (rule requeueExpired_moves [OF inv, of now ord False]) blast
  show ?thesis
  proof (cases "q_of b1 n")
    case Nil
    then show ?thesis
      using that [of "Inl ErrEmpty" b1] False r mv1 by (simp add: tryTake_def Let_def)
  next
    case (Cons m rest)
    note pf = pop_front_moves [OF moves_inv [OF mv1] Cons, of io]
    show ?thesis
    proof (cases "pop_front io n m rest b1")
      case (Pair e b3)
      show ?thesis
      proof (cases e)
        case None
        with pf Pair have mv3: "moves b1 {#} {#m#} b3" by simp
        from moves_trans [OF mv1 mv3] moves_closed [OF mv1] moves_closed [OF mv3] show ?thesis
          using False r Cons Pair None
          by (intro that [of "Inr m" b3]) (auto simp: tryTake_def Let_def)
      next
        case (Some err)
        with pf Pair have "moves b1 {#} {#} b3" by simp
        from moves_trans [OF mv1 this] show ?thesis
          using False r Cons Pair Some
          by (intro that [of "Inl err" b3]) (auto simp: tryTake_def Let_def)
      qed
    qed
  qed
qed

subsection \<open>The two ends of the select in Take\<close>

lemma takeRecv_got:
  assumes inv: "bus_inv b" and c: "tchan b ch = Some c" and m: "buf c = m # ms"
  obtains b' where "takeRecv ch b = (Some (Inr m), b')" and "moves b {#} {#m#} b'"
    and "inflight b' = inflight b" and "q_of b' = q_of b" and "waiters_of b' = waiters_of b"
    and "tchan b' = (tchan b)(ch \<mapsto> c\<lparr>buf := ms\<rparr>)" and "nextT b' = nextT b"
    and "dedup b' = dedup b" and "disk b' = disk b"
proof -
  let ?b = "b\<lparr>tchan := (tchan b)(ch \<mapsto> c\<lparr>buf := ms\<rparr>)\<rparr>"
  have ne: "c \<noteq> fresh_chan" using m by (auto simp: fresh_chan_def)
  have "waiters_ok ?b"
    using inv c ne by (auto simp: bus_inv_def waiters_ok_def)
  moreover have "alloc_ok ?b" using inv c by (auto simp: bus_inv_def alloc_ok_def)
  moreover have "transit b = add_mset m (transit ?b)"
    by (rule transit_take [OF bus_inv_fin(3) [OF inv] c m])
  moreover have "held ?b = held b" by (simp add: held_def)
  ultimately have "moves b {#} {#m#} ?b"
    using inv by (simp add: moves_def bus_inv_def jobs_def index_ok_def)
  moreover have "takeRecv ch b = (Some (Inr m), ?b)"
    using c m by (simp add: takeRecv_def ch_recv_def)
  ultimately show ?thesis by (intro that [of ?b]) simp_all
qed

lemma takeRecv_else:
  "(\<forall>c. tchan b ch = Some c \<longrightarrow> buf c = []) \<Longrightarrow>
   takeRecv ch b = ((case tchan b ch of
      Some c \<Rightarrow> if chClosed c then Some (Inl ErrClosed) else None | None \<Rightarrow> None), b)"
  by (auto simp: takeRecv_def ch_recv_def split: option.split list.split)

lemma drop_waiter_moves:
  assumes inv: "bus_inv b"
  shows "moves b {#} {#} (set_waiters n (filter (\<lambda>w. w \<noteq> ch) (waiters_of b n)) b)"
proof -
  let ?b = "set_waiters n (filter (\<lambda>w. w \<noteq> ch) (waiters_of b n)) b"
  have sub: "set (waiters_of ?b x) \<subseteq> set (waiters_of b x)" for x by auto
  have "waiters_ok ?b"
    unfolding waiters_ok_def
  proof (intro conjI allI ballI impI)
    have wok: "\<forall>x. distinct (waiters_of b x)"
      "\<forall>x. \<forall>w\<in>set (waiters_of b x). tchan b w = Some fresh_chan"
      "\<And>x y. x \<noteq> y \<Longrightarrow> set (waiters_of b x) \<inter> set (waiters_of b y) = {}"
      using inv by (auto simp: bus_inv_def waiters_ok_def)
    fix x y
    show "distinct (waiters_of ?b x)" using wok(1) by simp
    show "tchan ?b w = Some fresh_chan" if "w \<in> set (waiters_of ?b x)" for w
      using that wok(2) sub [of x] by auto
    show "set (waiters_of ?b x) \<inter> set (waiters_of ?b y) = {}" if "x \<noteq> y"
      using wok(3) [OF that] sub [of x] sub [of y] by blast
  qed
  moreover have "held ?b = held b" using bus_inv_fin(1) [OF inv] by (simp add: held_def)
  moreover have "wake_ok b \<longrightarrow> wake_ok ?b"
    by (auto simp: wake_ok_def) (metis filter.simps(1))
  ultimately show ?thesis
    using inv by (simp add: moves_def bus_inv_def jobs_def index_ok_def)
qed

lemma cancelWaiter_empty:
  assumes "\<forall>c. tchan b ch = Some c \<longrightarrow> buf c = []"
  shows "cancelWaiter io n ch b = (if boxes b n = None then b
           else set_waiters n (filter (\<lambda>w. w \<noteq> ch) (waiters_of b n)) b)"
  using assms
  by (cases "boxes b n"; cases "tchan b ch")
    (simp_all add: cancelWaiter_def ch_recv_def waiters_of_def box_of_def Let_def)

text \<open>
  \<open>cancelWaiter\<close> keeps the invariant and every job, but not \<open>wake_ok\<close>: a message that
  raced with the cancellation goes back to the queue even when another \<open>Take\<close> is waiting.
\<close>

lemma cancelWaiter_inv:
  assumes inv: "bus_inv b"
  shows "bus_inv (cancelWaiter io n ch b)" and "same_frame b (cancelWaiter io n ch b)"
    and "jobs (cancelWaiter io n ch b) = jobs b"
    and "inflight (cancelWaiter io n ch b) = inflight b"
proof -
  let ?b1 = "set_waiters n (filter (\<lambda>w. w \<noteq> ch) (waiters_of b n)) b"
  have mv1: "moves b {#} {#} ?b1" by (rule drop_waiter_moves [OF inv])
  note inv1 = moves_inv [OF mv1]
  have "bus_inv (cancelWaiter io n ch b) \<and> same_frame b (cancelWaiter io n ch b) \<and>
        jobs (cancelWaiter io n ch b) = jobs b \<and> inflight (cancelWaiter io n ch b) = inflight b"
  proof (cases "boxes b n = None \<or> (\<forall>c. tchan b ch = Some c \<longrightarrow> buf c = [])")
    case True
    then have "cancelWaiter io n ch b = b \<or> cancelWaiter io n ch b = ?b1"
      using cancelWaiter_empty [of b ch io n] by (auto simp: cancelWaiter_def)
    then show ?thesis using mv1 inv by (auto simp: moves_def)
  next
    case False
    then obtain bx c m ms where bx: "boxes b n = Some bx" and c: "tchan ?b1 ch = Some c"
      and m: "buf c = m # ms" by (auto simp: neq_Nil_conv)
    obtain b2 where rv: "takeRecv ch ?b1 = (Some (Inr m), b2)" and mv2: "moves ?b1 {#} {#m#} b2"
      and f: "inflight b2 = inflight ?b1" "q_of b2 = q_of ?b1"
      by (rule takeRecv_got [OF inv1 c m]) blast
    have b2: "b2 = ?b1\<lparr>tchan := (tchan ?b1)(ch \<mapsto> c\<lparr>buf := ms\<rparr>)\<rparr>"
      using rv c m by (simp add: takeRecv_def ch_recv_def)
    let ?b3 = "index_add m (set_q n (m # q_of b2 n) b2)"
    have core: "bus_inv ?b3" "jobs ?b3 = add_mset m (jobs b2)"
      by (rule enqueue_core [OF moves_inv [OF mv2]]; simp)+
    obtain ds where ds: "snd (persistLocked io ?b3) = ?b3\<lparr>disk := ds\<rparr>"
      using persist_shape by blast
    have "cancelWaiter io n ch b = ?b3\<lparr>disk := ds\<rparr>"
      using bx c m ds
      by (simp add: cancelWaiter_def ch_recv_def b2 waiters_of_def box_of_def Let_def)
    moreover have "same_frame b b2"
      using moves_trans [OF mv1 mv2] by (simp add: moves_def)
    moreover have "jobs ?b3 = jobs b" using core(2) mv1 mv2 by (simp add: moves_def)
    ultimately show ?thesis using core(1) f by simp
  qed
  then show "bus_inv (cancelWaiter io n ch b)" "same_frame b (cancelWaiter io n ch b)"
    "jobs (cancelWaiter io n ch b) = jobs b" "inflight (cancelWaiter io n ch b) = inflight b"
    by simp_all
qed

lemma cancelWaiter_wake:
  assumes "bus_inv b" and "wake_ok b" and "\<forall>c. tchan b ch = Some c \<longrightarrow> buf c = []"
  shows "wake_ok (cancelWaiter io n ch b)"
  using drop_waiter_moves [OF assms(1), of n ch] assms(2)
  by (auto simp: cancelWaiter_empty [OF assms(3)] moves_def)

lemma holdOrRequeue_moves:
  assumes inv: "bus_inv b" and live: "\<not> closed b" and n: "m_name m \<noteq> ''''"
    and fresh: "inflight b nid = None"
  obtains r b' where "holdOrRequeue now nid io io2 lease m b = Some (r, b')"
    and "moves b {#m#} {#} b'"
proof (cases "hold now nid io m lease b")
  case (Pair r b1)
  note h = hold_moves [OF inv fresh, where m = m and now = now and io = io and lease = lease]
  show ?thesis
  proof (cases r)
    case (Inr d)
    then show ?thesis
      using that [of "Inr d" b1] Pair h by (simp add: holdOrRequeue_def)
  next
    case (Inl e)
    then have mv: "moves b {#} {#} b1" using Pair h by simp
    obtain r2 b2 where "requeue io2 m b1 = Some (r2, b2)" and "moves b1 {#m#} {#} b2"
      using requeue_moves [OF moves_inv [OF mv] _ n, of io2] moves_closed [OF mv] live by metis
    then show ?thesis
      using that [of "Inl e" b2] moves_trans [OF mv] Pair Inl
      by (force simp: holdOrRequeue_def)
  qed
qed

end
