(* ===== verification/PubSub.thy ===== *)
theory PubSub
  imports Bus_Ops
begin

text \<open>
  The lossy half of the bus: \<open>Pub\<close>, \<open>Sub\<close>, \<open>unsub\<close>, the last-value cache and topic
  matching (\<open>mailbox.go\<close>), and \<open>Close\<close>, which ends both halves.  \<open>victim\<close> is the key
  at which Go's range over the full cache happens to start; \<open>ord\<close> is the order of a range.
\<close>

subsection \<open>Operations\<close>

definition matchPrefix :: "string \<Rightarrow> string \<Rightarrow> bool" where
  "matchPrefix topic pre =
     (if length topic < length pre then False else take (length pre) topic = pre)"

definition matchTopic :: "string \<Rightarrow> string \<Rightarrow> bool" where
  "matchTopic topic pre = (if pre = '''' then True else matchPrefix topic pre)"

fun pubLoop :: "string \<Rightarrow> msg \<Rightarrow> subr list \<Rightarrow> msg chans \<Rightarrow> msg chans option" where
  "pubLoop topic m [] st = Some st"
| "pubLoop topic m (s # ss) st =
     (if matchTopic topic (sprefix s)
      then do { st1 \<leftarrow> ch_try_send SubBuffer (sch s) m st; pubLoop topic m ss st1 }
      else pubLoop topic m ss st)"

definition evict :: "string \<Rightarrow> string \<Rightarrow> (string \<rightharpoonup> msg) \<Rightarrow> (string \<rightharpoonup> msg)" where
  "evict victim topic lv =
     (if lv topic = None \<and> MaxCachedTopics \<le> card (dom lv) then lv(victim := None) else lv)"

text \<open>\<open>pubStamp\<close> is the part of \<open>Pub\<close> before the lock.\<close>

definition pubStamp :: "gotime \<Rightarrow> string \<Rightarrow> msg \<Rightarrow> msg" where
  "pubStamp now topic m =
     (let m1 = m\<lparr>m_name := topic\<rparr> in if m_at m1 = 0 then m1\<lparr>m_at := now\<rparr> else m1)"

definition pub ::
  "gotime \<Rightarrow> string \<Rightarrow> string \<Rightarrow> msg \<Rightarrow> bus \<Rightarrow> (gerr option \<times> bus) option" where
  "pub now victim topic m b =
     (if topic = '''' then Some (Some ErrBadName, b)
      else if maxBody b < int (length (m_body m)) then Some (Some ErrTooLarge, b)
      else if closed b then Some (Some ErrClosed, b)
      else do {
        st \<leftarrow> pubLoop topic (pubStamp now topic m) (subs b) (schan b);
        Some (None, b\<lparr>lastv := (evict victim topic (lastv b))(topic \<mapsto> pubStamp now topic m),
                       schan := st\<rparr>) })"

fun replay :: "string \<Rightarrow> (string \<rightharpoonup> msg) \<Rightarrow> string list \<Rightarrow> nat \<Rightarrow> msg chans \<Rightarrow> msg chans option" where
  "replay pre lv [] ch st = Some st"
| "replay pre lv (t # ts) ch st = (case lv t of
     None \<Rightarrow> replay pre lv ts ch st
   | Some m \<Rightarrow>
       if matchTopic t pre
       then do { st1 \<leftarrow> ch_try_send SubBuffer ch m st; replay pre lv ts ch st1 }
       else replay pre lv ts ch st)"

definition sub :: "string list \<Rightarrow> string \<Rightarrow> bus \<Rightarrow> ((gerr option \<times> nat) \<times> bus) option" where
  "sub ord pre b =
     (let ch = nextS b; b1 = b\<lparr>nextS := Suc ch\<rparr> in
      if closed b
      then Some ((Some ErrClosed, ch), b1\<lparr>schan := (schan b)(ch \<mapsto> \<lparr>buf = [], chClosed = True\<rparr>)\<rparr>)
      else do {
        st \<leftarrow> replay pre (lastv b) ord ch ((schan b)(ch \<mapsto> fresh_chan));
        Some ((None, ch), b1\<lparr>subs := subs b @ [\<lparr>sprefix = pre, sch = ch\<rparr>], schan := st\<rparr>) })"

fun unsubLoop :: "nat \<Rightarrow> subr list \<Rightarrow> msg chans \<Rightarrow> (subr list \<times> msg chans) option" where
  "unsubLoop ch [] st = Some ([], st)"
| "unsubLoop ch (s # ss) st =
     (if sch s \<noteq> ch
      then do { r \<leftarrow> unsubLoop ch ss st; Some (s # fst r, snd r) }
      else do { st1 \<leftarrow> ch_close (sch s) st; unsubLoop ch ss st1 })"

definition unsub :: "nat \<Rightarrow> bus \<Rightarrow> bus option" where
  "unsub ch b = do {
     r \<leftarrow> unsubLoop ch (subs b) (schan b);
     Some (b\<lparr>subs := fst r, schan := snd r\<rparr>) }"

subsection \<open>The invariant of the lossy half\<close>

definition subs_ok :: "bus \<Rightarrow> bool" where
  "subs_ok b \<longleftrightarrow>
     distinct (map sch (subs b)) \<and>
     (\<forall>s\<in>set (subs b). \<exists>c. schan b (sch s) = Some c \<and> \<not> chClosed c) \<and>
     (\<forall>w c. schan b w = Some c \<longrightarrow> length (buf c) \<le> SubBuffer) \<and>
     (\<forall>w. nextS b \<le> w \<longrightarrow> schan b w = None) \<and>
     (closed b \<longrightarrow> subs b = []) \<and> (stopped b \<longleftrightarrow> closed b)"

definition cache_ok :: "bus \<Rightarrow> bool" where
  "cache_ok b \<longleftrightarrow> finite (dom (lastv b)) \<and> card (dom (lastv b)) \<le> MaxCachedTopics \<and>
     (\<forall>t m. lastv b t = Some m \<longrightarrow> m_name m = t)"

definition pubsub_inv :: "bus \<Rightarrow> bool" where
  "pubsub_inv b \<longleftrightarrow> subs_ok b \<and> cache_ok b"

lemma same_frame_pubsub: "same_frame b b' \<Longrightarrow> pubsub_inv b' = pubsub_inv b"
  by (simp add: same_frame_def pubsub_inv_def subs_ok_def cache_ok_def)

lemma bus_inv_lossy [simp]:
  "bus_inv (b\<lparr>lastv := lv\<rparr>) = bus_inv b" "bus_inv (b\<lparr>schan := sc\<rparr>) = bus_inv b"
  "bus_inv (b\<lparr>subs := sb\<rparr>) = bus_inv b" "bus_inv (b\<lparr>nextS := ns\<rparr>) = bus_inv b"
  "bus_inv (b\<lparr>stopped := sp\<rparr>) = bus_inv b"
  by (simp_all add: bus_inv_def fin_ok_def waiters_ok_def alloc_ok_def keys_ok_def index_ok_def
      held_def queued_def leased_def)

lemma jobs_lossy [simp]:
  "jobs (b\<lparr>lastv := lv\<rparr>) = jobs b" "jobs (b\<lparr>schan := sc\<rparr>) = jobs b"
  "jobs (b\<lparr>subs := sb\<rparr>) = jobs b" "jobs (b\<lparr>nextS := ns\<rparr>) = jobs b"
  "jobs (b\<lparr>stopped := sp\<rparr>) = jobs b" "jobs (b\<lparr>closed := cl\<rparr>) = jobs b"
  by (simp_all add: jobs_def held_def queued_def leased_def transit_def)

lemma wake_lossy [simp]:
  "wake_ok (b\<lparr>lastv := lv\<rparr>) = wake_ok b" "wake_ok (b\<lparr>schan := sc\<rparr>) = wake_ok b"
  "wake_ok (b\<lparr>subs := sb\<rparr>) = wake_ok b" "wake_ok (b\<lparr>nextS := ns\<rparr>) = wake_ok b"
  "wake_ok (b\<lparr>stopped := sp\<rparr>) = wake_ok b"
  by (intro wake_ok_cong; simp)+

subsection \<open>Topic matching is the prefix order\<close>

lemma matchTopic_iff: "matchTopic topic pre \<longleftrightarrow> (\<exists>rest. topic = pre @ rest)"
proof -
  have "take (length pre) topic = pre \<longleftrightarrow> (\<exists>rest. topic = pre @ rest)"
    by (metis append_eq_conv_conj)
  moreover have "\<exists>rest. topic = pre @ rest \<Longrightarrow> length pre \<le> length topic" by auto
  ultimately show ?thesis by (auto simp: matchTopic_def matchPrefix_def)
qed

subsection \<open>Publishing\<close>

definition offer :: "msg \<Rightarrow> msg chan \<Rightarrow> msg chan" where
  "offer m c = (if length (buf c) < SubBuffer then c\<lparr>buf := buf c @ [m]\<rparr> else c)"

lemma offer_simps [simp]:
  "chClosed (offer m c) = chClosed c"
  "length (buf c) \<le> SubBuffer \<Longrightarrow> length (buf (offer m c)) \<le> SubBuffer"
  by (auto simp: offer_def)

lemma pubLoop_eq:
  assumes "distinct (map sch ss)"
    and "\<forall>s\<in>set ss. \<exists>c. st (sch s) = Some c \<and> \<not> chClosed c"
  shows "pubLoop topic m ss st
         = Some (\<lambda>w. if \<exists>s\<in>set ss. sch s = w \<and> matchTopic topic (sprefix s)
                     then map_option (offer m) (st w) else st w)"
  using assms
proof (induction ss arbitrary: st)
  case Nil
  then show ?case by simp
next
  case (Cons s ss)
  then obtain c where c: "st (sch s) = Some c" "\<not> chClosed c" by auto
  show ?case
  proof (cases "matchTopic topic (sprefix s)")
    case False
    then show ?thesis using Cons by simp
  next
    case True
    let ?st = "st(sch s \<mapsto> offer m c)"
    have send: "ch_try_send SubBuffer (sch s) m st = Some ?st"
      using c by (simp add: ch_try_send_def offer_def fun_upd_idem)
    have nin: "\<forall>s'\<in>set ss. sch s' \<noteq> sch s" using Cons.prems(1) by simp (metis imageI)
    have "pubLoop topic m ss ?st
          = Some (\<lambda>w. if \<exists>s\<in>set ss. sch s = w \<and> matchTopic topic (sprefix s)
                     then map_option (offer m) (?st w) else ?st w)"
      using Cons.prems nin by (intro Cons.IH) auto
    then show ?thesis using True send c nin by (auto simp: fun_eq_iff)
  qed
qed

lemma evict_ok:
  assumes "finite (dom lv)" and "card (dom lv) \<le> MaxCachedTopics"
    and v: "dom lv \<noteq> {} \<longrightarrow> victim \<in> dom lv"
  shows "finite (dom ((evict victim topic lv)(topic \<mapsto> m)))"
    and "card (dom ((evict victim topic lv)(topic \<mapsto> m))) \<le> MaxCachedTopics"
proof -
  show "finite (dom ((evict victim topic lv)(topic \<mapsto> m)))"
    using assms(1) by (auto simp: evict_def)
  show "card (dom ((evict victim topic lv)(topic \<mapsto> m))) \<le> MaxCachedTopics"
  proof (cases "lv topic = None")
    case False
    then have "dom ((evict victim topic lv)(topic \<mapsto> m)) = dom lv" by (auto simp: evict_def)
    then show ?thesis using assms(2) by simp
  next
    case None: True
    then have nin: "topic \<notin> dom lv" by auto
    show ?thesis
    proof (cases "MaxCachedTopics \<le> card (dom lv)")
      case False
      then show ?thesis using None nin assms(1) by (simp add: evict_def)
    next
      case True
      have pos: "0 < MaxCachedTopics" by (simp add: MaxCachedTopics_def)
      then have "dom lv \<noteq> {}" using True by auto
      then have "card (dom lv - {victim}) = card (dom lv) - 1" using v by (simp add: assms(1))
      then show ?thesis
        using True None nin assms(1,2) pos by (simp add: evict_def card_insert_if)
    qed
  qed
qed

definition fanout :: "string \<Rightarrow> msg \<Rightarrow> subr list \<Rightarrow> msg chans \<Rightarrow> msg chans" where
  "fanout topic m ss st =
     (\<lambda>w. if \<exists>s\<in>set ss. sch s = w \<and> matchTopic topic (sprefix s)
          then map_option (offer m) (st w) else st w)"

lemma fanout_cases: "fanout topic m ss st w = st w \<or> fanout topic m ss st w = map_option (offer m) (st w)"
  by (simp add: fanout_def)

lemma pub_result:
  assumes sok: "subs_ok b" and live: "\<not> closed b" and t: "topic \<noteq> []"
    and len: "int (length (m_body m)) \<le> maxBody b"
  shows "pub now victim topic m b = Some (None, b
     \<lparr>lastv := (evict victim topic (lastv b))(topic \<mapsto> pubStamp now topic m),
      schan := fanout topic (pubStamp now topic m) (subs b) (schan b)\<rparr>)"
proof -
  have "pubLoop topic (pubStamp now topic m) (subs b) (schan b)
        = Some (fanout topic (pubStamp now topic m) (subs b) (schan b))"
    unfolding fanout_def using sok by (intro pubLoop_eq) (auto simp: subs_ok_def)
  then show ?thesis using live t len by (simp add: pub_def)
qed

lemma subs_ok_fanout:
  assumes "subs_ok b"
  shows "subs_ok (b\<lparr>lastv := lv, schan := fanout topic m (subs b) (schan b)\<rparr>)"
proof -
  let ?f = "fanout topic m (subs b) (schan b)"
  have "\<exists>c. ?f (sch s) = Some c \<and> \<not> chClosed c" if "s \<in> set (subs b)" for s
    using assms that fanout_cases [of topic m "subs b" "schan b" "sch s"]
    by (force simp: subs_ok_def)
  moreover have "length (buf c) \<le> SubBuffer" if "?f w = Some c" for w c
    using assms that fanout_cases [of topic m "subs b" "schan b" w]
    by (cases "schan b w") (auto simp: subs_ok_def)
  moreover have "?f w = None" if "nextS b \<le> w" for w
    using assms that fanout_cases [of topic m "subs b" "schan b" w]
    by (auto simp: subs_ok_def)
  ultimately show ?thesis using assms by (simp add: subs_ok_def)
qed

lemma pubStamp_name [simp]: "m_name (pubStamp now topic m) = topic"
  by (simp add: pubStamp_def Let_def)

lemma pub_ok:
  assumes inv: "bus_inv b" and ps: "pubsub_inv b"
    and v: "dom (lastv b) \<noteq> {} \<longrightarrow> victim \<in> dom (lastv b)"
  obtains r b' where "pub now victim topic m b = Some (r, b')" and "bus_inv b'"
    and "pubsub_inv b'" and "jobs b' = jobs b" and "closed b' = closed b" and "wake_ok b' = wake_ok b"
proof (cases "topic = [] \<or> maxBody b < int (length (m_body m)) \<or> closed b")
  case True
  then have "\<exists>e. pub now victim topic m b = Some (Some e, b)"
    by (auto simp: pub_def)
  then show ?thesis using inv ps that by blast
next
  case False
  let ?m = "pubStamp now topic m"
  let ?b = "b\<lparr>lastv := (evict victim topic (lastv b))(topic \<mapsto> ?m),
      schan := fanout topic ?m (subs b) (schan b)\<rparr>"
  have sok: "subs_ok b" and cok: "cache_ok b" using ps by (simp_all add: pubsub_inv_def)
  have r: "pub now victim topic m b = Some (None, ?b)" using sok False by (intro pub_result) auto
  have "cache_ok ?b"
    using cok evict_ok [of "lastv b" victim topic ?m] v
    by (auto simp: cache_ok_def evict_def split: if_splits)
  then have "pubsub_inv ?b" using subs_ok_fanout [OF sok] by (simp add: pubsub_inv_def)
  moreover have "bus_inv ?b" "jobs ?b = jobs b" "closed ?b = closed b" "wake_ok ?b = wake_ok b"
    using inv by simp_all
  ultimately show ?thesis using r by (intro that [of None ?b]) auto
qed

subsection \<open>Subscribing and replay\<close>

definition replay_list :: "string \<Rightarrow> (string \<rightharpoonup> msg) \<Rightarrow> string list \<Rightarrow> msg list" where
  "replay_list pre lv ord = map (\<lambda>t. the (lv t)) (filter (\<lambda>t. lv t \<noteq> None \<and> matchTopic t pre) ord)"

lemma replay_eq:
  assumes "st ch = Some \<lparr>buf = xs, chClosed = False\<rparr>" and "length xs \<le> SubBuffer"
  shows "replay pre lv ord ch st
         = Some (st(ch \<mapsto> \<lparr>buf = take SubBuffer (xs @ replay_list pre lv ord), chClosed = False\<rparr>))"
  using assms
proof (induction ord arbitrary: st xs)
  case Nil
  then show ?case by (simp add: replay_list_def fun_upd_idem)
next
  case (Cons t ts)
  show ?case
  proof (cases "lv t \<noteq> None \<and> matchTopic t pre")
    case False
    then show ?thesis
      using Cons.IH [of st xs] Cons.prems by (auto simp: replay_list_def split: option.split)
  next
    case True
    then obtain m where m: "lv t = Some m" by auto
    show ?thesis
    proof (cases "length xs < SubBuffer")
      case room: True
      let ?st = "st(ch \<mapsto> \<lparr>buf = xs @ [m], chClosed = False\<rparr>)"
      have send: "ch_try_send SubBuffer ch m st = Some ?st"
        using Cons.prems room by (simp add: ch_try_send_def)
      have "replay pre lv ts ch ?st = Some (?st(ch \<mapsto>
              \<lparr>buf = take SubBuffer ((xs @ [m]) @ replay_list pre lv ts), chClosed = False\<rparr>))"
        using room by (intro Cons.IH) auto
      then show ?thesis using True m send by (simp add: replay_list_def fun_eq_iff)
    next
      case full: False
      have send: "ch_try_send SubBuffer ch m st = Some st"
        using Cons.prems full by (simp add: ch_try_send_def)
      have "length xs = SubBuffer" using full Cons.prems(2) by simp
      then show ?thesis
        using Cons.IH [of st xs] Cons.prems True m send by (simp add: replay_list_def)
    qed
  qed
qed

lemma sub_result:
  assumes live: "\<not> closed b"
  shows "sub ord pre b = Some ((None, nextS b), b
     \<lparr>nextS := Suc (nextS b), subs := subs b @ [\<lparr>sprefix = pre, sch = nextS b\<rparr>],
      schan := (schan b)(nextS b \<mapsto>
        \<lparr>buf = take SubBuffer (replay_list pre (lastv b) ord), chClosed = False\<rparr>)\<rparr>)"
  using live replay_eq [of "(schan b)(nextS b \<mapsto> fresh_chan)" "nextS b" "[]" pre "lastv b" ord]
  by (simp add: sub_def fresh_chan_def Let_def)

lemma sub_ok:
  assumes inv: "bus_inv b" and ps: "pubsub_inv b"
  obtains e ch b' where "sub ord pre b = Some ((e, ch), b')" and "bus_inv b'"
    and "pubsub_inv b'" and "jobs b' = jobs b" and "closed b' = closed b" and "wake_ok b' = wake_ok b"
proof -
  have sok: "subs_ok b" and cok: "cache_ok b" using ps by (simp_all add: pubsub_inv_def)
  show ?thesis
  proof (cases "closed b")
    case True
    let ?b = "b\<lparr>nextS := Suc (nextS b),
        schan := (schan b)(nextS b \<mapsto> \<lparr>buf = [], chClosed = True\<rparr>)\<rparr>"
    have "subs_ok ?b" using sok True by (auto simp: subs_ok_def)
    moreover have "cache_ok ?b" using cok by (simp add: cache_ok_def)
    ultimately show ?thesis
      using True inv by (intro that [of "Some ErrClosed" "nextS b" ?b])
        (auto simp: sub_def pubsub_inv_def Let_def)
  next
    case False
    let ?b = "b\<lparr>nextS := Suc (nextS b), subs := subs b @ [\<lparr>sprefix = pre, sch = nextS b\<rparr>],
      schan := (schan b)(nextS b \<mapsto>
        \<lparr>buf = take SubBuffer (replay_list pre (lastv b) ord), chClosed = False\<rparr>)\<rparr>"
    have "sch s \<noteq> nextS b" if "s \<in> set (subs b)" for s
      using sok that by (auto simp: subs_ok_def)
    then have "subs_ok ?b" using sok False by (auto simp: subs_ok_def)
    moreover have "cache_ok ?b" using cok by (simp add: cache_ok_def)
    ultimately show ?thesis
      using sub_result [OF False, of ord pre] inv
      by (intro that [of None "nextS b" ?b]) (auto simp: pubsub_inv_def)
  qed
qed

subsection \<open>Unsubscribing\<close>

lemma unsubLoop_eq:
  assumes "distinct (map sch ss)"
    and "\<forall>s\<in>set ss. \<exists>c. st (sch s) = Some c \<and> \<not> chClosed c"
  shows "unsubLoop ch ss st = Some (filter (\<lambda>s. sch s \<noteq> ch) ss,
     if ch \<in> sch ` set ss then st(ch := map_option (\<lambda>c. c\<lparr>chClosed := True\<rparr>) (st ch)) else st)"
  using assms
proof (induction ss arbitrary: st)
  case Nil
  then show ?case by simp
next
  case (Cons s ss)
  show ?case
  proof (cases "sch s = ch")
    case False
    then show ?thesis using Cons by auto
  next
    case True
    obtain c where c: "st ch = Some c" "\<not> chClosed c" using Cons.prems(2) True by auto
    let ?st = "st(ch \<mapsto> c\<lparr>chClosed := True\<rparr>)"
    have nin: "ch \<notin> sch ` set ss" using Cons.prems(1) True by auto
    have "unsubLoop ch ss ?st = Some (filter (\<lambda>s. sch s \<noteq> ch) ss,
        if ch \<in> sch ` set ss then ?st(ch := map_option (\<lambda>c. c\<lparr>chClosed := True\<rparr>) (?st ch)) else ?st)"
      using Cons.prems nin by (intro Cons.IH) (auto simp: image_iff)
    then show ?thesis using True c nin by (simp add: ch_close_def fun_eq_iff)
  qed
qed

lemma unsub_result:
  assumes "subs_ok b"
  shows "unsub ch b = Some (b\<lparr>subs := filter (\<lambda>s. sch s \<noteq> ch) (subs b),
     schan := if ch \<in> sch ` set (subs b)
              then (schan b)(ch := map_option (\<lambda>c. c\<lparr>chClosed := True\<rparr>) (schan b ch))
              else schan b\<rparr>)"
  using unsubLoop_eq [of "subs b" "schan b" ch] assms by (simp add: unsub_def subs_ok_def)

lemma unsub_ok:
  assumes inv: "bus_inv b" and ps: "pubsub_inv b"
  obtains b' where "unsub ch b = Some b'" and "bus_inv b'" and "pubsub_inv b'"
    and "jobs b' = jobs b" and "closed b' = closed b" and "wake_ok b' = wake_ok b"
proof -
  let ?b = "b\<lparr>subs := filter (\<lambda>s. sch s \<noteq> ch) (subs b),
     schan := if ch \<in> sch ` set (subs b)
              then (schan b)(ch := map_option (\<lambda>c. c\<lparr>chClosed := True\<rparr>) (schan b ch))
              else schan b\<rparr>"
  have sok: "subs_ok b" and cok: "cache_ok b" using ps by (simp_all add: pubsub_inv_def)
  have "distinct (map sch (filter (\<lambda>s. sch s \<noteq> ch) (subs b)))"
    using sok by (simp add: subs_ok_def distinct_map_filter)
  moreover have "length (buf c) \<le> SubBuffer" if "schan ?b w = Some c" for w c
    using that sok by (auto simp: subs_ok_def split: if_splits)
  moreover have "schan ?b w = None" if "nextS b \<le> w" for w
    using that sok by (auto simp: subs_ok_def)
  ultimately have "subs_ok ?b" using sok by (simp add: subs_ok_def)
  moreover have "cache_ok ?b" using cok by (simp add: cache_ok_def)
  ultimately show ?thesis
    using unsub_result [OF sok, of ch] inv by (intro that [of ?b]) (auto simp: pubsub_inv_def)
qed

subsection \<open>Close\<close>

definition closed_tchan :: "string list \<Rightarrow> bus \<Rightarrow> msg chans" where
  "closed_tchan ord b =
     (\<lambda>w. if \<exists>n\<in>set ord. w \<in> set (waiters_of b n) then Some \<lparr>buf = [], chClosed = True\<rparr>
          else tchan b w)"

definition emptied_boxes :: "string list \<Rightarrow> bus \<Rightarrow> string \<rightharpoonup> box" where
  "emptied_boxes ord b =
     (\<lambda>n. if n \<in> set ord then map_option (\<lambda>_. \<lparr>bq = [], bwaiters = []\<rparr>) (boxes b n) else boxes b n)"

lemma closeBoxes_eq:
  "waiters_ok b \<Longrightarrow>
   closeBoxes ord b = Some (b\<lparr>tchan := closed_tchan ord b, boxes := emptied_boxes ord b\<rparr>)"
proof (induction ord arbitrary: b)
  case Nil
  show ?case by (simp add: closed_tchan_def emptied_boxes_def)
next
  case (Cons n ns)
  show ?case
  proof (cases "boxes b n")
    case None
    then have "waiters_of b n = []" by (simp add: waiters_of_def box_of_def)
    then show ?thesis
      using Cons.IH [OF Cons.prems] None
      by (auto simp: closed_tchan_def emptied_boxes_def fun_eq_iff)
  next
    case (Some bx)
    have ws: "bwaiters bx = waiters_of b n" using Some by (simp add: waiters_of_def box_of_def)
    have "distinct (bwaiters bx)" "\<forall>w\<in>set (bwaiters bx). tchan b w = Some fresh_chan"
      using Cons.prems unfolding waiters_ok_def ws by blast+
    note cc = ch_close_all_fresh [OF this]
    let ?st = "\<lambda>w. if w \<in> set (bwaiters bx) then Some \<lparr>buf = [], chClosed = True\<rparr> else tchan b w"
    let ?b = "b\<lparr>tchan := ?st, boxes := (boxes b)(n \<mapsto> \<lparr>bq = [], bwaiters = []\<rparr>)\<rparr>"
    have wof: "waiters_of ?b x = (if x = n then [] else waiters_of b x)" for x
      by (simp add: waiters_of_def box_of_def)
    have disj: "w \<notin> set (bwaiters bx)" if "w \<in> set (waiters_of b x)" "x \<noteq> n" for w x
      using waiters_ok_disj [OF Cons.prems that] ws by simp
    have "waiters_ok ?b"
      using Cons.prems disj unfolding waiters_ok_def wof by auto
    from Cons.IH [OF this] have "closeBoxes (n # ns) b
        = Some (?b\<lparr>tchan := closed_tchan ns ?b, boxes := emptied_boxes ns ?b\<rparr>)"
      using Some cc by simp
    moreover have "closed_tchan ns ?b = closed_tchan (n # ns) b"
      using ws wof by (auto simp: closed_tchan_def fun_eq_iff)
    moreover have "emptied_boxes ns ?b = emptied_boxes (n # ns) b"
      using Some by (auto simp: emptied_boxes_def fun_eq_iff)
    ultimately show ?thesis by simp
  qed
qed

lemma closeBus_result:
  assumes inv: "bus_inv b" and ps: "pubsub_inv b" and live: "\<not> closed b"
  shows "closeBus ord b = Some (b\<lparr>closed := True, tchan := closed_tchan ord b,
     boxes := emptied_boxes ord b,
     schan := (\<lambda>w. if w \<in> sch ` set (subs b) then map_option (\<lambda>c. c\<lparr>chClosed := True\<rparr>) (schan b w)
                   else schan b w),
     subs := [], stopped := True\<rparr>)"
proof -
  have wok: "waiters_ok (b\<lparr>closed := True\<rparr>)"
    using inv by (simp add: bus_inv_def waiters_ok_def)
  have sok: "subs_ok b" using ps by (simp add: pubsub_inv_def)
  have t: "closed_tchan ord (b\<lparr>closed := True\<rparr>) = closed_tchan ord b"
    "emptied_boxes ord (b\<lparr>closed := True\<rparr>) = emptied_boxes ord b"
    by (simp_all add: closed_tchan_def emptied_boxes_def fun_eq_iff)
  have all: "ch_close_all ws st = Some (\<lambda>w. if w \<in> set ws
       then map_option (\<lambda>c. c\<lparr>chClosed := True\<rparr>) (st w) else st w)"
    if "distinct ws" "\<forall>w\<in>set ws. \<exists>c. st w = Some c \<and> \<not> chClosed c" for ws and st :: "msg chans"
    using that
  proof (induction ws arbitrary: st)
    case Nil
    then show ?case by simp
  next
    case (Cons w ws)
    then obtain c where c: "st w = Some c" "\<not> chClosed c" by auto
    let ?st = "st(w \<mapsto> c\<lparr>chClosed := True\<rparr>)"
    have "ch_close_all ws ?st = Some (\<lambda>v. if v \<in> set ws
       then map_option (\<lambda>c. c\<lparr>chClosed := True\<rparr>) (?st v) else ?st v)"
      using Cons.prems by (intro Cons.IH) auto
    then show ?case using c Cons.prems(1) by (auto simp: ch_close_def fun_eq_iff)
  qed
  show ?thesis
    using live closeBoxes_eq [OF wok, of ord] all [of "map sch (subs b)" "schan b"] sok
    by (simp add: closeBus_def subs_ok_def t)
qed

lemma closeBus_ok:
  assumes inv: "bus_inv b" and ps: "pubsub_inv b"
  obtains b' where "closeBus ord b = Some b'" and "bus_inv b'" and "pubsub_inv b'" and "closed b'"
proof (cases "closed b")
  case True
  then show ?thesis using inv ps by (intro that [of b]) (simp_all add: closeBus_def)
next
  case False
  let ?sc = "\<lambda>w. if w \<in> sch ` set (subs b) then map_option (\<lambda>c. c\<lparr>chClosed := True\<rparr>) (schan b w)
                   else schan b w"
  let ?b = "b\<lparr>closed := True, tchan := closed_tchan ord b, boxes := emptied_boxes ord b,
     schan := ?sc, subs := [], stopped := True\<rparr>"
  have wok: "waiters_ok b" using inv by (simp add: bus_inv_def)
  have wof: "waiters_of ?b x = (if x \<in> set ord then [] else waiters_of b x)" for x
    by (cases "boxes b x") (auto simp: waiters_of_def box_of_def emptied_boxes_def)
  note mem = waiters_ok_mem [OF wok] and disj = waiters_ok_disj [OF wok]
  have "tchan ?b w = Some fresh_chan" if "w \<in> set (waiters_of ?b x)" for w x
  proof -
    have w: "w \<in> set (waiters_of b x)" "x \<notin> set ord" using that unfolding wof by (auto split: if_splits)
    then have "\<not> (\<exists>n\<in>set ord. w \<in> set (waiters_of b n))" using disj by metis
    then show ?thesis using mem [OF w(1)] by (simp add: closed_tchan_def)
  qed
  then have "waiters_ok ?b"
    using wok unfolding waiters_ok_def wof by auto
  moreover have "dom (closed_tchan ord b) = dom (tchan b)"
    using mem by (force simp: closed_tchan_def split: if_splits)
  then have "finite (dom (closed_tchan ord b))"
    and "\<And>w. tchan b w = None \<Longrightarrow> closed_tchan ord b w = None"
    using inv by (auto simp: bus_inv_def fin_ok_def domIff)
  moreover have "dom (emptied_boxes ord b) = dom (boxes b)"
    by (auto simp: emptied_boxes_def split: if_splits)
  ultimately have "bus_inv ?b"
    using inv by (simp add: bus_inv_def fin_ok_def alloc_ok_def keys_ok_def)
  moreover have "length (buf c) \<le> SubBuffer" if "?sc w = Some c" for w c
    using that ps by (auto simp: pubsub_inv_def subs_ok_def split: if_splits)
  then have "pubsub_inv ?b"
    using ps by (auto simp: pubsub_inv_def subs_ok_def cache_ok_def)
  ultimately show ?thesis
    using closeBus_result [OF inv ps False, of ord] by (intro that [of ?b]) auto
qed

end
