(* ===== verification/Bus_Chan.thy ===== *)
theory Bus_Chan
  imports PubSub
begin

text \<open>
  Which channels an operation of the bus may fill or register.  \<open>chan_step b b'\<close>: the step
  registers no waiter, puts a message only into the channel of a waiter, leaves at most one
  message in a channel, and forgets no box.  Every operation but the two that create a channel
  and the two that read one is such a step; \<open>chan_alloc\<close> describes \<open>takeChan\<close>.
\<close>

subsection \<open>Which channels an operation may fill\<close>

definition shut :: "bus \<Rightarrow> nat \<Rightarrow> bool" where
  "shut b w \<longleftrightarrow> (\<exists>c. tchan b w = Some c \<and> chClosed c)"

definition chan_step_but :: "nat set \<Rightarrow> bus \<Rightarrow> bus \<Rightarrow> bool" where
  "chan_step_but X b b' \<longleftrightarrow>
     (\<forall>n w. w \<in> set (waiters_of b' n) \<longrightarrow> w \<in> set (waiters_of b n)) \<and>
     (\<forall>w c. tchan b' w = Some c \<and> buf c \<noteq> [] \<longrightarrow>
        (\<exists>n. w \<in> set (waiters_of b n)) \<or> (\<exists>c'. tchan b w = Some c' \<and> buf c' \<noteq> [])) \<and>
     (\<forall>w c. tchan b' w = Some c \<longrightarrow>
        length (buf c) \<le> 1 \<or> (\<exists>c'. tchan b w = Some c' \<and> length (buf c) \<le> length (buf c'))) \<and>
     (\<forall>n. boxes b n \<noteq> None \<longrightarrow> boxes b' n \<noteq> None) \<and>
     (\<forall>n w. w \<in> set (waiters_of b n) \<and> w \<notin> X \<longrightarrow> w \<in> set (waiters_of b' n) \<or> shut b' w) \<and>
     (\<forall>w. shut b w \<longrightarrow> shut b' w) \<and>
     nextT b' = nextT b"

abbreviation chan_step :: "bus \<Rightarrow> bus \<Rightarrow> bool" where
  "chan_step \<equiv> chan_step_but {}"

lemmas chan_step_def = chan_step_but_def [where X = "{}"]

lemma chan_step_refl [simp]: "chan_step_but X b b"
  by (auto simp: chan_step_but_def)

lemma chan_step_trans:
  assumes "chan_step_but X a b" and "chan_step_but X b c"
  shows "chan_step_but X a c"
  unfolding chan_step_but_def
proof (intro conjI allI impI)
  fix w k
  assume "tchan c w = Some k"
  then have "length (buf k) \<le> 1 \<or> (\<exists>k'. tchan b w = Some k' \<and> length (buf k) \<le> length (buf k'))"
    using assms(2) unfolding chan_step_but_def by metis
  then show "length (buf k) \<le> 1 \<or> (\<exists>k'. tchan a w = Some k' \<and> length (buf k) \<le> length (buf k'))"
    using assms(1) unfolding chan_step_but_def by (meson le_trans)
next
  fix n w
  assume "w \<in> set (waiters_of a n) \<and> w \<notin> X"
  then show "w \<in> set (waiters_of c n) \<or> shut c w"
    using assms unfolding chan_step_but_def by metis
qed (use assms in \<open>(unfold chan_step_but_def; metis)+\<close>)

lemma shut_updates [simp]:
  "shut (index_add m b) = shut b" "shut (index_del m b) = shut b"
  "shut (b\<lparr>inflight := f\<rparr>) = shut b" "shut (b\<lparr>disk := ds\<rparr>) = shut b"
  "shut (set_q n q b) = shut b" "shut (boxLocked n b) = shut b" "shut (set_waiters n ws b) = shut b"
  by (simp_all add: shut_def fun_eq_iff)

lemma shut_tchan [simp]:
  "shut (b\<lparr>tchan := t, nextT := k\<rparr>) w = shut (b\<lparr>tchan := t\<rparr>) w"
  "shut (b\<lparr>tchan := (tchan b')(v \<mapsto> c)\<rparr>) w =
     (if w = v then chClosed c else shut (b\<lparr>tchan := tchan b'\<rparr>) w)"
  "shut (b\<lparr>tchan := tchan b\<rparr>) w = shut b w"
  "shut ((set_waiters n ws b)\<lparr>tchan := tchan b\<rparr>) w = shut b w"
  by (simp_all add: shut_def)

lemma chan_step_updates [simp]:
  "chan_step_but X b (index_add m b') = chan_step_but X b b'" "chan_step_but X b (index_del m b') = chan_step_but X b b'"
  "chan_step_but X b (b'\<lparr>inflight := f\<rparr>) = chan_step_but X b b'" "chan_step_but X b (b'\<lparr>disk := ds\<rparr>) = chan_step_but X b b'"
  by (simp_all add: chan_step_but_def)

lemma boxes_set_q: "boxes (set_q n q b) = (boxes b)(n \<mapsto> (box_of b n)\<lparr>bq := q\<rparr>)"
  by (simp add: set_q_def)

lemma boxes_boxLocked: "boxes (boxLocked n b) = (boxes b)(n \<mapsto> box_of b n)"
  by (auto simp: boxLocked_def box_of_def split: option.split)

lemma chan_step_boxes [simp]:
  "chan_step_but X b b' \<Longrightarrow> chan_step_but X b (set_q n q b')"
  "chan_step_but X b b' \<Longrightarrow> chan_step_but X b (boxLocked n b')"
  by (auto simp: chan_step_but_def boxes_set_q boxes_boxLocked)

lemma persist_chan [simp]: "chan_step_but X b (snd (persistLocked io b')) = chan_step_but X b b'"
  by (simp add: persistLocked_def)

lemma persist_chan_eq: "persistLocked io b' = (r, b'') \<Longrightarrow> \<exists>ds. b'' = b'\<lparr>disk := ds\<rparr>"
  using persist_shape [of io b'] by simp

lemma chan_update [simp]: "c\<lparr>buf := xs, chClosed := p\<rparr> = \<lparr>buf = xs, chClosed = p\<rparr>" for c :: "'a chan"
  by (cases c) simp

lemma hand_off_shape:
  assumes "hand_off w m st = Some st'"
  obtains c where "st w = Some c" and "buf c = []" and "st' = st(w \<mapsto> \<lparr>buf = [m], chClosed = True\<rparr>)"
  using assms
  by (cases "st w") (auto simp: hand_off_def ch_send_def ch_close_def split: if_splits)

lemma hand_off_chan:
  assumes h: "hand_off w m (tchan b) = Some st" and w: "waiters_of b n = w # ws"
  shows "chan_step b ((set_waiters n ws b)\<lparr>tchan := st\<rparr>)"
proof -
  obtain c where st: "st = (tchan b)(w \<mapsto> \<lparr>buf = [m], chClosed = True\<rparr>)"
    by (rule hand_off_shape [OF h])
  have m: "w \<in> set (waiters_of b n)" "set ws \<subseteq> set (waiters_of b n)" using w by auto
  have bx: "boxes ((set_waiters n ws b)\<lparr>tchan := st\<rparr>) x \<noteq> None" if "boxes b x \<noteq> None" for x
    using that by (simp add: set_waiters_def)
  have "v = w \<or> v \<in> set ws" if "v \<in> set (waiters_of b n)" for v using that w by auto
  then show ?thesis
    unfolding chan_step_def using m bx by (auto simp: st shut_def split: if_splits)
qed

lemma boxLocked_chan: "chan_step b (boxLocked n b)"
  by simp

lemma deliverLocked_chan:
  assumes "deliverLocked m b = Some b'"
  shows "chan_step b b'"
proof (cases "waiters_of b (m_name m)")
  case Nil
  then show ?thesis using assms by (auto simp: deliverLocked_def Let_def)
next
  case (Cons w ws)
  let ?b = "boxLocked (m_name m) b"
  from Cons assms obtain st where "hand_off w m (tchan ?b) = Some st"
    and b': "b' = (set_waiters (m_name m) ws ?b)\<lparr>tchan := st\<rparr>"
    by (auto simp: deliverLocked_def Let_def bind_eq_Some_conv)
  then have "chan_step ?b b'" using hand_off_chan [of w m ?b st "m_name m" ws] Cons by simp
  then show ?thesis using chan_step_trans [OF boxLocked_chan] by blast
qed

lemma drop_lease_chan [simp]: "chan_step b (drop_lease i d b') = chan_step b b'"
  by (simp add: drop_lease_def)

lemma redeliver_chan: "deliverLocked m (drop_lease i d b) = Some b' \<Longrightarrow> chan_step b b'"
  using deliverLocked_chan chan_step_trans [of _ b "drop_lease i d b" b'] by simp

lemma nack_chan: "nack io i b = Some (r, b') \<Longrightarrow> chan_step b b'"
  by (auto simp: nack_def bind_eq_Some_conv dest!: redeliver_chan persist_chan_eq
      split: option.splits)

lemma ack_chan: "ack io i b = (r, b') \<Longrightarrow> chan_step b b'"
  by (auto simp: ack_def dest!: persist_chan_eq split: option.splits)

lemma requeue_chan: "requeue io m b = Some (r, b') \<Longrightarrow> chan_step b b'"
  by (auto simp: requeue_def bind_eq_Some_conv dest!: deliverLocked_chan persist_chan_eq
      split: if_splits)

lemma hold_chan: "hold now nid io m lease b = (r, b') \<Longrightarrow> chan_step b b'"
  by (auto simp: hold_def Let_def dest!: persist_chan_eq split: if_splits prod.splits option.splits)

lemma requeueExpired_chan:
  "requeueExpiredLocked now ord ch b = Some (r, b') \<Longrightarrow> chan_step b b'"
proof (induction ord arbitrary: b ch)
  case Nil
  then show ?case by simp
next
  case (Cons i js)
  show ?case
  proof (cases "\<exists>d. inflight b i = Some d \<and> d_expires d < now")
    case False
    then have "requeueExpiredLocked now js ch b = Some (r, b')"
      using Cons.prems by (auto split: option.splits)
    then show ?thesis by (rule Cons.IH)
  next
    case True
    then obtain d b1 where "deliverLocked (d_msg d) (drop_lease i d b) = Some b1"
      and "requeueExpiredLocked now js True b1 = Some (r, b')"
      using Cons.prems by (auto simp: bind_eq_Some_conv)
    then show ?thesis using Cons.IH redeliver_chan chan_step_trans by blast
  qed
qed

lemma expire_chan: "expireLeases now ord io b = Some b' \<Longrightarrow> chan_step b b'"
  by (auto simp: expireLeases_def bind_eq_Some_conv dest!: requeueExpired_chan split: if_splits)

lemma put_chan:
  assumes "put now nid io n m b = Some (r, b')"
  shows "chan_step b b'"
proof (cases "put now nid io n m b = putLocked io n (stamp now nid n m) b")
  case False
  then show ?thesis using assms by (auto simp: put_def split: if_splits)
next
  case True
  let ?m = "stamp now nid n m" and ?b = "boxLocked n b"
  have put: "putLocked io n ?m b = Some (r, b')" using True assms by simp
  show ?thesis
  proof (cases "\<not> indexedLocked n (m_id ?m) (dedup b) \<and> waiters_of b n \<noteq> []")
    case False
    then show ?thesis
      using put by (auto simp: putLocked_def Let_def dest!: persist_chan_eq
          split: if_splits prod.splits option.splits list.splits)
  next
    case True
    then obtain w ws where w: "waiters_of ?b n = w # ws" by (auto simp: neq_Nil_conv)
    then obtain st where "hand_off w ?m (tchan ?b) = Some st"
      and "b' = (set_waiters n ws ?b)\<lparr>tchan := st\<rparr>"
      using put True by (auto simp: putLocked_def Let_def bind_eq_Some_conv)
    then have "chan_step ?b b'" using hand_off_chan [of w ?m ?b st n ws] w by simp
    then show ?thesis using chan_step_trans [OF boxLocked_chan] by blast
  qed
qed

lemma pop_front_chan: "pop_front io n m rest b = (r, b') \<Longrightarrow> chan_step b b'"
  by (auto simp: pop_front_def dest!: persist_chan_eq split: prod.splits option.splits)

lemma tryTake_chan:
  assumes t: "tryTake now ord io n b = Some (r, b')"
  shows "chan_step b b'"
proof (cases "n = [] \<or> closed b")
  case True
  then show ?thesis using t by (auto simp: tryTake_def split: if_splits)
next
  case False
  then obtain x b1 where r: "requeueExpiredLocked now ord False b = Some (x, b1)"
    using t by (auto simp: tryTake_def bind_eq_Some_conv)
  note c = requeueExpired_chan [OF r]
  show ?thesis
  proof (cases "q_of b1 n")
    case Nil
    then show ?thesis using t r c False by (simp add: tryTake_def)
  next
    case (Cons m rest)
    obtain e b2 where p: "pop_front io n m rest b1 = (e, b2)" by fastforce
    then have "b' = b2" using t r Cons False by (cases e) (simp_all add: tryTake_def)
    then show ?thesis using chan_step_trans [OF c pop_front_chan [OF p]] by simp
  qed
qed


subsection \<open>takeChan creates one channel\<close>

definition chan_alloc :: "bus \<Rightarrow> string \<Rightarrow> nat \<Rightarrow> bus \<Rightarrow> bool" where
  "chan_alloc b n ch b' \<longleftrightarrow>
     (\<forall>x w. w \<in> set (waiters_of b' x) \<longrightarrow> (w = ch \<and> x = n) \<or> w \<in> set (waiters_of b x)) \<and>
     (\<forall>w c. tchan b' w = Some c \<and> buf c \<noteq> [] \<longrightarrow>
        w = ch \<or> (\<exists>x. w \<in> set (waiters_of b x)) \<or> (\<exists>c'. tchan b w = Some c' \<and> buf c' \<noteq> [])) \<and>
     (\<forall>w c. tchan b' w = Some c \<longrightarrow>
        length (buf c) \<le> 1 \<or> (\<exists>c'. tchan b w = Some c' \<and> length (buf c) \<le> length (buf c'))) \<and>
     (\<forall>x. boxes b x \<noteq> None \<or> x = n \<longrightarrow> boxes b' x \<noteq> None) \<and>
     (\<forall>x w. w \<in> set (waiters_of b x) \<and> w \<noteq> ch \<longrightarrow> w \<in> set (waiters_of b' x) \<or> shut b' w) \<and>
     (\<forall>w. shut b w \<and> w \<noteq> ch \<longrightarrow> shut b' w) \<and>
     (ch \<in> set (waiters_of b' n) \<or> shut b' ch) \<and>
     ch = nextT b \<and> nextT b' = Suc ch"

lemma alloc_full_chan:
  assumes c: "chan_step b b1" and bx: "boxes b1 n \<noteq> None" and a: "alloc_full m b1 = (ch, b')"
  shows "chan_alloc b n ch b'"
proof -
  have b': "b' = b1\<lparr>tchan := (tchan b1)(nextT b1 \<mapsto> \<lparr>buf = [m], chClosed = True\<rparr>),
                nextT := Suc (nextT b1)\<rparr>" and ch: "ch = nextT b1"
    using a by (auto simp: alloc_full_def)
  show ?thesis
    using c bx unfolding chan_step_def chan_alloc_def b' ch by (auto split: if_splits)
qed

lemma alloc_waiter_chan:
  assumes c: "chan_step b b1" and a: "alloc_waiter n b1 = (ch, b')"
  shows "chan_alloc b n ch b'"
proof -
  have b': "b' = (set_waiters n (waiters_of b1 n @ [nextT b1]) b1)
        \<lparr>tchan := (tchan b1)(nextT b1 \<mapsto> fresh_chan), nextT := Suc (nextT b1)\<rparr>" and ch: "ch = nextT b1"
    using a by (auto simp: alloc_waiter_def)
  have bx: "boxes b' x \<noteq> None" if "boxes b1 x \<noteq> None \<or> x = n" for x
    using that by (auto simp: b' set_waiters_def)
  show ?thesis
    using c bx unfolding chan_step_def chan_alloc_def ch
    by (auto simp: b' fresh_chan_def split: if_splits)
qed

lemma takeChan_chan:
  assumes t: "takeChan now ord io n b = Some (r, b')"
  shows "case r of Inl e \<Rightarrow> chan_step b b' | Inr ch \<Rightarrow> chan_alloc b n ch b'"
proof (cases "closed b")
  case True
  then show ?thesis using t by (auto simp: takeChan_def)
next
  case False
  then obtain x b1 where r: "requeueExpiredLocked now ord False b = Some (x, b1)"
    using t by (auto simp: takeChan_def bind_eq_Some_conv)
  let ?b1 = "boxLocked n b1"
  have c: "chan_step b ?b1" using requeueExpired_chan [OF r] by simp
  have bx: "boxes ?b1 n \<noteq> None" by (simp add: boxes_boxLocked)
  show ?thesis
  proof (cases "q_of b1 n")
    case Nil
    obtain ch b2 where a: "alloc_waiter n ?b1 = (ch, b2)" by fastforce
    then have "r = Inr ch \<and> b' = b2" using t r Nil False by (simp add: takeChan_def Let_def)
    then show ?thesis using alloc_waiter_chan [OF c a] by simp
  next
    case (Cons m rest)
    obtain e b2 where p: "pop_front io n m rest ?b1 = (e, b2)" by fastforce
    note c2 = chan_step_trans [OF c pop_front_chan [OF p]]
    show ?thesis
    proof (cases e)
      case None
      obtain ch b3 where a: "alloc_full m b2 = (ch, b3)" by fastforce
      then have "r = Inr ch \<and> b' = b3" using t r Cons p None False by (simp add: takeChan_def Let_def)
      moreover have "boxes b2 n \<noteq> None"
        using bx pop_front_chan [OF p] by (simp add: chan_step_def)
      ultimately show ?thesis using alloc_full_chan [OF c2 _ a] by simp
    next
      case (Some err)
      then have "r = Inl err \<and> b' = b2" using t r Cons p False by (simp add: takeChan_def Let_def)
      then show ?thesis using c2 by simp
    qed
  qed
qed

subsection \<open>The two readers\<close>

lemma takeRecv_chan:
  assumes "takeRecv ch b = (Some (Inr m), b')"
  shows "chan_step b b'" and "\<exists>c. tchan b ch = Some c \<and> buf c = m # tl (buf c) \<and>
           tchan b' ch = Some (c\<lparr>buf := tl (buf c)\<rparr>)"
    and "waiters_of b' = waiters_of b"
  using assms
  by (auto simp: takeRecv_def ch_recv_def chan_step_def shut_def
      split: option.splits list.splits if_splits prod.splits recv.splits)

lemma pop_chan:
  "tchan b ch = Some c \<Longrightarrow> buf c = m # ms \<Longrightarrow>
   chan_step_but X b (b\<lparr>tchan := (tchan b)(ch \<mapsto> c\<lparr>buf := ms\<rparr>)\<rparr>)"
  by (auto simp: chan_step_but_def shut_def split: if_splits)

lemma cancelWaiter_chan:
  assumes bx: "boxes b n \<noteq> None"
  shows "chan_step_but {ch} b (cancelWaiter io n ch b)"
    and "ch \<notin> set (waiters_of (cancelWaiter io n ch b) n)"
    and "\<forall>c. tchan b ch = Some c \<longrightarrow>
           (\<exists>c'. tchan (cancelWaiter io n ch b) ch = Some c' \<and> buf c' = tl (buf c))"
proof -
  let ?b1 = "set_waiters n (filter (\<lambda>w. w \<noteq> ch) (waiters_of b n)) b"
  have c1: "chan_step_but {ch} b ?b1"
    by (auto simp: chan_step_but_def set_waiters_def [of _ _ b, THEN arg_cong [where f = boxes]]
        split: if_splits)
  have "chan_step_but {ch} b (cancelWaiter io n ch b) \<and> ch \<notin> set (waiters_of (cancelWaiter io n ch b) n) \<and>
    (\<forall>c. tchan b ch = Some c \<longrightarrow>
           (\<exists>c'. tchan (cancelWaiter io n ch b) ch = Some c' \<and> buf c' = tl (buf c)))"
  proof (cases "\<forall>c. tchan b ch = Some c \<longrightarrow> buf c = []")
    case True
    then have "cancelWaiter io n ch b = ?b1" using bx by (auto simp: cancelWaiter_empty [OF True])
    then show ?thesis using c1 True by auto
  next
    case False
    then obtain bx0 c m ms where bx0: "boxes b n = Some bx0" and c: "tchan b ch = Some c"
      and m: "buf c = m # ms" using bx by (auto simp: neq_Nil_conv)
    let ?b2 = "?b1\<lparr>tchan := (tchan b)(ch \<mapsto> c\<lparr>buf := ms\<rparr>)\<rparr>"
    let ?b3 = "index_add m (set_q n (m # q_of b n) ?b2)"
    have eq: "cancelWaiter io n ch b = snd (persistLocked io ?b3)"
      using bx0 c m by (simp add: cancelWaiter_def ch_recv_def waiters_of_def box_of_def Let_def)
    obtain ds where ds: "snd (persistLocked io ?b3) = ?b3\<lparr>disk := ds\<rparr>"
      using persist_shape by blast
    have "chan_step_but {ch} b ?b2"
      using chan_step_trans [OF c1 pop_chan [of ?b1 ch c m ms "{ch}"]] c m by simp
    then show ?thesis using c m by (simp add: eq ds)
  qed
  then show "chan_step_but {ch} b (cancelWaiter io n ch b)" "ch \<notin> set (waiters_of (cancelWaiter io n ch b) n)"
    "\<forall>c. tchan b ch = Some c \<longrightarrow>
           (\<exists>c'. tchan (cancelWaiter io n ch b) ch = Some c' \<and> buf c' = tl (buf c))"
    by simp_all
qed

end
