(* ===== verification/Bus_System.thy ===== *)
theory Bus_System
  imports Bus_Chan
begin

text \<open>
  The bus under concurrency.  A state is the bus and, for every goroutine that is inside a
  blocking call, where it is: in the \<open>select\<close> of \<open>Take\<close> on a channel, holding a message it
  has taken, or about to put one back after a failed \<open>Hold\<close>.  A step is one critical section
  of the bus mutex, made by any goroutine, with any values from outside.  \<open>accepted\<close>,
  \<open>finished\<close> and \<open>lost\<close> are history variables: the messages that entered, those
  acknowledged or handed to the caller of \<open>Take\<close>, and those a closing bus discards.
\<close>

datatype pc =
    PWait string nat   \<comment> \<open>in the \<open>select\<close> of \<open>Take(name)\<close> on this channel\<close>
  | PHas msg           \<comment> \<open>\<open>Take\<close> has returned this message\<close>
  | PPutBack msg       \<comment> \<open>\<open>Hold\<close> failed, \<open>Requeue\<close> is next\<close>

record sys =
  sbus :: bus
  pcs :: "nat \<rightharpoonup> pc"
  accepted :: "msg multiset"
  finished :: "msg multiset"
  lost :: "msg multiset"

fun pc_msgs :: "pc \<Rightarrow> msg multiset" where
  "pc_msgs (PWait n ch) = {#}"
| "pc_msgs (PHas m) = {#m#}"
| "pc_msgs (PPutBack m) = {#m#}"

definition in_hand :: "sys \<Rightarrow> msg multiset" where
  "in_hand s = msum pc_msgs (pcs s)"

subsection \<open>Steps that involve no waiting goroutine\<close>

text \<open>\<open>bus_op b ins outs b'\<close>: one call on the bus; \<open>ins\<close> and \<open>outs\<close> are the jobs it
  accepts and finishes.\<close>

inductive bus_op :: "bus \<Rightarrow> msg multiset \<Rightarrow> msg multiset \<Rightarrow> bus \<Rightarrow> bool" where
  op_put: "put now nid io n m b = Some (r, b') \<Longrightarrow>
     bus_op b (if r = None \<and> \<not> indexedLocked n (m_id (stamp now nid n m)) (dedup b)
               then {#stamp now nid n m#} else {#}) {#} b'"
| op_ack: "ack io i b = (r, b') \<Longrightarrow>
     bus_op b {#} (case inflight b i of None \<Rightarrow> {#} | Some d \<Rightarrow> {#d_msg d#}) b'"
| op_nack: "nack io i b = Some (r, b') \<Longrightarrow> bus_op b {#} {#} b'"
| op_expire: "expireLeases now ord io b = Some b' \<Longrightarrow> bus_op b {#} {#} b'"
| op_pub: "pub now victim topic m b = Some (r, b') \<Longrightarrow>
     (dom (lastv b) \<noteq> {} \<longrightarrow> victim \<in> dom (lastv b)) \<Longrightarrow> bus_op b {#} {#} b'"
| op_sub: "sub ord pre b = Some (r, b') \<Longrightarrow> bus_op b {#} {#} b'"
| op_unsub: "unsub ch b = Some b' \<Longrightarrow> bus_op b {#} {#} b'"
| op_recv: "ch_recv ch (schan b) = (Got m, st) \<Longrightarrow> bus_op b {#} {#} (b\<lparr>schan := st\<rparr>)"
  \<comment> \<open>a subscriber reads its channel\<close>

lemma expire_moves:
  assumes inv: "bus_inv b"
  obtains b' where "expireLeases now ord io b = Some b'" and "moves b {#} {#} b'"
proof -
  obtain x b1 where r: "requeueExpiredLocked now ord False b = Some (x, b1)"
    and mv: "moves b {#} {#} b1"
    by (rule requeueExpired_moves [OF inv, of now ord False]) blast
  let ?b = "if closed b then b else if x then snd (persistLocked io b1) else b1"
  show ?thesis
    using r moves_refl [OF inv] mv moves_persist [OF mv, of io]
    by (intro that [of ?b]) (simp_all add: expireLeases_def)
qed

lemma lossy_chan [simp]:
  "chan_step b (b'\<lparr>lastv := lv\<rparr>) = chan_step b b'" "chan_step b (b'\<lparr>schan := sc\<rparr>) = chan_step b b'"
  "chan_step b (b'\<lparr>subs := sb\<rparr>) = chan_step b b'" "chan_step b (b'\<lparr>nextS := k\<rparr>) = chan_step b b'"
  by (simp_all add: chan_step_def shut_def)

lemma pub_chan: "pub now victim topic m b = Some (r, b') \<Longrightarrow> chan_step b b'"
  by (auto simp: pub_def bind_eq_Some_conv split: if_splits)

lemma sub_chan: "sub ord pre b = Some (r, b') \<Longrightarrow> chan_step b b'"
  by (auto simp: sub_def Let_def bind_eq_Some_conv split: if_splits)

lemma unsub_chan: "unsub ch b = Some b' \<Longrightarrow> chan_step b b'"
  by (auto simp: unsub_def bind_eq_Some_conv)

lemma stamp_name [simp]: "m_name (stamp now nid n m) = n"
  by (simp add: stamp_def Let_def)

lemma sub_recv_ok:
  assumes ps: "pubsub_inv b" and r: "ch_recv ch (schan b) = (Got m, st)"
  shows "pubsub_inv (b\<lparr>schan := st\<rparr>)"
proof -
  obtain c xs where c: "schan b ch = Some c" "buf c = m # xs" "st = (schan b)(ch \<mapsto> c\<lparr>buf := xs\<rparr>)"
    using r by (auto simp: ch_recv_def split: option.splits list.splits if_splits)
  have sok: "subs_ok b" using ps by (simp add: pubsub_inv_def)
  then have "length (buf c) \<le> SubBuffer" using c(1) by (auto simp: subs_ok_def)
  then have "length xs \<le> SubBuffer" using c(2) by simp
  then have "subs_ok (b\<lparr>schan := st\<rparr>)" using sok c by (auto simp: subs_ok_def)
  then show ?thesis using ps by (simp add: pubsub_inv_def cache_ok_def)
qed

lemma bus_op_ok:
  assumes "bus_op b ins outs b'" and inv: "bus_inv b" and ps: "pubsub_inv b"
  shows "bus_inv b' \<and> pubsub_inv b' \<and> closed b' = closed b \<and> jobs b' + outs = jobs b + ins \<and>
    chan_step b b' \<and> (wake_ok b \<longrightarrow> wake_ok b') \<and> (\<forall>m\<in>#ins. m_name m \<noteq> [])"
  using assms(1)
proof cases
  case (op_put now nid io n m r)
  obtain r' b'' where p: "put now nid io n m b = Some (r', b'')"
    and mv: "moves b (if r' = None \<and> \<not> indexedLocked n (m_id (stamp now nid n m)) (dedup b)
                  then {#stamp now nid n m#} else {#}) {#} b''"
    by (rule put_moves [OF inv]) blast
  have "n \<noteq> []" if "r = None" using op_put(3) that by (auto simp: put_def)
  then show ?thesis
    using mv p op_put put_chan [OF op_put(3)] same_frame_pubsub [of b b'] ps moves_closed [OF mv]
    by (auto simp: moves_def)
next
  case (op_ack io i r)
  show ?thesis
  proof (cases "inflight b i")
    case None
    then show ?thesis using op_ack inv ps by (simp add: ack_def)
  next
    case (Some d)
    have mv: "moves b {#} {#d_msg d#} b'" using ack_moves(1) [OF inv Some, of io] op_ack(3) by simp
    then show ?thesis
      using op_ack ack_chan [OF op_ack(3)] same_frame_pubsub [of b b'] ps moves_closed [OF mv] Some
      by (auto simp: moves_def)
  qed
next
  case (op_nack io i r)
  show ?thesis
  proof (cases "inflight b i")
    case None
    then show ?thesis using op_nack inv ps by (simp add: nack_def)
  next
    case (Some d)
    have mv: "moves b {#} {#} b'"
      by (rule nack_moves [OF inv Some, of io]) (use op_nack(3) in simp)
    then show ?thesis
      using op_nack nack_chan [OF op_nack(3)] same_frame_pubsub [of b b'] ps moves_closed [OF mv]
      by (auto simp: moves_def)
  qed
next
  case (op_expire now ord io)
  have mv: "moves b {#} {#} b'"
    by (rule expire_moves [OF inv, of now ord io]) (use op_expire(3) in simp)
  then show ?thesis
    using op_expire expire_chan [OF op_expire(3)] same_frame_pubsub [of b b'] ps moves_closed [OF mv]
    by (auto simp: moves_def)
next
  case (op_pub now victim topic m r)
  show ?thesis
    by (rule pub_ok [OF inv ps op_pub(4), of now topic m]) (use op_pub pub_chan in auto)
next
  case (op_sub ord pre r)
  show ?thesis
    by (rule sub_ok [OF inv ps, of ord pre]) (use op_sub sub_chan in auto)
next
  case (op_unsub ch)
  show ?thesis
    by (rule unsub_ok [OF inv ps, of ch]) (use op_unsub unsub_chan in auto)
next
  case (op_recv ch m st)
  then show ?thesis using inv sub_recv_ok [OF ps op_recv(4)] by simp
qed

subsection \<open>All steps\<close>

inductive sys_step :: "sys \<Rightarrow> sys \<Rightarrow> bool" where
  call: "bus_op (sbus s) ins outs b' \<Longrightarrow>
     sys_step s (s\<lparr>sbus := b', accepted := accepted s + ins, finished := finished s + outs\<rparr>)"
| take_wait: "pcs s t = None \<Longrightarrow> takeStart now ord io n (sbus s) = Some (Inr ch, b') \<Longrightarrow>
     sys_step s (s\<lparr>sbus := b', pcs := (pcs s)(t \<mapsto> PWait n ch)\<rparr>)"
| take_fail: "takeStart now ord io n (sbus s) = Some (Inl e, b') \<Longrightarrow> sys_step s (s\<lparr>sbus := b'\<rparr>)"
| try_got: "pcs s t = None \<Longrightarrow> tryTake now ord io n (sbus s) = Some (Inr m, b') \<Longrightarrow>
     sys_step s (s\<lparr>sbus := b', pcs := (pcs s)(t \<mapsto> PHas m)\<rparr>)"
| try_fail: "tryTake now ord io n (sbus s) = Some (Inl e, b') \<Longrightarrow> sys_step s (s\<lparr>sbus := b'\<rparr>)"
| recv: "pcs s t = Some (PWait n ch) \<Longrightarrow> takeRecv ch (sbus s) = (Some (Inr m), b') \<Longrightarrow>
     sys_step s (s\<lparr>sbus := b', pcs := (pcs s)(t \<mapsto> PHas m)\<rparr>)"
| drained: "pcs s t = Some (PWait n ch) \<Longrightarrow> takeRecv ch (sbus s) = (Some (Inl e), b') \<Longrightarrow>
     sys_step s (s\<lparr>sbus := b', pcs := (pcs s)(t := None)\<rparr>)"
| cancel: "pcs s t = Some (PWait n ch) \<Longrightarrow>
     sys_step s (s\<lparr>sbus := cancelWaiter io n ch (sbus s), pcs := (pcs s)(t := None)\<rparr>)"
| consume: "pcs s t = Some (PHas m) \<Longrightarrow>
     sys_step s (s\<lparr>pcs := (pcs s)(t := None), finished := add_mset m (finished s)\<rparr>)"
| hold_ok: "pcs s t = Some (PHas m) \<Longrightarrow> inflight (sbus s) nid = None \<Longrightarrow>
     hold now nid io m lease (sbus s) = (Inr d, b') \<Longrightarrow>
     sys_step s (s\<lparr>sbus := b', pcs := (pcs s)(t := None)\<rparr>)"
| hold_fail: "pcs s t = Some (PHas m) \<Longrightarrow> inflight (sbus s) nid = None \<Longrightarrow>
     hold now nid io m lease (sbus s) = (Inl e, b') \<Longrightarrow>
     sys_step s (s\<lparr>sbus := b', pcs := (pcs s)(t \<mapsto> PPutBack m)\<rparr>)"
| put_back: "pcs s t = Some (PPutBack m) \<Longrightarrow> requeue io m (sbus s) = Some (r, b') \<Longrightarrow>
     sys_step s (s\<lparr>sbus := b', pcs := (pcs s)(t := None),
       lost := lost s + (if closed (sbus s) \<or> m_name m = [] then {#m#} else {#})\<rparr>)"
| close: "set ord = dom (boxes (sbus s)) \<Longrightarrow> closeBus ord (sbus s) = Some b' \<Longrightarrow>
     sys_step s (s\<lparr>sbus := b',
       lost := lost s + (if closed (sbus s) then {#} else queued (sbus s))\<rparr>)"

definition init_bus :: "bus \<Rightarrow> bool" where
  "init_bus b \<longleftrightarrow> bus_inv b \<and> pubsub_inv b \<and> wake_ok b \<and> \<not> closed b \<and>
     tchan b = Map.empty \<and> (\<forall>n. waiters_of b n = []) \<and> (\<forall>m\<in>#jobs b. m_name m \<noteq> [])"

definition init_sys :: "bus \<Rightarrow> sys" where
  "init_sys b = \<lparr>sbus = b, pcs = Map.empty, accepted = jobs b, finished = {#}, lost = {#}\<rparr>"

inductive reachable :: "sys \<Rightarrow> bool" where
  start: "init_bus b \<Longrightarrow> reachable (init_sys b)"
| step: "reachable s \<Longrightarrow> sys_step s s' \<Longrightarrow> reachable s'"

subsection \<open>Channel ownership\<close>

definition is_wait :: "pc option \<Rightarrow> bool" where
  "is_wait p \<longleftrightarrow> (\<exists>n w. p = Some (PWait n w))"

definition owned_but :: "nat set \<Rightarrow> bus \<Rightarrow> (nat \<rightharpoonup> pc) \<Rightarrow> bool" where
  "owned_but X b p \<longleftrightarrow>
     (\<forall>n w. w \<in> set (waiters_of b n) \<longrightarrow> (\<exists>t. p t = Some (PWait n w))) \<and>
     (\<forall>w c. tchan b w = Some c \<and> buf c \<noteq> [] \<longrightarrow> (\<exists>t n. p t = Some (PWait n w))) \<and>
     (\<forall>w c. tchan b w = Some c \<longrightarrow> length (buf c) \<le> 1) \<and>
     (\<forall>t n w. p t = Some (PWait n w) \<longrightarrow> w < nextT b \<and> boxes b n \<noteq> None) \<and>
     (\<forall>t t' n n' w. p t = Some (PWait n w) \<and> p t' = Some (PWait n' w) \<longrightarrow> t = t') \<and>
     (\<forall>t n w. p t = Some (PWait n w) \<and> w \<notin> X \<longrightarrow> w \<in> set (waiters_of b n) \<or> shut b w)"

abbreviation owned :: "bus \<Rightarrow> (nat \<rightharpoonup> pc) \<Rightarrow> bool" where
  "owned \<equiv> owned_but {}"

lemma ownedD:
  assumes "owned_but X b p"
  shows "w \<in> set (waiters_of b n) \<Longrightarrow> \<exists>t. p t = Some (PWait n w)"
    and "tchan b w = Some k \<Longrightarrow> buf k \<noteq> [] \<Longrightarrow> \<exists>t n. p t = Some (PWait n w)"
    and "tchan b w = Some k \<Longrightarrow> length (buf k) \<le> 1"
    and "p t = Some (PWait n w) \<Longrightarrow> w < nextT b"
    and "p t = Some (PWait n w) \<Longrightarrow> boxes b n \<noteq> None"
    and "p t = Some (PWait n w) \<Longrightarrow> p t' = Some (PWait n' w) \<Longrightarrow> t = t'"
    and "p t = Some (PWait n w) \<Longrightarrow> w \<notin> X \<Longrightarrow> w \<in> set (waiters_of b n) \<or> shut b w"
  using assms unfolding owned_but_def by simp_all

lemma chan_stepD:
  assumes "chan_step_but X b b'"
  shows "w \<in> set (waiters_of b' n) \<Longrightarrow> w \<in> set (waiters_of b n)"
    and "tchan b' w = Some k \<Longrightarrow> buf k \<noteq> [] \<Longrightarrow>
      (\<exists>n. w \<in> set (waiters_of b n)) \<or> (\<exists>k'. tchan b w = Some k' \<and> buf k' \<noteq> [])"
    and "tchan b' w = Some k \<Longrightarrow>
      length (buf k) \<le> 1 \<or> (\<exists>k'. tchan b w = Some k' \<and> length (buf k) \<le> length (buf k'))"
    and "boxes b n \<noteq> None \<Longrightarrow> boxes b' n \<noteq> None"
    and "nextT b' = nextT b"
    and "w \<in> set (waiters_of b n) \<or> shut b w \<Longrightarrow> w \<notin> X \<Longrightarrow> w \<in> set (waiters_of b' n) \<or> shut b' w"
  using assms unfolding chan_step_but_def by metis+

lemma chan_allocD:
  assumes "chan_alloc b n ch b'"
  shows "w \<in> set (waiters_of b' x) \<Longrightarrow> (w = ch \<and> x = n) \<or> w \<in> set (waiters_of b x)"
    and "tchan b' w = Some k \<Longrightarrow> buf k \<noteq> [] \<Longrightarrow>
      w = ch \<or> (\<exists>n. w \<in> set (waiters_of b n)) \<or> (\<exists>k'. tchan b w = Some k' \<and> buf k' \<noteq> [])"
    and "tchan b' w = Some k \<Longrightarrow>
      length (buf k) \<le> 1 \<or> (\<exists>k'. tchan b w = Some k' \<and> length (buf k) \<le> length (buf k'))"
    and "boxes b x \<noteq> None \<or> x = n \<Longrightarrow> boxes b' x \<noteq> None"
    and "ch = nextT b" and "nextT b' = Suc ch"
    and "w \<in> set (waiters_of b x) \<or> shut b w \<Longrightarrow> w \<noteq> ch \<Longrightarrow> w \<in> set (waiters_of b' x) \<or> shut b' w"
    and "ch \<in> set (waiters_of b' n) \<or> shut b' ch"
  using assms unfolding chan_alloc_def by metis+

lemma owned_step:
  assumes o: "owned_but X b p" and st: "chan_step_but X b b'"
  shows "owned_but X b' p"
  unfolding owned_but_def
proof (intro conjI allI impI)
  fix w k
  assume k: "tchan b' w = Some k"
  show "length (buf k) \<le> 1"
    using chan_stepD(3) [OF st k] ownedD(3) [OF o, of w] by (meson le_trans)
next
  fix w k
  assume "tchan b' w = Some k \<and> buf k \<noteq> []"
  then show "\<exists>t n. p t = Some (PWait n w)"
    using chan_stepD(2) [OF st, of w k] ownedD(1,2) [OF o] by metis
next
  fix t n w
  assume "p t = Some (PWait n w) \<and> w \<notin> X"
  then show "w \<in> set (waiters_of b' n) \<or> shut b' w"
    using chan_stepD(6) [OF st] ownedD(7) [OF o] by metis
qed (use chan_stepD(1,4,5) [OF st] ownedD(1,4,5,6) [OF o] in \<open>metis+\<close>)

lemma owned_weaken: "owned b p \<Longrightarrow> owned_but X b p"
  unfolding owned_but_def by blast

lemma owned_alloc:
  assumes o: "owned b p" and t: "p t = None" and a: "chan_alloc b n ch b'"
  shows "owned b' (p(t \<mapsto> PWait n ch))"
  unfolding owned_but_def
proof (intro conjI allI impI)
  let ?p = "p(t \<mapsto> PWait n ch)"
  have keep: "?p u = Some (PWait x w)" if "p u = Some (PWait x w)" for u x w using that t by auto
  have new: "?p t = Some (PWait n ch)" by simp
  have fresh: "w < ch" if "p u = Some (PWait x w)" for u x w
    using ownedD(4) [OF o that] chan_allocD(5) [OF a] by simp
  have old: "u \<noteq> t \<Longrightarrow> p u = Some (PWait x w)" "u = t \<Longrightarrow> x = n \<and> w = ch"
    if "?p u = Some (PWait x w)" for u x w using that by auto
  show "\<exists>u. ?p u = Some (PWait x w)" if "w \<in> set (waiters_of b' x)" for x w
    using chan_allocD(1) [OF a that] ownedD(1) [OF o] keep new by metis
  show "\<exists>u x. ?p u = Some (PWait x w)" if "tchan b' w = Some k \<and> buf k \<noteq> []" for w k
    using chan_allocD(2) [OF a, of w k] that ownedD(1,2) [OF o] keep new by metis
  show "length (buf k) \<le> 1" if "tchan b' w = Some k" for w k
    using chan_allocD(3) [OF a that] ownedD(3) [OF o, of w] by (meson le_trans)
  show "w < nextT b'" if "?p u = Some (PWait x w)" for u x w
    using old [OF that] fresh chan_allocD(6) [OF a] by (metis lessI less_SucI)
  show "boxes b' x \<noteq> None" if "?p u = Some (PWait x w)" for u x w
    using old [OF that] chan_allocD(4) [OF a] ownedD(5) [OF o] by metis
  show "u = u'" if "?p u = Some (PWait x w) \<and> ?p u' = Some (PWait x' w)" for u u' x x' w
    using old that fresh ownedD(6) [OF o] by (metis less_irrefl)
  show "w \<in> set (waiters_of b' x) \<or> shut b' w" if "?p u = Some (PWait x w) \<and> w \<notin> {}" for u x w
    using old [of u x w] that fresh ownedD(7) [OF o] chan_allocD(7,8) [OF a]
    by (metis empty_iff less_irrefl)
qed

lemma owned_leave:
  assumes o: "owned_but X b p" and X: "X \<subseteq> {ch}"
    and t: "p t = Some (PWait n ch)" and x: "\<not> is_wait x"
    and w: "\<And>y. ch \<notin> set (waiters_of b y)"
    and e: "\<And>k. tchan b ch = Some k \<Longrightarrow> buf k = []"
  shows "owned b (p(t := x))"
  unfolding owned_but_def
proof (intro conjI allI impI)
  let ?p = "p(t := x)"
  have keep: "?p u = Some (PWait y v)" if "p u = Some (PWait y v)" "v \<noteq> ch" for u y v
    using that t by auto
  have old: "p u = Some (PWait y v)" "u \<noteq> t" if "?p u = Some (PWait y v)" for u y v
    using that x by (auto simp: is_wait_def split: if_splits)
  have ne: "v \<noteq> ch" if "?p u = Some (PWait y v)" for u y v
    using old [OF that] ownedD(6) [OF o t] by metis
  show "\<exists>u. ?p u = Some (PWait y v)" if "v \<in> set (waiters_of b y)" for y v
    using ownedD(1) [OF o that] keep w that by metis
  show "\<exists>u y. ?p u = Some (PWait y v)" if "tchan b v = Some k \<and> buf k \<noteq> []" for v k
    using ownedD(2) [OF o, of v k] that keep e by metis
  show "length (buf k) \<le> 1" if "tchan b v = Some k" for v k
    by (rule ownedD(3) [OF o that])
  show "v < nextT b" "boxes b y \<noteq> None" if "?p u = Some (PWait y v)" for u y v
    by (rule ownedD(4) [OF o old(1) [OF that]], rule ownedD(5) [OF o old(1) [OF that]])
  show "u = u'" if "?p u = Some (PWait y v) \<and> ?p u' = Some (PWait y' v)" for u u' y y' v
    using old(1) that ownedD(6) [OF o] by metis
  show "v \<in> set (waiters_of b y) \<or> shut b v" if "?p u = Some (PWait y v) \<and> v \<notin> {}" for u y v
    using ownedD(7) [OF o old(1), of u y v] ne [of u y v] that X by blast
qed

lemma owned_other:
  assumes o: "owned b p" and t: "\<not> is_wait (p t)" and x: "\<not> is_wait x"
  shows "owned b (p(t := x))"
proof -
  have eq: "(p(t := x)) u = Some (PWait y v) \<longleftrightarrow> p u = Some (PWait y v)" for u y v
    using t x by (auto simp: is_wait_def)
  show ?thesis using o unfolding owned_but_def eq .
qed

subsection \<open>Close\<close>

lemma emptied_waiters:
  "waiters_of (b\<lparr>closed := c, tchan := t, boxes := emptied_boxes ord b, schan := sc, subs := sb,
     stopped := sp\<rparr>) n = (if n \<in> set ord then [] else waiters_of b n)"
  by (cases "boxes b n") (auto simp: waiters_of_def box_of_def emptied_boxes_def)

lemma closed_transit:
  assumes "waiters_ok b"
  shows "dom (closed_tchan ord b) = dom (tchan b)"
    and "msum (\<lambda>c. mset (buf c)) (closed_tchan ord b) = msum (\<lambda>c. mset (buf c)) (tchan b)"
proof -
  show d: "dom (closed_tchan ord b) = dom (tchan b)"
    using waiters_ok_mem [OF assms] by (force simp: closed_tchan_def split: if_splits)
  have "mset (buf (the (closed_tchan ord b w))) = mset (buf (the (tchan b w)))" for w
    using waiters_ok_mem [OF assms] by (auto simp: closed_tchan_def fresh_chan_def)
  then show "msum (\<lambda>c. mset (buf c)) (closed_tchan ord b) = msum (\<lambda>c. mset (buf c)) (tchan b)"
    by (simp add: msum_def d)
qed

lemma close_jobs:
  assumes inv: "bus_inv b" and ps: "pubsub_inv b" and ord: "set ord = dom (boxes b)"
    and c: "closeBus ord b = Some b'" and live: "\<not> closed b"
  shows "jobs b = jobs b' + queued b" and "queued b' = {#}" and "inflight b' = inflight b"
    and "transit b' = transit b" and "closed b'" and "\<And>n. waiters_of b' n = []"
proof -
  let ?sc = "\<lambda>w. if w \<in> sch ` set (subs b) then map_option (\<lambda>c. c\<lparr>chClosed := True\<rparr>) (schan b w)
                   else schan b w"
  have b': "b' = b\<lparr>closed := True, tchan := closed_tchan ord b, boxes := emptied_boxes ord b,
     schan := ?sc, subs := [], stopped := True\<rparr>"
    using closeBus_result [OF inv ps live, of ord] c by simp
  have wok: "waiters_ok b" using inv by (simp add: bus_inv_def)
  show q: "queued b' = {#}"
    using ord by (auto simp: b' queued_def emptied_boxes_def intro!: msum_zero split: if_splits)
  show i: "inflight b' = inflight b" and "closed b'" by (simp_all add: b')
  show t: "transit b' = transit b"
    using closed_transit(2) [OF wok, of ord] by (simp add: b' transit_def)
  have "leased b' = leased b" by (simp add: leased_def i)
  then show "jobs b = jobs b' + queued b" using q t by (simp add: jobs_def held_def)
  show "waiters_of b' n = []" for n
    using ord unfolding b' emptied_waiters by (auto simp: waiters_of_def box_of_def domIff)
qed

lemma close_chan:
  assumes inv: "bus_inv b" and ps: "pubsub_inv b" and c: "closeBus ord b = Some b'"
  shows "chan_step b b'"
proof (cases "closed b")
  case True
  then show ?thesis using c by (simp add: closeBus_def)
next
  case live: False
  let ?sc = "\<lambda>w. if w \<in> sch ` set (subs b) then map_option (\<lambda>c. c\<lparr>chClosed := True\<rparr>) (schan b w)
                   else schan b w"
  have b': "b' = b\<lparr>closed := True, tchan := closed_tchan ord b, boxes := emptied_boxes ord b,
     schan := ?sc, subs := [], stopped := True\<rparr>"
    using closeBus_result [OF inv ps live, of ord] c by simp
  have bx: "emptied_boxes ord b n \<noteq> None" if "boxes b n \<noteq> None" for n
    using that by (auto simp: emptied_boxes_def)
  have t: "closed_tchan ord b w = tchan b w \<or> closed_tchan ord b w = Some \<lparr>buf = [], chClosed = True\<rparr>"
    for w by (simp add: closed_tchan_def)
  have len: "length (buf k) \<le> 1 \<or> (\<exists>k'. tchan b w = Some k' \<and> length (buf k) \<le> length (buf k'))"
    if "closed_tchan ord b w = Some k" for w k
    using t [of w] that by (metis chan.select_convs(1) le_refl list.size(3) option.inject zero_le)
  have ne: "\<exists>k'. tchan b w = Some k' \<and> buf k' \<noteq> []" if "closed_tchan ord b w = Some k" "buf k \<noteq> []" for w k
    using t [of w] that by (metis chan.select_convs(1) option.inject)
  have sh: "shut (b\<lparr>closed := True, tchan := closed_tchan ord b, boxes := emptied_boxes ord b,
     schan := ?sc, subs := [], stopped := True\<rparr>) w \<longleftrightarrow>
       (\<exists>n\<in>set ord. w \<in> set (waiters_of b n)) \<or> shut b w" for w
    by (auto simp: shut_def closed_tchan_def)
  show ?thesis
    unfolding chan_step_def b' emptied_waiters sh
    using bx len ne by auto
qed

subsection \<open>The invariant of the running system\<close>

text \<open>A closed bus lists no waiter.\<close>

definition calm :: "bus \<Rightarrow> bool" where
  "calm b \<longleftrightarrow> (closed b \<longrightarrow> (\<forall>n. waiters_of b n = []))"

lemma calm_step:
  assumes "calm b" and "chan_step_but X b b'" and "closed b' = closed b"
  shows "calm b'"
proof -
  have "waiters_of b' n = []" if "closed b'" for n
    using chan_stepD(1) [OF assms(2), of _ n] assms(1,3) that
    by (metis calm_def list.set_intros(1) neq_Nil_conv not_Cons_self2 set_empty list.set_cases empty_iff empty_set)
  then show ?thesis by (simp add: calm_def)
qed

definition sys_inv :: "sys \<Rightarrow> bool" where
  "sys_inv s \<longleftrightarrow>
     bus_inv (sbus s) \<and> pubsub_inv (sbus s) \<and> finite (dom (pcs s)) \<and>
     accepted s = jobs (sbus s) + in_hand s + finished s + lost s \<and>
     (\<forall>m\<in>#accepted s. m_name m \<noteq> []) \<and>
     (\<not> closed (sbus s) \<longrightarrow> lost s = {#}) \<and>
     calm (sbus s) \<and> owned (sbus s) (pcs s)"

text \<open>How one goroutine's move changes the messages in hand.\<close>

definition pc_of :: "pc option \<Rightarrow> msg multiset" where
  "pc_of p = (case p of None \<Rightarrow> {#} | Some q \<Rightarrow> pc_msgs q)"

lemma pc_of_simps [simp]:
  "pc_of None = {#}" "pc_of (Some (PWait n w)) = {#}" "pc_of (Some (PHas m)) = {#m#}"
  "pc_of (Some (PPutBack m)) = {#m#}"
  by (simp_all add: pc_of_def)

lemma in_hand_upd:
  assumes "finite (dom p)"
  shows "msum pc_msgs (p(t := x)) + pc_of (p t) = msum pc_msgs p + pc_of x"
proof -
  have f: "finite (dom (p(t := None)))" using assms by simp
  have a: "msum pc_msgs q = pc_of (q t) + msum pc_msgs (q(t := None))" if "finite (dom q)" for q
    using that by (cases "q t") (simp_all add: msum_remove msum_none pc_of_def)
  have "finite (dom (p(t := x)))" using assms by (cases x) simp_all
  then show ?thesis using a [OF assms] a [of "p(t := x)"] by simp
qed

lemma finite_dom_upd [simp]: "finite (dom (p(t := x))) = finite (dom p)"
  by (cases x) simp_all

text \<open>
  The common shape of a step of goroutine \<open>t\<close>: the bus makes \<open>b'\<close> and \<open>t\<close> goes to \<open>x\<close>,
  and the messages that left one place are those that appear in the others.
\<close>

lemma sys_inv_move:
  assumes s: "sys_inv s" and inv: "bus_inv b'" and ps: "pubsub_inv b'"
    and cl: "closed (sbus s) \<longrightarrow> closed b'" and lost: "\<not> closed b' \<longrightarrow> l = {#}"
    and quiet: "calm b'"
    and own: "owned b' ((pcs s)(t := x))"
    and bal: "jobs b' + pc_of x + f + l = jobs (sbus s) + pc_of (pcs s t) + i"
    and names: "\<forall>m\<in>#i. m_name m \<noteq> []"
  shows "sys_inv \<lparr>sbus = b', pcs = (pcs s)(t := x), accepted = accepted s + i,
           finished = finished s + f, lost = lost s + l\<rparr>"
proof -
  let ?h = "msum pc_msgs ((pcs s)(t := x))"
  have fin: "finite (dom (pcs s))" and acc: "accepted s = jobs (sbus s) + in_hand s + finished s + lost s"
    using s by (simp_all add: sys_inv_def)
  have "jobs b' + ?h + f + l + pc_of (pcs s t) + pc_of x
        = jobs (sbus s) + in_hand s + i + pc_of (pcs s t) + pc_of x"
    using bal in_hand_upd [OF fin, of t x] unfolding in_hand_def
    by (smt (verit) add.assoc add.commute add.left_commute)
  then have "jobs b' + ?h + f + l = jobs (sbus s) + in_hand s + i" by simp
  then have "accepted s + i = jobs b' + ?h + (finished s + f) + (lost s + l)"
    unfolding acc by (smt (verit) add.assoc add.commute add.left_commute)
  then show ?thesis
    using s inv ps cl lost quiet own names by (auto simp: sys_inv_def in_hand_def)
qed

subsection \<open>Every step keeps it\<close>

lemma sys_invD:
  assumes "sys_inv s"
  shows "bus_inv (sbus s)" and "pubsub_inv (sbus s)" and "owned (sbus s) (pcs s)"
    and "finite (dom (pcs s))" and "m \<in># accepted s \<Longrightarrow> m_name m \<noteq> []"
    and "calm (sbus s)"
  using assms by (simp_all add: sys_inv_def)

lemma in_hand_name:
  assumes s: "sys_inv s" and p: "pcs s t = Some x" and m: "m \<in># pc_msgs x"
  shows "m_name m \<noteq> []"
proof -
  have "m \<in># in_hand s"
    using p m msum_mem [OF sys_invD(4) [OF s], of m pc_msgs] by (auto simp: in_hand_def)
  then have "m \<in># accepted s" using s by (simp add: sys_inv_def)
  then show ?thesis by (rule sys_invD(5) [OF s])
qed

lemma moves_pubsub: "moves b i u b' \<Longrightarrow> pubsub_inv b \<Longrightarrow> pubsub_inv b'"
  using same_frame_pubsub by (auto simp: moves_def)

lemma sys_rec:
  "s\<lparr>sbus := b', pcs := p\<rparr> =
     \<lparr>sbus = b', pcs = p, accepted = accepted s + {#}, finished = finished s + {#}, lost = lost s + {#}\<rparr>"
  "s\<lparr>sbus := b'\<rparr> = \<lparr>sbus = b', pcs = (pcs s)(t := pcs s t), accepted = accepted s + {#},
     finished = finished s + {#}, lost = lost s + {#}\<rparr>"
  "s\<lparr>sbus := b', accepted := accepted s + i, finished := finished s + u\<rparr> =
     \<lparr>sbus = b', pcs = (pcs s)(t := pcs s t), accepted = accepted s + i, finished = finished s + u,
      lost = lost s + {#}\<rparr>"
  "s\<lparr>sbus := b', pcs := p, lost := lost s + l\<rparr> =
     \<lparr>sbus = b', pcs = p, accepted = accepted s + {#}, finished = finished s + {#}, lost = lost s + l\<rparr>"
  "s\<lparr>sbus := b', lost := lost s + l\<rparr> =
     \<lparr>sbus = b', pcs = (pcs s)(t := pcs s t), accepted = accepted s + {#}, finished = finished s + {#},
      lost = lost s + l\<rparr>"
  "s\<lparr>pcs := p, finished := add_mset m (finished s)\<rparr> =
     \<lparr>sbus = sbus s, pcs = p, accepted = accepted s + {#}, finished = finished s + {#m#},
      lost = lost s + {#}\<rparr>"
  by (cases s; simp)+

lemma step_call:
  assumes s: "sys_inv s" and op: "bus_op (sbus s) ins outs b'"
  shows "sys_inv (s\<lparr>sbus := b', accepted := accepted s + ins, finished := finished s + outs\<rparr>)"
proof -
  note ok = bus_op_ok [OF op sys_invD(1,2) [OF s]]
  show ?thesis
    unfolding sys_rec(3) [where t = 0]
    by (rule sys_inv_move [OF s]) (use ok owned_step [OF sys_invD(3) [OF s]] calm_step [OF sys_invD(6) [OF s]] in \<open>auto simp: ac_simps\<close>)
qed

lemma takeStart_cases:
  assumes "takeStart now ord io n b = Some (r, b')"
  shows "takeChan now ord io n b = Some (r, b') \<or> (b' = b \<and> r = Inl ErrBadName)"
  using assms by (auto simp: takeStart_def split: if_splits)

lemma step_take_wait:
  assumes s: "sys_inv s" and t: "pcs s t = None"
    and tk: "takeStart now ord io n (sbus s) = Some (Inr ch, b')"
  shows "sys_inv (s\<lparr>sbus := b', pcs := (pcs s)(t \<mapsto> PWait n ch)\<rparr>)"
proof -
  have tc: "takeChan now ord io n (sbus s) = Some (Inr ch, b')" using takeStart_cases [OF tk] by simp
  have mv: "moves (sbus s) {#} {#} b'"
    by (rule takeChan_moves [OF sys_invD(1) [OF s], of now ord io n]) (use tc in simp)
  have ca: "chan_alloc (sbus s) n ch b'" using takeChan_chan [OF tc] by simp
  have live: "\<not> closed (sbus s)" using tc by (auto simp: takeChan_def)
  show ?thesis
    unfolding sys_rec(1)
    by (rule sys_inv_move [OF s moves_inv [OF mv] moves_pubsub [OF mv sys_invD(2) [OF s]]])
      (use mv moves_closed [OF mv] t owned_alloc [OF sys_invD(3) [OF s] t ca] live in
        \<open>auto simp: moves_def calm_def\<close>)
qed

lemma step_quiet:
  assumes s: "sys_inv s" and mv: "moves (sbus s) {#} {#} b'" and c: "chan_step (sbus s) b'"
  shows "sys_inv (s\<lparr>sbus := b'\<rparr>)"
  unfolding sys_rec(2) [where t = 0]
  by (rule sys_inv_move [OF s moves_inv [OF mv] moves_pubsub [OF mv sys_invD(2) [OF s]]])
    (use mv moves_closed [OF mv] owned_step [OF sys_invD(3) [OF s] c] calm_step [OF sys_invD(6) [OF s] c] in \<open>auto simp: moves_def\<close>)

lemma step_take_fail:
  assumes s: "sys_inv s" and tk: "takeStart now ord io n (sbus s) = Some (Inl e, b')"
  shows "sys_inv (s\<lparr>sbus := b'\<rparr>)"
proof (cases "b' = sbus s")
  case True
  then show ?thesis using s by simp
next
  case False
  then have tc: "takeChan now ord io n (sbus s) = Some (Inl e, b')" using takeStart_cases [OF tk] by simp
  have mv: "moves (sbus s) {#} {#} b'"
    by (rule takeChan_moves [OF sys_invD(1) [OF s], of now ord io n]) (use tc in simp)
  show ?thesis using step_quiet [OF s mv] takeChan_chan [OF tc] by simp
qed

lemma step_try:
  assumes s: "sys_inv s" and tk: "tryTake now ord io n (sbus s) = Some (r, b')"
  shows "r = Inl e \<Longrightarrow> sys_inv (s\<lparr>sbus := b'\<rparr>)"
    and "r = Inr m \<Longrightarrow> pcs s t = None \<Longrightarrow> sys_inv (s\<lparr>sbus := b', pcs := (pcs s)(t \<mapsto> PHas m)\<rparr>)"
proof -
  have mv: "moves (sbus s) {#} (case r of Inr m \<Rightarrow> {#m#} | Inl e \<Rightarrow> {#}) b'"
    by (rule tryTake_moves [OF sys_invD(1) [OF s], of now ord io n]) (use tk in simp)
  note c = tryTake_chan [OF tk]
  show "sys_inv (s\<lparr>sbus := b'\<rparr>)" if "r = Inl e" using step_quiet [OF s _ c] mv that by simp
  assume r: "r = Inr m" and t: "pcs s t = None"
  have own: "owned b' ((pcs s)(t \<mapsto> PHas m))"
    by (rule owned_other [OF owned_step [OF sys_invD(3) [OF s] c]]) (simp_all add: is_wait_def t)
  show "sys_inv (s\<lparr>sbus := b', pcs := (pcs s)(t \<mapsto> PHas m)\<rparr>)"
    unfolding sys_rec(1)
    by (rule sys_inv_move [OF s moves_inv [OF mv] moves_pubsub [OF mv sys_invD(2) [OF s]]])
      (use mv r moves_closed [OF mv] t own calm_step [OF sys_invD(6) [OF s] c] in \<open>auto simp: moves_def\<close>)
qed

lemma waiter_empty:
  "waiters_ok b \<Longrightarrow> tchan b ch = Some c \<Longrightarrow> buf c \<noteq> [] \<Longrightarrow> ch \<notin> set (waiters_of b y)"
  using waiters_ok_mem [of b ch y] by (auto simp: fresh_chan_def)

lemma step_recv:
  assumes s: "sys_inv s" and t: "pcs s t = Some (PWait n ch)"
    and tk: "takeRecv ch (sbus s) = (Some (Inr m), b')"
  shows "sys_inv (s\<lparr>sbus := b', pcs := (pcs s)(t \<mapsto> PHas m)\<rparr>)"
proof -
  let ?b = "sbus s"
  note c = takeRecv_chan [OF tk]
  obtain k where k: "tchan ?b ch = Some k" "buf k = m # tl (buf k)"
    "tchan b' ch = Some (k\<lparr>buf := tl (buf k)\<rparr>)" using c(2) by blast
  have mv: "moves ?b {#} {#m#} b'"
    by (rule takeRecv_got [OF sys_invD(1) [OF s] k(1,2)]) (use tk in simp)
  have one: "tl (buf k) = []" using ownedD(3) [OF sys_invD(3) [OF s] k(1)] k(2) by (cases "buf k") auto
  have wok: "waiters_ok ?b" using sys_invD(1) [OF s] by (simp add: bus_inv_def)
  have "ch \<notin> set (waiters_of b' y)" for y
    using waiter_empty [OF wok k(1)] k(2) c(3) by fastforce
  moreover have "buf k' = []" if "tchan b' ch = Some k'" for k' using that k(3) one by auto
  ultimately have own: "owned b' ((pcs s)(t \<mapsto> PHas m))"
    by (intro owned_leave [OF owned_step [OF sys_invD(3) [OF s] c(1)] _ t]) (simp_all add: is_wait_def)
  show ?thesis
    unfolding sys_rec(1)
    by (rule sys_inv_move [OF s moves_inv [OF mv] moves_pubsub [OF mv sys_invD(2) [OF s]]])
      (use mv moves_closed [OF mv] t own calm_step [OF sys_invD(6) [OF s] c(1)] in \<open>auto simp: moves_def\<close>)
qed

lemma drained_state:
  assumes "takeRecv ch b = (Some (Inl e), b')"
  obtains "b' = b" and "e = ErrClosed" and "tchan b ch = Some \<lparr>buf = [], chClosed = True\<rparr>"
  using assms
  by (auto simp: takeRecv_def ch_recv_def
      split: option.splits list.splits if_splits prod.splits recv.splits)

lemma step_drained:
  assumes s: "sys_inv s" and t: "pcs s t = Some (PWait n ch)"
    and tk: "takeRecv ch (sbus s) = (Some (Inl e), b')"
  shows "sys_inv (s\<lparr>sbus := b', pcs := (pcs s)(t := None)\<rparr>)"
proof -
  have b': "b' = sbus s" and k: "tchan (sbus s) ch = Some \<lparr>buf = [], chClosed = True\<rparr>"
    by (rule drained_state [OF tk], assumption)+
  have wok: "waiters_ok (sbus s)" using sys_invD(1) [OF s] by (simp add: bus_inv_def)
  have "ch \<notin> set (waiters_of (sbus s) y)" for y
    using waiters_ok_mem [OF wok, of ch y] k by (auto simp: fresh_chan_def)
  then have own: "owned (sbus s) ((pcs s)(t := None))"
    using k by (intro owned_leave [OF sys_invD(3) [OF s] _ t]) (auto simp: is_wait_def)
  show ?thesis
    unfolding sys_rec(1) b'
    by (rule sys_inv_move [OF s sys_invD(1,2) [OF s]]) (use t own sys_invD(6) [OF s] in simp_all)
qed

lemma step_cancel:
  assumes s: "sys_inv s" and t: "pcs s t = Some (PWait n ch)"
  shows "sys_inv (s\<lparr>sbus := cancelWaiter io n ch (sbus s), pcs := (pcs s)(t := None)\<rparr>)"
proof -
  let ?b = "sbus s" and ?b' = "cancelWaiter io n ch (sbus s)"
  note o = sys_invD(3) [OF s] and ci = cancelWaiter_inv [OF sys_invD(1) [OF s], of io n ch]
  note cc = cancelWaiter_chan [OF ownedD(5) [OF o t], where io = io and ch = ch]
  have ow': "owned_but {ch} ?b' (pcs s)" by (rule owned_step [OF owned_weaken [OF o] cc(1)])
  have "ch \<notin> set (waiters_of ?b' y)" for y
    using ownedD(1) [OF ow', of ch y] ownedD(6) [OF ow' t] t cc(2) by fastforce
  moreover have "buf k = []" if k: "tchan ?b' ch = Some k" for k
  proof (cases "tchan ?b ch")
    case None
    then show ?thesis using chan_stepD(2) [OF cc(1) k] ci
      sys_invD(1) [OF s] waiters_ok_mem [of ?b ch] by (fastforce simp: bus_inv_def)
  next
    case (Some k0)
    then have "buf k = tl (buf k0)" using cc(3) k by auto
    then show ?thesis using ownedD(3) [OF o Some] by (cases "buf k0") auto
  qed
  ultimately have own: "owned ?b' ((pcs s)(t := None))"
    by (intro owned_leave [OF ow' _ t]) (simp_all add: is_wait_def)
  have ps: "pubsub_inv ?b'" using same_frame_pubsub [OF ci(2)] sys_invD(2) [OF s] by simp
  show ?thesis
    unfolding sys_rec(1)
    by (rule sys_inv_move [OF s ci(1) ps]) (use ci t own calm_step [OF sys_invD(6) [OF s] cc(1)] in \<open>simp_all add: same_frame_def\<close>)
qed

lemma step_consume:
  assumes s: "sys_inv s" and t: "pcs s t = Some (PHas m)"
  shows "sys_inv (s\<lparr>pcs := (pcs s)(t := None), finished := add_mset m (finished s)\<rparr>)"
proof -
  have own: "owned (sbus s) ((pcs s)(t := None))"
    by (rule owned_other [OF sys_invD(3) [OF s]]) (simp_all add: is_wait_def t)
  show ?thesis
    unfolding sys_rec(6)
    by (rule sys_inv_move [OF s sys_invD(1,2) [OF s]]) (use t own sys_invD(6) [OF s] in simp_all)
qed

lemma step_hold:
  assumes s: "sys_inv s" and t: "pcs s t = Some (PHas m)" and f: "inflight (sbus s) nid = None"
    and h: "hold now nid io m lease (sbus s) = (r, b')"
  shows "r = Inr d \<Longrightarrow> sys_inv (s\<lparr>sbus := b', pcs := (pcs s)(t := None)\<rparr>)"
    and "r = Inl e \<Longrightarrow> sys_inv (s\<lparr>sbus := b', pcs := (pcs s)(t \<mapsto> PPutBack m)\<rparr>)"
proof -
  note hm = hold_moves [OF sys_invD(1) [OF s] f, where m = m and now = now and io = io and lease = lease]
  have own: "owned b' ((pcs s)(t := x))" if "\<not> is_wait x" for x
    by (rule owned_other [OF owned_step [OF sys_invD(3) [OF s] hold_chan [OF h]] _ that])
      (simp add: is_wait_def t)
  note cs = calm_step [OF sys_invD(6) [OF s] hold_chan [OF h]]
  show "sys_inv (s\<lparr>sbus := b', pcs := (pcs s)(t := None)\<rparr>)" if r: "r = Inr d"
  proof -
    have mv: "moves (sbus s) {#m#} {#} b'" using hm h r by simp
    show ?thesis
      unfolding sys_rec(1)
      by (rule sys_inv_move [OF s moves_inv [OF mv] moves_pubsub [OF mv sys_invD(2) [OF s]]])
        (use mv moves_closed [OF mv] t own [of None] cs in \<open>auto simp: moves_def is_wait_def\<close>)
  qed
  show "sys_inv (s\<lparr>sbus := b', pcs := (pcs s)(t \<mapsto> PPutBack m)\<rparr>)" if r: "r = Inl e"
  proof -
    have mv: "moves (sbus s) {#} {#} b'" using hm h r by simp
    show ?thesis
      unfolding sys_rec(1)
      by (rule sys_inv_move [OF s moves_inv [OF mv] moves_pubsub [OF mv sys_invD(2) [OF s]]])
        (use mv moves_closed [OF mv] t own [of "Some (PPutBack m)"] cs in
          \<open>auto simp: moves_def is_wait_def\<close>)
  qed
qed

lemma requeue_refused:
  "closed b \<or> m_name m = [] \<Longrightarrow> requeue io m b = Some (r, b') \<Longrightarrow> b' = b \<and> r \<noteq> None"
  by (auto simp: requeue_def split: if_splits)

lemma step_put_back:
  assumes s: "sys_inv s" and t: "pcs s t = Some (PPutBack m)"
    and rq: "requeue io m (sbus s) = Some (r, b')"
  shows "sys_inv (s\<lparr>sbus := b', pcs := (pcs s)(t := None),
       lost := lost s + (if closed (sbus s) \<or> m_name m = [] then {#m#} else {#})\<rparr>)"
proof -
  have n: "m_name m \<noteq> []" by (rule in_hand_name [OF s t]) simp
  have own: "owned b' ((pcs s)(t := None))"
    by (rule owned_other [OF owned_step [OF sys_invD(3) [OF s] requeue_chan [OF rq]]])
      (simp_all add: is_wait_def t)
  show ?thesis
  proof (cases "closed (sbus s)")
    case True
    then have b': "b' = sbus s" using requeue_refused rq by metis
    show ?thesis
      unfolding sys_rec(4) b'
      by (rule sys_inv_move [OF s sys_invD(1,2) [OF s]]) (use True t own b' sys_invD(6) [OF s] in simp_all)
  next
    case False
    have mv: "moves (sbus s) {#m#} {#} b'"
      by (rule requeue_moves [OF sys_invD(1) [OF s] False n, of io]) (use rq in simp)
    show ?thesis
      unfolding sys_rec(4)
      by (rule sys_inv_move [OF s moves_inv [OF mv] moves_pubsub [OF mv sys_invD(2) [OF s]]])
        (use mv moves_closed [OF mv] False n t own calm_step [OF sys_invD(6) [OF s] requeue_chan [OF rq]] in \<open>auto simp: moves_def\<close>)
  qed
qed

lemma step_close:
  assumes s: "sys_inv s" and ord: "set ord = dom (boxes (sbus s))"
    and c: "closeBus ord (sbus s) = Some b'"
  shows "sys_inv (s\<lparr>sbus := b',
       lost := lost s + (if closed (sbus s) then {#} else queued (sbus s))\<rparr>)"
proof (cases "closed (sbus s)")
  case True
  then have "b' = sbus s" using c by (simp add: closeBus_def)
  then show ?thesis using s True by simp
next
  case False
  note i = sys_invD [OF s]
  note j = close_jobs [OF i(1,2) ord c False]
  have "bus_inv b' \<and> pubsub_inv b'" using closeBus_ok [OF i(1,2), of ord] c by (metis option.inject)
  then show ?thesis
    unfolding sys_rec(5) [where t = 0]
    by (intro sys_inv_move [OF s])
      (use j False owned_step [OF i(3) close_chan [OF i(1,2) c]] in \<open>simp_all add: calm_def\<close>)
qed

lemma sys_step_inv:
  assumes "sys_step s s'" and "sys_inv s"
  shows "sys_inv s'"
  using assms
proof (induction rule: sys_step.induct)
  case (call s ins outs b')
  then show ?case by (intro step_call)
next
  case (take_wait s t now ord io n ch b')
  then show ?case by (intro step_take_wait)
next
  case (take_fail now ord io n s e b')
  then show ?case by (intro step_take_fail)
next
  case (try_got s t now ord io n m b')
  then show ?case by (intro step_try(2) [OF _ _ refl])
next
  case (try_fail now ord io n s e b')
  then show ?case by (intro step_try(1) [OF _ _ refl])
next
  case (recv s t n ch m b')
  then show ?case by (intro step_recv)
next
  case (drained s t n ch e b')
  then show ?case by (intro step_drained)
next
  case (cancel s t n ch io)
  then show ?case by (intro step_cancel)
next
  case (consume s t m)
  then show ?case by (intro step_consume)
next
  case (hold_ok s t m nid now io lease d b')
  then show ?case by (intro step_hold(1) [OF _ _ _ _ refl])
next
  case (hold_fail s t m nid now io lease e b')
  then show ?case by (intro step_hold(2) [OF _ _ _ _ refl])
next
  case (put_back s t m io r b')
  then show ?case by (intro step_put_back)
next
  case (close ord s b')
  then show ?case by (intro step_close)
qed

lemma init_sys_inv:
  assumes "init_bus b"
  shows "sys_inv (init_sys b)"
proof -
  have "owned b Map.empty"
    unfolding owned_but_def using assms by (simp add: init_bus_def)
  then show ?thesis using assms by (simp add: sys_inv_def init_sys_def init_bus_def in_hand_def calm_def)
qed

lemma reachable_inv: "reachable s \<Longrightarrow> sys_inv s"
  by (induction rule: reachable.induct) (auto intro: init_sys_inv sys_step_inv)

end
