(* ===== verification/System_Props.thy ===== *)
theory System_Props
  imports Bus_System
begin

text \<open>
  Properties of the running bus: what holds in every reachable state, whatever the goroutines,
  the file system and the clock do, with concrete runs as witnesses.
\<close>

subsection \<open>Concrete runs\<close>

lemma init_newBus: "init_bus newBus"
  by (simp add: init_bus_def newBus_def newWithLimits_def bus_inv_def fin_ok_def waiters_ok_def
      waiters_of_def box_of_def alloc_ok_def keys_ok_def index_ok_def held_def queued_def leased_def
      counts_empty pubsub_inv_def subs_ok_def cache_ok_def wake_ok_def MaxCachedTopics_def
      jobs_def transit_def)

definition job1 :: msg where
  "job1 = \<lparr>m_id = ''a'', m_name = ''work'', m_from = [], m_body = ''x'', m_at = 1\<rparr>"

text \<open>\<open>run1\<close>: a job is queued.\<close>

definition run1 :: sys where
  "run1 = (init_sys newBus)\<lparr>sbus := snd (the (put 1 ''i'' True ''work'' job1 newBus)),
     accepted := {#job1#}\<rparr>"

lemma stamp_job1 [simp]: "stamp now nid ''work'' job1 = job1"
  by (simp add: stamp_def job1_def)

lemma newBus_fields [simp]:
  "maxQueue newBus = 1024" "maxBody newBus = 1048576" "closed newBus = False" "boxes newBus = Map.empty"
  "subs newBus = []" "lastv newBus = Map.empty" "dedup newBus = Map.empty" "path newBus = []"
  "inflight newBus = Map.empty" "tchan newBus = Map.empty" "nextT newBus = 0" "schan newBus = Map.empty"
  "nextS newBus = 0" "stopped newBus = False" "disk newBus = None"
  by (simp_all add: newBus_def newWithLimits_def DefaultMaxQueue_def DefaultMaxBody_def)

lemma put_job1: "put 1 ''i'' True ''work'' job1 newBus = Some (None,
   newBus\<lparr>boxes := [''work'' \<mapsto> \<lparr>bq = [job1], bwaiters = []\<rparr>], dedup := indexAddLocked job1 Map.empty\<rparr>)"
  by (simp add: put_def putLocked_def Let_def indexedLocked_def waiters_of_def box_of_def q_of_def
      boxLocked_def set_q_def index_add_def persistLocked_def)
    (simp add: job1_def)

lemma jobs_newBus [simp]: "jobs newBus = {#}"
  by (simp add: jobs_def held_def queued_def leased_def transit_def)

lemma indexed_empty [simp]: "\<not> indexedLocked n i Map.empty"
  by (simp add: indexedLocked_def)

lemma run1_reachable: "reachable run1"
proof -
  let ?b = "snd (the (put 1 ''i'' True ''work'' job1 newBus))"
  have "put 1 ''i'' True ''work'' job1 newBus = Some (None, ?b)" by (simp add: put_job1)
  from op_put [OF this] have "bus_op newBus {#job1#} {#} ?b" by simp
  then have "sys_step (init_sys newBus) ((init_sys newBus)\<lparr>sbus := ?b,
      accepted := accepted (init_sys newBus) + {#job1#}, finished := finished (init_sys newBus) + {#}\<rparr>)"
    by (intro sys_step.call) (simp add: init_sys_def)
  then have "sys_step (init_sys newBus) run1" by (simp add: run1_def init_sys_def)
  then show ?thesis by (rule reachable.step [OF reachable.start [OF init_newBus]])
qed

lemma sbus_run1 [simp]: "sbus run1 =
   newBus\<lparr>boxes := [''work'' \<mapsto> \<lparr>bq = [job1], bwaiters = []\<rparr>], dedup := indexAddLocked job1 Map.empty\<rparr>"
  by (simp add: run1_def put_job1)

text \<open>
  \<open>run2\<close>: two goroutines wait on the mailbox, a job is handed to the first, and its context ends
  before it reads the job.
\<close>

definition bus_w2 :: bus where
  "bus_w2 = newBus\<lparr>boxes := [''work'' \<mapsto> \<lparr>bq = [], bwaiters = [0, 1]\<rparr>],
     tchan := [0 \<mapsto> fresh_chan, 1 \<mapsto> fresh_chan], nextT := 2\<rparr>"

definition bus_h :: bus where
  "bus_h = newBus\<lparr>boxes := [''work'' \<mapsto> \<lparr>bq = [], bwaiters = [1]\<rparr>],
     tchan := [0 \<mapsto> \<lparr>buf = [job1], chClosed = True\<rparr>, 1 \<mapsto> fresh_chan], nextT := 2\<rparr>"

definition pcs_w2 :: "nat \<rightharpoonup> pc" where
  "pcs_w2 = [0 \<mapsto> PWait ''work'' 0, 1 \<mapsto> PWait ''work'' 1]"

definition run_h :: sys where
  "run_h = \<lparr>sbus = bus_h, pcs = pcs_w2, accepted = {#job1#}, finished = {#}, lost = {#}\<rparr>"

definition run2 :: sys where
  "run2 = \<lparr>sbus = cancelWaiter True ''work'' 0 bus_h, pcs = pcs_w2(0 := None),
     accepted = {#job1#}, finished = {#}, lost = {#}\<rparr>"

lemma w2_reachable:
  "reachable \<lparr>sbus = bus_w2, pcs = pcs_w2, accepted = {#}, finished = {#}, lost = {#}\<rparr>"
proof -
  let ?b1 = "newBus\<lparr>boxes := [''work'' \<mapsto> \<lparr>bq = [], bwaiters = [0]\<rparr>],
     tchan := [0 \<mapsto> fresh_chan], nextT := 1\<rparr>"
  let ?s0 = "init_sys newBus"
  let ?s1 = "?s0\<lparr>sbus := ?b1, pcs := (pcs ?s0)(0 \<mapsto> PWait ''work'' 0)\<rparr>"
  let ?s2 = "?s1\<lparr>sbus := bus_w2, pcs := (pcs ?s1)(1 \<mapsto> PWait ''work'' 1)\<rparr>"
  note defs = takeStart_def takeChan_def Let_def q_of_def box_of_def boxLocked_def alloc_waiter_def
    waiters_of_def set_waiters_def
  have "takeStart 1 [] True ''work'' (sbus ?s0) = Some (Inr 0, ?b1)"
    by (simp add: defs init_sys_def)
  then have r1: "reachable ?s1"
    by (intro reachable.step [OF reachable.start [OF init_newBus]] take_wait) (simp_all add: init_sys_def)
  have "takeStart 1 [] True ''work'' (sbus ?s1) = Some (Inr 1, bus_w2)"
    by (simp add: defs bus_w2_def)
  then have "reachable ?s2"
    by (intro reachable.step [OF r1] take_wait) (simp_all add: init_sys_def)
  moreover have "?s2 = \<lparr>sbus = bus_w2, pcs = pcs_w2, accepted = {#}, finished = {#}, lost = {#}\<rparr>"
    by (simp add: init_sys_def pcs_w2_def)
  ultimately show ?thesis by simp
qed

lemma w2_step:
  "sys_step \<lparr>sbus = bus_w2, pcs = pcs_w2, accepted = {#}, finished = {#}, lost = {#}\<rparr> run_h"
proof -
  let ?s = "\<lparr>sbus = bus_w2, pcs = pcs_w2, accepted = {#}, finished = {#}, lost = {#}\<rparr>"
  have "hand_off 0 job1 (tchan bus_w2) = Some ((tchan bus_w2)(0 \<mapsto> \<lparr>buf = [job1], chClosed = True\<rparr>))"
    by (rule hand_off_fresh) (simp add: bus_w2_def)
  moreover have "indexedLocked ''work'' (m_id job1) (dedup bus_w2) = False" "closed bus_w2 = False"
    "maxBody bus_w2 = 1048576" "m_body job1 = ''x''"
    by (simp_all add: bus_w2_def indexedLocked_def job1_def)
  moreover have "boxLocked ''work'' bus_w2 = bus_w2" "waiters_of bus_w2 ''work'' = [0, 1]"
    by (simp_all add: bus_w2_def boxLocked_def waiters_of_def box_of_def)
  moreover have "(set_waiters ''work'' [1] bus_w2)\<lparr>tchan := (tchan bus_w2)(0 \<mapsto> \<lparr>buf = [job1], chClosed = True\<rparr>)\<rparr> = bus_h"
    by (rule bus.equality) (simp_all add: bus_w2_def bus_h_def set_waiters_def box_of_def fun_eq_iff)
  ultimately have p: "put 1 ''i'' True ''work'' job1 bus_w2 = Some (None, bus_h)"
    by (simp add: put_def putLocked_def Let_def)
  have "bus_op bus_w2 {#job1#} {#} bus_h"
    using op_put [OF p] by (simp add: bus_w2_def indexedLocked_def)
  then have "sys_step ?s (?s\<lparr>sbus := bus_h, accepted := accepted ?s + {#job1#}, finished := finished ?s + {#}\<rparr>)"
    by (intro sys_step.call) simp
  then show ?thesis by (simp add: run_h_def)
qed

lemma run_h_reachable: "reachable run_h"
  by (rule reachable.step [OF w2_reachable w2_step])

lemma run2_reachable: "reachable run2"
proof -
  have "sys_step run_h (run_h\<lparr>sbus := cancelWaiter True ''work'' 0 (sbus run_h), pcs := (pcs run_h)(0 := None)\<rparr>)"
    by (rule sys_step.cancel) (simp add: run_h_def pcs_w2_def)
  then have "sys_step run_h run2" by (simp add: run2_def run_h_def)
  then show ?thesis by (rule reachable.step [OF run_h_reachable])
qed

lemma run2_bus:
  "q_of (sbus run2) ''work'' = [job1]" "waiters_of (sbus run2) ''work'' = [1]"
  "tchan (sbus run2) 1 = Some fresh_chan" "closed (sbus run2) = False"
  by (simp_all add: run2_def cancelWaiter_def bus_h_def set_waiters_def Let_def ch_recv_def box_of_def
      set_q_def q_of_def index_add_def persistLocked_def waiters_of_def)

subsection \<open>No job is lost or duplicated\<close>

text \<open>C1 (conservation). In every reachable state, as multisets, the jobs ever accepted by \<open>Put\<close>
  are those queued, leased, sitting in the channel of a \<open>Take\<close>, in the hands of a goroutine,
  acknowledged or consumed, and lost; and as long as the bus has not been closed none is lost,
  whatever the order of operations, the clock and the failures of the file system.\<close>

theorem jobs_conserved:
  assumes "reachable s"
  shows "accepted s = queued (sbus s) + leased (sbus s) + transit (sbus s) + in_hand s
           + finished s + lost s \<and> (\<not> closed (sbus s) \<longrightarrow> lost s = {#})"
proof
  have i: "sys_inv s" by (rule reachable_inv [OF assms])
  from i have "accepted s = jobs (sbus s) + in_hand s + finished s + lost s"
    by (simp add: sys_inv_def)
  then show "accepted s = queued (sbus s) + leased (sbus s) + transit (sbus s) + in_hand s
           + finished s + lost s"
    by (simp add: jobs_def held_def)
  show "\<not> closed (sbus s) \<longrightarrow> lost s = {#}" using i by (simp add: sys_inv_def)
qed

theorem jobs_conserved_witness:
  "{#job1#} = queued (sbus run2) + leased (sbus run2) + transit (sbus run2) + in_hand run2 \<and>
   lost run2 = {#}"
  using jobs_conserved [OF run2_reachable] by (simp add: run2_def)

text \<open>C2 (no fault). In every reachable state every operation of the bus completes its critical
  section: none sends on or closes a closed channel (a panic), none blocks on a full channel
  while it holds the mutex, and \<open>Close\<close> closes no channel twice.\<close>

theorem operations_complete:
  assumes "reachable s"
  shows "put now nid io n m (sbus s) \<noteq> None \<and> nack io i (sbus s) \<noteq> None \<and>
    requeue io m (sbus s) \<noteq> None \<and> expireLeases now ord io (sbus s) \<noteq> None \<and>
    takeStart now ord io n (sbus s) \<noteq> None \<and> tryTake now ord io n (sbus s) \<noteq> None \<and>
    pub now victim n m (sbus s) \<noteq> None \<and> sub ord n (sbus s) \<noteq> None \<and>
    unsub w (sbus s) \<noteq> None \<and> closeBus ord (sbus s) \<noteq> None"
proof -
  note i = sys_invD [OF reachable_inv [OF assms]]
  have "put now nid io n m (sbus s) \<noteq> None"
    by (rule put_moves [OF i(1), of now nid io n m]) simp
  moreover have "nack io i (sbus s) \<noteq> None"
    by (cases "inflight (sbus s) i") (simp add: nack_def, rule nack_moves [OF i(1), of i _ io], simp_all)
  moreover have "requeue io m (sbus s) \<noteq> None"
  proof (cases "m_name m = [] \<or> closed (sbus s)")
    case True
    then show ?thesis by (auto simp: requeue_def)
  next
    case False
    then show ?thesis using requeue_moves [OF i(1), of m io] by fastforce
  qed
  moreover have "expireLeases now ord io (sbus s) \<noteq> None"
    by (rule expire_moves [OF i(1), of now ord io]) simp
  moreover have "takeStart now ord io n (sbus s) \<noteq> None"
    by (rule takeChan_moves [OF i(1), of now ord io n]) (simp add: takeStart_def)
  moreover have "tryTake now ord io n (sbus s) \<noteq> None"
    by (rule tryTake_moves [OF i(1), of now ord io n]) simp
  moreover have "pub now victim n m (sbus s) \<noteq> None"
    using pub_result [of "sbus s" n m now victim] i(2) by (auto simp: pub_def pubsub_inv_def)
  moreover have "sub ord n (sbus s) \<noteq> None"
    by (rule sub_ok [OF i(1,2), of ord n]) simp
  moreover have "unsub w (sbus s) \<noteq> None"
    by (rule unsub_ok [OF i(1,2), of w]) simp
  moreover have "closeBus ord (sbus s) \<noteq> None"
    by (rule closeBus_ok [OF i(1,2), of ord]) simp
  ultimately show ?thesis by blast
qed

theorem operations_complete_witness:
  "put 2 ''j'' True ''work'' job1 (sbus run2) \<noteq> None \<and> nack True ''x'' (sbus run2) \<noteq> None \<and>
   requeue True job1 (sbus run2) \<noteq> None \<and> expireLeases 2 [] True (sbus run2) \<noteq> None \<and>
   takeStart 2 [] True ''work'' (sbus run2) \<noteq> None \<and> tryTake 2 [] True ''work'' (sbus run2) \<noteq> None \<and>
   pub 2 [] ''work'' job1 (sbus run2) \<noteq> None \<and> sub [] ''work'' (sbus run2) \<noteq> None \<and>
   unsub 0 (sbus run2) \<noteq> None \<and> closeBus [] (sbus run2) \<noteq> None"
  by (rule operations_complete [OF run2_reachable])

text \<open>C14 (dedup index). In every reachable state of an open bus, the idempotent-retry index says
  yes to a name and an id exactly when a queued or leased message has their key.\<close>

theorem index_exact:
  assumes "reachable s" and "\<not> closed (sbus s)" and "n \<noteq> []" and "i \<noteq> []"
  shows "indexedLocked n i (dedup (sbus s)) \<longleftrightarrow>
    (\<exists>m\<in>#queued (sbus s) + leased (sbus s). m_id m \<noteq> [] \<and>
       dedupKey (m_name m) (m_id m) = dedupKey n i)"
proof -
  have inv: "sys_inv s" by (rule reachable_inv [OF assms(1)])
  let ?M = "queued (sbus s) + leased (sbus s)"
  have c: "ix.counts (dedup (sbus s)) ?M"
    using sys_invD(1) [OF inv] assms(2) by (simp add: bus_inv_def index_ok_def held_def)
  have "m_name m \<noteq> []" if "m \<in># queued (sbus s) + leased (sbus s)" for m
    using that inv sys_invD(5) [OF inv, of m] by (auto simp: sys_inv_def jobs_def held_def)
  then have "(\<exists>m\<in>#?M. job_key m = Some (dedupKey n i)) \<longleftrightarrow>
      (\<exists>m\<in>#?M. m_id m \<noteq> [] \<and> dedupKey (m_name m) (m_id m) = dedupKey n i)"
    by (intro bex_cong refl) (simp add: job_key_def)
  then show ?thesis using indexed_iff_counted [OF c assms(3,4)] by simp
qed

theorem index_exact_witness:
  "indexedLocked ''work'' ''a'' (dedup (sbus run2)) \<longleftrightarrow>
    (\<exists>m\<in>#queued (sbus run2) + leased (sbus run2). m_id m \<noteq> [] \<and>
       dedupKey (m_name m) (m_id m) = dedupKey ''work'' ''a'')"
  by (rule index_exact [OF run2_reachable]) (simp_all add: run2_bus)

subsection \<open>Nobody waits in vain\<close>

text \<open>C11 (waiters). In every reachable state a goroutine in the \<open>select\<close> of \<open>Take\<close> either finds
  its channel ready or is on the waiter list of its mailbox, so that the next job put there can
  reach it; and once the bus is closed it does find its channel ready: \<open>Close\<close> leaves nobody
  blocked.\<close>

theorem take_never_stranded:
  assumes "reachable s" and "pcs s t = Some (PWait n ch)"
  shows "(fst (takeRecv ch (sbus s)) \<noteq> None \<or> ch \<in> set (waiters_of (sbus s) n)) \<and>
    (closed (sbus s) \<longrightarrow> fst (takeRecv ch (sbus s)) \<noteq> None)"
proof -
  note i = sys_invD [OF reachable_inv [OF assms(1)]]
  have sh: "fst (takeRecv ch (sbus s)) \<noteq> None" if "shut (sbus s) ch"
    using that by (auto simp: shut_def takeRecv_def ch_recv_def split: list.split)
  have "ch \<in> set (waiters_of (sbus s) n) \<or> shut (sbus s) ch"
    using ownedD(7) [OF i(3) assms(2)] by simp
  then show ?thesis
    using sh i(6) by (auto simp: calm_def)
qed

theorem take_never_stranded_witness:
  "fst (takeRecv 0 (sbus run_h)) \<noteq> None"
proof -
  have "0 \<notin> set (waiters_of (sbus run_h) ''work'')"
    by (simp add: run_h_def bus_h_def waiters_of_def box_of_def)
  then show ?thesis
    using take_never_stranded [OF run_h_reachable, of 0 "''work''" 0]
    by (simp add: run_h_def pcs_w2_def)
qed

text \<open>In every reachable state a channel that a mailbox lists as a waiter, and a
  channel that holds an unread job, belong to a goroutine that is in the \<open>select\<close> of \<open>Take\<close> on
  that channel, and to one only; and a channel never holds more than one job.  So no job is sent
  to a \<open>Take\<close> that has already given up.\<close>

theorem handoff_has_reader:
  assumes "reachable s"
  shows "(w \<in> set (waiters_of (sbus s) n) \<longrightarrow> (\<exists>!t. pcs s t = Some (PWait n w))) \<and>
    (tchan (sbus s) w = Some k \<and> buf k \<noteq> [] \<longrightarrow>
      (\<exists>!t. \<exists>n. pcs s t = Some (PWait n w)) \<and> length (buf k) = 1)"
proof
  note o = sys_invD(3) [OF reachable_inv [OF assms]]
  show "w \<in> set (waiters_of (sbus s) n) \<longrightarrow> (\<exists>!t. pcs s t = Some (PWait n w))"
    using ownedD(1,6) [OF o] by metis
  have "length (buf k) = 1" if "tchan (sbus s) w = Some k" "buf k \<noteq> []"
    using ownedD(3) [OF o that(1)] that(2) by (cases "buf k") auto
  then show "tchan (sbus s) w = Some k \<and> buf k \<noteq> [] \<longrightarrow>
      (\<exists>!t. \<exists>n. pcs s t = Some (PWait n w)) \<and> length (buf k) = 1"
    using ownedD(2,6) [OF o] by metis
qed

theorem handoff_has_reader_witness:
  "\<exists>!t. \<exists>n. pcs run_h t = Some (PWait n 0)"
  using handoff_has_reader [OF run_h_reachable, of 0 "''work''" "\<lparr>buf = [job1], chClosed = True\<rparr>"]
  by (simp add: run_h_def bus_h_def)

text \<open>No operation but the cancellation of a \<open>Take\<close> that a job has just reached
  leaves a job queued in a mailbox where a \<open>Take\<close> is registered: wherever there is a waiter the
  queue is empty.\<close>

theorem wake_kept:
  assumes "reachable s" and "sys_step s s'" and "wake_ok (sbus s)"
  shows "wake_ok (sbus s') \<or>
    (\<exists>t n ch k io. pcs s t = Some (PWait n ch) \<and> tchan (sbus s) ch = Some k \<and> buf k \<noteq> [] \<and>
       sbus s' = cancelWaiter io n ch (sbus s))"
  using assms(2)
proof cases
  case (call ins outs b')
  then show ?thesis using bus_op_ok sys_invD [OF reachable_inv [OF assms(1)]] assms(3) by simp
next
  case (take_wait t now ord io n ch b')
  have "moves (sbus s) {#} {#} b'"
    by (rule takeChan_moves [OF sys_invD(1) [OF reachable_inv [OF assms(1)]], of now ord io n])
      (use take_wait takeStart_cases in fastforce)
  then show ?thesis using take_wait assms(3) by (simp add: moves_def)
next
  case (take_fail now ord io n e b')
  have "moves (sbus s) {#} {#} b'" if "takeChan now ord io n (sbus s) = Some (Inl e, b')"
    by (rule takeChan_moves [OF sys_invD(1) [OF reachable_inv [OF assms(1)]], of now ord io n])
      (use that in simp)
  then show ?thesis using takeStart_cases take_fail assms(3) by (fastforce simp: moves_def)
next
  case (try_got t now ord io n m b')
  have "moves (sbus s) {#} {#m#} b'"
    by (rule tryTake_moves [OF sys_invD(1) [OF reachable_inv [OF assms(1)]], of now ord io n])
      (use try_got in simp)
  then show ?thesis using try_got assms(3) by (simp add: moves_def)
next
  case (try_fail now ord io n e b')
  have "moves (sbus s) {#} {#} b'"
    by (rule tryTake_moves [OF sys_invD(1) [OF reachable_inv [OF assms(1)]], of now ord io n])
      (use try_fail in simp)
  then show ?thesis using try_fail assms(3) by (simp add: moves_def)
next
  case (recv t n ch m b')
  have "wake_ok b'"
    using takeRecv_chan(3) [OF recv(3)] recv(3) assms(3)
    by (auto simp: takeRecv_def ch_recv_def split: option.splits list.splits if_splits prod.splits recv.splits)
  then show ?thesis using recv by simp
next
  case (drained t n ch e b')
  then show ?thesis using assms(3) by (auto elim!: drained_state)
next
  case (cancel t n ch io)
  show ?thesis
  proof (cases "\<forall>k. tchan (sbus s) ch = Some k \<longrightarrow> buf k = []")
    case True
    from cancelWaiter_wake [OF sys_invD(1) [OF reachable_inv [OF assms(1)]] assms(3) True]
    show ?thesis using cancel by simp
  next
    case False
    then obtain k where "tchan (sbus s) ch = Some k" "buf k \<noteq> []" by blast
    moreover have "sbus s' = cancelWaiter io n ch (sbus s)" using cancel(1) by simp
    ultimately show ?thesis using cancel(2) by metis
  qed
next
  case (put_back t m io r b')
  then show ?thesis
    using requeue_refused [OF _ put_back(3)] assms(3)
      requeue_moves [OF sys_invD(1) [OF reachable_inv [OF assms(1)]], of m io]
    by (cases "closed (sbus s) \<or> m_name m = []") (auto simp: moves_def)
next
  case (close ord b')
  note i = sys_invD [OF reachable_inv [OF assms(1)]]
  show ?thesis
  proof (cases "closed (sbus s)")
    case True
    then show ?thesis using close assms(3) by (simp add: closeBus_def)
  next
    case False
    then show ?thesis using close_jobs(6) [OF i(1,2) close(2,3)] close by (simp add: wake_ok_def)
  qed
next
  case (consume t m)
  then show ?thesis using assms(3) by simp
next
  case (hold_ok t m nid now io lease d b')
  then show ?thesis
    using hold_moves [OF sys_invD(1) [OF reachable_inv [OF assms(1)]], where nid = nid and now = now and io = io and m = m and lease = lease] assms(3)
    by (simp add: moves_def)
next
  case (hold_fail t m nid now io lease e b')
  then show ?thesis
    using hold_moves [OF sys_invD(1) [OF reachable_inv [OF assms(1)]], where nid = nid and now = now and io = io and m = m and lease = lease] assms(3)
    by (simp add: moves_def)
qed

theorem wake_kept_witness:
  "wake_ok bus_h \<or>
    (\<exists>t n ch k io. pcs_w2 t = Some (PWait n ch) \<and> tchan bus_w2 ch = Some k \<and> buf k \<noteq> [] \<and>
       bus_h = cancelWaiter io n ch bus_w2)"
proof -
  let ?s = "\<lparr>sbus = bus_w2, pcs = pcs_w2, accepted = {#}, finished = {#}, lost = {#}\<rparr>"
  have "sys_step ?s run_h" by (rule w2_step)
  moreover have "wake_ok bus_w2"
    by (auto simp: wake_ok_def bus_w2_def q_of_def waiters_of_def box_of_def split: if_splits)
  ultimately show ?thesis using wake_kept [OF w2_reachable, of run_h] by (simp add: run_h_def)
qed

text \<open>C19 (a lost wake-up). The exception is real: there is a reachable state of an open bus with
  a job in the queue of a mailbox, a \<open>Take\<close> on that same mailbox registered and blocked on an
  open empty channel, and no goroutine holding anything, so that the job and the \<open>Take\<close> wait for
  each other until a later operation.  (\<open>cancelWaiter\<close> prepends to the queue without offering
  the job to the remaining waiters, as \<open>deliverLocked\<close> does.)\<close>

theorem lost_wakeup:
  "\<exists>s n ch t. reachable s \<and> \<not> closed (sbus s) \<and> q_of (sbus s) n \<noteq> [] \<and>
     waiters_of (sbus s) n = [ch] \<and> pcs s t = Some (PWait n ch) \<and>
     fst (takeRecv ch (sbus s)) = None \<and> in_hand s = {#}"
proof -
  have t: "tchan (sbus run2) 1 = Some fresh_chan" by (rule run2_bus)
  have "pcs_w2(0 := None) = [1 \<mapsto> PWait ''work'' 1]" by (auto simp: pcs_w2_def fun_eq_iff)
  then have "in_hand run2 = {#}" by (simp add: in_hand_def run2_def msum_insert)
  moreover have "fst (takeRecv 1 (sbus run2)) = None"
    using t by (simp add: takeRecv_def ch_recv_def fresh_chan_def)
  ultimately show ?thesis
    using run2_reachable run2_bus
    by (intro exI [of _ run2] exI [of _ "''work''"] exI [of _ 1])
      (simp add: run2_def pcs_w2_def)
qed

end
