(* ===== verification/Store.thy ===== *)
theory Store
  imports Bus_System
begin

text \<open>
  The durable store: the file system calls of \<open>persistLocked\<close> one by one, what a crash may
  leave after each of them, and what \<open>OpenPersistent\<close> makes of the file.

  A file is its contents and whether they have been fsynced.  The name \<open>path\<close> is bound to
  \<open>main\<close>; until the directory is fsynced a crash may also bring back an earlier binding, so
  those are kept in \<open>older\<close>.  The contents of a file that was not fsynced are arbitrary after a
  crash.  The JSON encoding of the struct is not modelled: the contents are the struct.
\<close>

record 'c stored =
  data :: "'c option"   \<comment> \<open>\<^const>\<open>None\<close>: truncated or partly written\<close>
  synced :: bool

record 'c fs =
  main :: "'c stored option"
  older :: "'c stored option list"
  tmp :: "'c stored option"

text \<open>The calls that can fail.\<close>

datatype call = SOpen | SWrite | SSync | SClose | SRename | SRemove | SDir

definition removeTmp :: "(call \<Rightarrow> bool) \<Rightarrow> 'c fs \<Rightarrow> 'c fs" where
  "removeTmp ok fs = (if ok SRemove then fs\<lparr>tmp := None\<rparr> else fs)"

text \<open>
  The body of \<open>persistLocked\<close> after \<open>json.Marshal\<close>: its result and the states of the file
  system between its calls.
\<close>

definition persistFile ::
  "(call \<Rightarrow> bool) \<Rightarrow> 'c \<Rightarrow> 'c fs \<Rightarrow> gerr option \<times> 'c fs list" where
  "persistFile ok raw fs =
     (if \<not> ok SOpen then (Some ErrIO, [fs])
      else let fs1 = fs\<lparr>tmp := Some \<lparr>data = None, synced = False\<rparr>\<rparr> in
      if \<not> ok SWrite then (Some ErrIO, [fs, fs1, removeTmp ok fs1])
      else let fs2 = fs1\<lparr>tmp := Some \<lparr>data = Some raw, synced = False\<rparr>\<rparr> in
      if \<not> ok SSync then (Some ErrIO, [fs, fs1, fs2, removeTmp ok fs2])
      else let fs3 = fs2\<lparr>tmp := Some \<lparr>data = Some raw, synced = True\<rparr>\<rparr> in
      if \<not> ok SClose then (Some ErrIO, [fs, fs1, fs2, fs3, removeTmp ok fs3])
      else if \<not> ok SRename then (Some ErrIO, [fs, fs1, fs2, fs3, removeTmp ok fs3])
      else let fs4 = fs3\<lparr>main := tmp fs3, older := main fs3 # older fs3, tmp := None\<rparr>;
               fs5 = (if ok SDir then fs4\<lparr>older := []\<rparr> else fs4)
        in (None, [fs, fs1, fs2, fs3, fs4, fs5]))"

text \<open>What may be found under \<open>path\<close> after a crash: no file, or a file with contents.\<close>

definition survives :: "'c fs \<Rightarrow> 'c option option \<Rightarrow> bool" where
  "survives fs r \<longleftrightarrow> (\<exists>f\<in>set (main fs # older fs). case f of
     None \<Rightarrow> r = None
   | Some fl \<Rightarrow> \<exists>x. r = Some x \<and> (synced fl \<longrightarrow> x = data fl))"

definition complete :: "'c option \<Rightarrow> 'c stored option" where
  "complete c = map_option (\<lambda>x. \<lparr>data = Some x, synced = True\<rparr>) c"

text \<open>\<open>settled old fs\<close>: the store is one complete version, on disk for good.\<close>

definition settled :: "'c option \<Rightarrow> 'c fs \<Rightarrow> bool" where
  "settled old fs \<longleftrightarrow> main fs = complete old \<and> older fs = []"

lemma settled_survives: "settled old fs \<Longrightarrow> survives fs r \<Longrightarrow> r = map_option Some old"
  by (cases old) (auto simp: settled_def survives_def complete_def)

lemma removeTmp_simps [simp]: "main (removeTmp ok fs) = main fs" "older (removeTmp ok fs) = older fs"
  by (simp_all add: removeTmp_def)

lemma persistFile_states:
  assumes "persistFile ok raw fs = (r, tr)" and "fs' \<in> set tr"
  shows "(main fs' = main fs \<and> older fs' = older fs) \<or>
    (r = None \<and> main fs' = complete (Some raw) \<and> (older fs' = main fs # older fs \<or> older fs' = []))"
  using assms
  by (auto simp: persistFile_def Let_def complete_def split: if_splits)

lemma persistFile_end:
  assumes "persistFile ok raw fs = (r, tr)"
  shows "r \<noteq> None \<Longrightarrow> main (last tr) = main fs \<and> older (last tr) = older fs"
    and "r = None \<Longrightarrow> main (last tr) = complete (Some raw) \<and>
           older (last tr) = (if ok SDir then [] else main fs # older fs)"
    and "r = None \<longleftrightarrow> ok SOpen \<and> ok SWrite \<and> ok SSync \<and> ok SClose \<and> ok SRename"
  using assms by (auto simp: persistFile_def Let_def complete_def split: if_splits)

text \<open>\<open>clean V fs\<close>: whatever name binding a crash brings back is one of the complete versions \<open>V\<close>.\<close>

definition clean :: "'c option set \<Rightarrow> 'c fs \<Rightarrow> bool" where
  "clean V fs \<longleftrightarrow> (\<forall>f\<in>set (main fs # older fs). \<exists>c\<in>V. f = complete c)"

lemma clean_survives: "clean V fs \<Longrightarrow> survives fs r \<Longrightarrow> \<exists>c\<in>V. r = map_option Some c"
proof -
  assume c: "clean V fs" and "survives fs r"
  then obtain f where f: "f \<in> set (main fs # older fs)" and r: "case f of None \<Rightarrow> r = None
      | Some fl \<Rightarrow> \<exists>x. r = Some x \<and> (synced fl \<longrightarrow> x = data fl)"
    unfolding survives_def by blast
  then obtain v where "v \<in> V" and "f = complete v" using c unfolding clean_def by metis
  then show ?thesis using r by (intro bexI [of _ v]) (cases v; simp add: complete_def)+
qed

lemma settled_clean: "settled old fs \<Longrightarrow> clean {old} fs"
  by (simp add: settled_def clean_def)

lemma persistFile_clean:
  assumes c: "clean V fs" and p: "persistFile ok raw fs = (r, tr)" and m: "fs' \<in> set tr"
  shows "clean (insert (Some raw) V) fs'"
  using persistFile_states [OF p m] c by (elim disjE conjE) (simp_all add: clean_def)

subsection \<open>The bus over a file system\<close>

text \<open>
  \<open>persistLocked\<close> of the bus model abstracts this: \<open>io\<close> is whether the five calls succeed and
  \<open>disk\<close> is what \<open>path\<close> holds at the end.
\<close>

definition all_ok :: "(call \<Rightarrow> bool) \<Rightarrow> bool" where
  "all_ok ok \<longleftrightarrow> ok SOpen \<and> ok SWrite \<and> ok SSync \<and> ok SClose \<and> ok SRename"

definition holds :: "'c fs \<Rightarrow> 'c option" where
  "holds fs = (case main fs of None \<Rightarrow> None | Some f \<Rightarrow> data f)"

lemma holds_complete [simp]: "main fs = complete c \<Longrightarrow> holds fs = c"
  by (cases c) (simp_all add: holds_def complete_def)

lemma persistFile_refines:
  assumes "path b \<noteq> []" and "holds fs = disk b"
    and "persistFile ok (snap_of b) fs = (r, tr)" and "persistLocked (all_ok ok) b = (r', b')"
  shows "r = r' \<and> holds (last tr) = disk b'"
proof -
  note e = persistFile_end [OF assms(3)]
  have h: "holds (last tr) = (if r = None then Some (snap_of b) else disk b)"
    using e assms(2) by (auto simp: holds_def complete_def)
  have "r \<noteq> None \<longrightarrow> r = Some ErrIO"
    using assms(3) by (auto simp: persistFile_def Let_def split: if_splits)
  then show ?thesis
    using assms(1,4) e(3) h by (auto simp: persistLocked_def all_ok_def split: if_splits)
qed

subsection \<open>Opening the store\<close>

text \<open>What \<open>os.ReadFile\<close> and \<open>json.Unmarshal\<close> find.\<close>

datatype readres = Missing | ReadFails | Malformed | Decoded snapshot

definition openPath ::
  "string \<Rightarrow> int \<Rightarrow> int \<Rightarrow> readres \<Rightarrow> string list \<Rightarrow> string list \<Rightarrow> gerr + bus" where
  "openPath p mq mb rd bord iord = (case rd of
     Missing \<Rightarrow> Inr (openPersistent p mq mb None bord iord)
   | ReadFails \<Rightarrow> Inl ErrIO
   | Malformed \<Rightarrow> Inl ErrIO
   | Decoded st \<Rightarrow> Inr (openPersistent p mq mb (Some st) bord iord))"

definition pick :: "('k \<rightharpoonup> 'v) \<Rightarrow> 'k list \<Rightarrow> 'v list" where
  "pick m ks = concat (map (\<lambda>k. case m k of None \<Rightarrow> [] | Some v \<Rightarrow> [v]) ks)"

lemma pick_simps [simp]:
  "pick m [] = []" "pick m (k # ks) = (case m k of None \<Rightarrow> [] | Some v \<Rightarrow> [v]) @ pick m ks"
  by (simp_all add: pick_def)

lemma msum_pick:
  assumes "distinct ks"
  shows "(\<Sum>v\<leftarrow>pick m ks. f v) = msum f (m |` set ks)"
  using assms
proof (induction ks)
  case Nil
  then show ?case by simp
next
  case (Cons k ks)
  show ?case
  proof (cases "m k")
    case None
    then have "m |` set (k # ks) = m |` set ks" by (auto simp: restrict_map_def)
    then show ?thesis using Cons None by simp
  next
    case (Some v)
    then have "m |` set (k # ks) = (m |` set ks)(k \<mapsto> v)" by (auto simp: restrict_map_def)
    moreover have "finite (dom (m |` set ks))" by simp
    moreover have "(m |` set ks) k = None" using Cons.prems by (simp add: restrict_map_def)
    ultimately have "msum f (m |` set (k # ks)) = f v + msum f (m |` set ks)"
      by (simp only: msum_insert)
    then show ?thesis using Cons Some by simp
  qed
qed

lemma msum_order:
  assumes "distinct ks" and "set ks = dom m"
  shows "(\<Sum>v\<leftarrow>pick m ks. f v) = msum f m"
proof -
  have "m |` dom m = m" by (auto simp: restrict_map_def fun_eq_iff domIff)
  then show ?thesis using msum_pick [OF assms(1), of f m] assms(2) by simp
qed

lemma fold_index_counts:
  "ix.counts dd M \<Longrightarrow> ix.counts (fold indexAddLocked q dd) (mset q + M)"
proof (induction q arbitrary: dd M)
  case Nil
  then show ?case by simp
next
  case (Cons m q)
  show ?case using Cons.IH [OF ix.counts_add [OF Cons.prems, of m]] by simp
qed

lemma bus_rec_boxes [simp]: "b\<lparr>boxes := boxes b, dedup := dd\<rparr> = b\<lparr>dedup := dd\<rparr>"
  by (cases b) simp

lemma loadBoxes_eq:
  "loadBoxes st ns b = b\<lparr>boxes := (\<lambda>n. if n \<in> set ns \<and> sn_boxes st n \<noteq> None
       then Some \<lparr>bq = the (sn_boxes st n), bwaiters = []\<rparr> else boxes b n),
     dedup := fold indexAddLocked (concat (pick (sn_boxes st) ns)) (dedup b)\<rparr>"
proof (induction ns arbitrary: b)
  case Nil
  then show ?case by simp
next
  case (Cons n ns)
  show ?case
    by (cases "sn_boxes st n")
      (simp_all add: Cons.IH, (rule arg_cong2 [where f = "\<lambda>x y. b\<lparr>boxes := x, dedup := y\<rparr>"]; auto simp: fun_eq_iff)+)
qed

lemma loadInflight_eq:
  "loadInflight st is b = b\<lparr>inflight := (\<lambda>i. if i \<in> set is \<and> sn_inflight st i \<noteq> None
       then sn_inflight st i else inflight b i),
     dedup := fold indexAddLocked (map d_msg (pick (sn_inflight st) is)) (dedup b)\<rparr>"
proof (induction "is" arbitrary: b)
  case Nil
  then show ?case by (cases b) simp
next
  case (Cons i js)
  show ?case
    by (cases "sn_inflight st i")
      (simp_all add: Cons.IH, (rule arg_cong2 [where f = "\<lambda>x y. b\<lparr>inflight := x, dedup := y\<rparr>"]; auto simp: fun_eq_iff)+)
qed

subsection \<open>Restart\<close>

text \<open>The snapshot and the orders of its ranges, as a restart meets them.\<close>

definition ranges :: "snapshot \<Rightarrow> string list \<Rightarrow> string list \<Rightarrow> bool" where
  "ranges st bord iord \<longleftrightarrow> distinct bord \<and> set bord = dom (sn_boxes st) \<and>
     distinct iord \<and> set iord = dom (sn_inflight st)"

definition snap_queued :: "snapshot \<Rightarrow> msg multiset" where
  "snap_queued st = msum mset (sn_boxes st)"

definition snap_leased :: "snapshot \<Rightarrow> msg multiset" where
  "snap_leased st = msum (\<lambda>d. {#d_msg d#}) (sn_inflight st)"

lemma openPersistent_fields:
  assumes r: "ranges st bord iord"
  shows "boxes (openPersistent p mq mb (Some st) bord iord) =
      (\<lambda>n. map_option (\<lambda>q. \<lparr>bq = q, bwaiters = []\<rparr>) (sn_boxes st n))"
    and "inflight (openPersistent p mq mb (Some st) bord iord) = sn_inflight st"
    and "ix.counts (dedup (openPersistent p mq mb (Some st) bord iord)) (snap_queued st + snap_leased st)"
    and "tchan (openPersistent p mq mb (Some st) bord iord) = Map.empty"
    and "closed (openPersistent p mq mb (Some st) bord iord) = False"
    and "disk (openPersistent p mq mb (Some st) bord iord) = Some st"
    and "pubsub_inv (openPersistent p mq mb (Some st) bord iord)"
    and "path (openPersistent p mq mb (Some st) bord iord) = p"
proof -
  let ?b = "openPersistent p mq mb (Some st) bord iord"
  let ?q = "concat (pick (sn_boxes st) bord)" and ?l = "map d_msg (pick (sn_inflight st) iord)"
  have d: "distinct bord" "set bord = dom (sn_boxes st)" "distinct iord" "set iord = dom (sn_inflight st)"
    using r by (simp_all add: ranges_def)
  note defs = openPersistent_def newWithLimits_def loadBoxes_eq loadInflight_eq Let_def
  show "boxes ?b = (\<lambda>n. map_option (\<lambda>q. \<lparr>bq = q, bwaiters = []\<rparr>) (sn_boxes st n))"
    using d(2) by (auto simp: defs fun_eq_iff domIff)
  show "inflight ?b = sn_inflight st" using d(4) by (auto simp: defs fun_eq_iff domIff)
  have "mset ?q = (\<Sum>v\<leftarrow>pick (sn_boxes st) bord. mset v)" by (simp add: mset_concat)
  then have q: "mset ?q = snap_queued st"
    using msum_order [OF d(1,2), of mset] by (simp add: snap_queued_def)
  have "mset ?l = (\<Sum>v\<leftarrow>pick (sn_inflight st) iord. {#d_msg v#})"
    by (induction "pick (sn_inflight st) iord") auto
  then have l: "mset ?l = snap_leased st"
    using msum_order [OF d(3,4), of "\<lambda>d. {#d_msg d#}"] by (simp add: snap_leased_def)
  have "dedup ?b = fold indexAddLocked ?l (fold indexAddLocked ?q Map.empty)"
    by (simp add: defs)
  then show "ix.counts (dedup ?b) (snap_queued st + snap_leased st)"
    using fold_index_counts [OF fold_index_counts [OF counts_empty, of ?q], of ?l] q l
    by (simp add: ac_simps)
  show "pubsub_inv ?b"
    by (simp add: defs pubsub_inv_def subs_ok_def cache_ok_def MaxCachedTopics_def)
qed (simp_all add: openPersistent_def newWithLimits_def loadBoxes_eq loadInflight_eq Let_def)

lemma open_queued:
  assumes r: "ranges st bord iord"
  shows "queued (openPersistent p mq mb (Some st) bord iord) = snap_queued st"
    and "leased (openPersistent p mq mb (Some st) bord iord) = snap_leased st"
    and "transit (openPersistent p mq mb (Some st) bord iord) = {#}"
proof -
  have dm: "dom (\<lambda>n. map_option (\<lambda>q. \<lparr>bq = q, bwaiters = []\<rparr>) (sn_boxes st n)) = dom (sn_boxes st)"
    by (auto simp: domIff)
  show "queued (openPersistent p mq mb (Some st) bord iord) = snap_queued st"
    unfolding queued_def snap_queued_def openPersistent_fields(1) [OF r] msum_def dm
    by (rule sum.cong) (auto simp: domIff)
  show "leased (openPersistent p mq mb (Some st) bord iord) = snap_leased st"
    "transit (openPersistent p mq mb (Some st) bord iord) = {#}"
    using openPersistent_fields [OF r]
    by (simp_all add: leased_def snap_leased_def transit_def)
qed

lemma open_init:
  assumes r: "ranges st bord iord"
    and keys: "\<forall>i d. sn_inflight st i = Some d \<longrightarrow> d_id d = i"
    and names: "\<forall>m\<in>#snap_queued st + snap_leased st. m_name m \<noteq> []"
  shows "init_bus (openPersistent p mq mb (Some st) bord iord)"
proof -
  let ?b = "openPersistent p mq mb (Some st) bord iord"
  note f = openPersistent_fields [OF r]
  have fin: "finite (dom (sn_boxes st))" "finite (dom (sn_inflight st))"
    using r finite_set [of bord] finite_set [of iord] by (simp_all add: ranges_def)
  have dm: "dom (boxes ?b) = dom (sn_boxes st)" unfolding f(1) by (auto simp: domIff)
  have w: "waiters_of ?b n = []" for n
    using f(1) by (cases "sn_boxes st n") (simp_all add: waiters_of_def box_of_def)
  have "bus_inv ?b"
    using f fin dm w keys open_queued [OF r]
    by (simp add: bus_inv_def fin_ok_def waiters_ok_def alloc_ok_def keys_ok_def index_ok_def held_def)
  then show ?thesis
    using f w names open_queued [OF r]
    by (simp add: init_bus_def wake_ok_def jobs_def held_def)
qed

text \<open>A snapshot of a bus is such a file.\<close>

lemma snap_of_sums:
  assumes "finite (dom (boxes b))"
  shows "snap_queued (snap_of b) = queued b" and "snap_leased (snap_of b) = leased b"
proof -
  let ?s = "sn_boxes (snap_of b)"
  have sub: "dom ?s \<subseteq> dom (boxes b)" by (auto simp: snap_of_def split: option.splits)
  have out: "mset (bq (the (boxes b n))) = {#}" if "n \<in> dom (boxes b) - dom ?s" for n
    using that by (auto simp: snap_of_def split: if_splits)
  have "msum mset ?s = (\<Sum>n\<in>dom ?s. mset (bq (the (boxes b n))))"
    unfolding msum_def by (rule sum.cong) (auto simp: snap_of_def split: option.splits if_splits)
  also have "\<dots> = queued b"
    unfolding queued_def msum_def using out by (intro sum.mono_neutral_left [OF assms sub]) auto
  finally show "snap_queued (snap_of b) = queued b" by (simp add: snap_queued_def)
  show "snap_leased (snap_of b) = leased b" by (simp add: snap_leased_def leased_def snap_of_def)
qed

lemma open_q_of:
  assumes r: "ranges st bord iord"
  shows "q_of (openPersistent p mq mb (Some st) bord iord) n = (case sn_boxes st n of None \<Rightarrow> [] | Some q \<Rightarrow> q)"
  using openPersistent_fields(1) [OF r] by (cases "sn_boxes st n") (simp_all add: q_of_def box_of_def)

lemma snap_q: "(case sn_boxes (snap_of b) n of None \<Rightarrow> [] | Some q \<Rightarrow> q) = q_of b n"
  by (simp add: snap_of_def q_of_def box_of_def split: option.split)

lemma restart:
  assumes inv: "bus_inv b" and names: "\<forall>m\<in>#held b. m_name m \<noteq> []"
    and r: "ranges (snap_of b) bord iord"
  shows "q_of (openPersistent p mq mb (Some (snap_of b)) bord iord) = q_of b"
    and "inflight (openPersistent p mq mb (Some (snap_of b)) bord iord) = inflight b"
    and "held (openPersistent p mq mb (Some (snap_of b)) bord iord) = held b"
    and "init_bus (openPersistent p mq mb (Some (snap_of b)) bord iord)"
proof -
  note fin = bus_inv_fin [OF inv] and f = openPersistent_fields [OF r] and o = open_queued [OF r]
  show "q_of (openPersistent p mq mb (Some (snap_of b)) bord iord) = q_of b"
    by (simp add: fun_eq_iff open_q_of [OF r] snap_q)
  show "inflight (openPersistent p mq mb (Some (snap_of b)) bord iord) = inflight b"
    using f(2) by (simp add: snap_of_def)
  show "held (openPersistent p mq mb (Some (snap_of b)) bord iord) = held b"
    using o snap_of_sums [OF fin(1)] by (simp add: held_def)
  show "init_bus (openPersistent p mq mb (Some (snap_of b)) bord iord)"
  proof (rule open_init [OF r])
    show "\<forall>i d. sn_inflight (snap_of b) i = Some d \<longrightarrow> d_id d = i"
      using inv by (simp add: snap_of_def bus_inv_def keys_ok_def)
  qed (use names snap_of_sums [OF fin(1)] in \<open>simp add: held_def\<close>)
qed

end
