(* ===== verification/Bus_Props.thy ===== *)
theory Bus_Props
  imports Store System_Props
begin

text \<open>
  The functional behaviour of each bus operation, on every branch: what \<open>Put\<close> does when it
  accepts, refuses or fails, that a mailbox is a FIFO queue, what the lease operations and the
  expiry sweep do to queues and leases, and what \<open>Close\<close> leaves.
\<close>

subsection \<open>Put\<close>

lemma del_add_index:
  assumes "dd_ok dd"
  shows "indexDelLocked m (indexAddLocked m dd) = dd"
proof -
  have "dd k = Some n \<Longrightarrow> 0 < n" for k n using assms by (cases n) (auto simp: dd_ok_def)
  then show ?thesis
    by (auto simp: indexDelLocked_def indexAddLocked_def Let_def fun_eq_iff split: option.split)
qed

lemma inv_dd_ok: "bus_inv b \<Longrightarrow> \<not> closed b \<Longrightarrow> dd_ok (dedup b)"
  by (simp add: bus_inv_def index_ok_def ix.counts_def)

text \<open>The state a client of the job queues can see.\<close>

definition same_jobs :: "bus \<Rightarrow> bus \<Rightarrow> bool" where
  "same_jobs b b' \<longleftrightarrow> q_of b' = q_of b \<and> waiters_of b' = waiters_of b \<and> inflight b' = inflight b \<and>
     tchan b' = tchan b \<and> dedup b' = dedup b \<and> same_frame b b'"

lemma same_jobs_refl [simp]: "same_jobs b b"
  by (simp add: same_jobs_def)

lemma same_jobs_boxLocked [simp]: "same_jobs b (boxLocked n b')= same_jobs b b'"
  by (simp add: same_jobs_def)

lemma persist_same_jobs [simp]: "same_jobs b (snd (persistLocked io b')) = same_jobs b b'"
  by (simp add: persistLocked_def same_jobs_def)

lemma put_cases:
  assumes inv: "bus_inv b" and p: "put now nid io n m b = Some (r, b')"
  shows "(r \<noteq> None \<longrightarrow> same_jobs b b') \<and>
    (r = None \<longrightarrow>
      (indexedLocked n (m_id (stamp now nid n m)) (dedup b) \<and> same_jobs b b') \<or>
      (\<exists>w ws. waiters_of b n = w # ws \<and> waiters_of b' = (waiters_of b)(n := ws) \<and>
         tchan b' w = Some \<lparr>buf = [stamp now nid n m], chClosed = True\<rparr> \<and> q_of b' = q_of b) \<or>
      (waiters_of b n = [] \<and> int (length (q_of b n)) < maxQueue b \<and>
         q_of b' = (q_of b)(n := q_of b n @ [stamp now nid n m]) \<and> inflight b' = inflight b))"
proof (cases "n = [] \<or> maxBody b < int (length (m_body m)) \<or> closed b")
  case True
  then show ?thesis using p by (auto simp: put_def split: if_splits)
next
  case False
  let ?m = "stamp now nid n m" and ?b = "boxLocked n b"
  have pl: "putLocked io n ?m b = Some (r, b')" using p False by (simp add: put_def)
  show ?thesis
  proof (cases "indexedLocked n (m_id ?m) (dedup b)")
    case True
    then have "r = None \<and> b' = ?b" using pl by (auto simp: putLocked_def Let_def)
    then show ?thesis using True by simp
  next
    case fresh: False
    show ?thesis
    proof (cases "waiters_of b n")
      case (Cons w ws)
      have "bus_inv ?b" by (rule moves_inv [OF moves_boxLocked [OF inv]])
      from hand_off_waiter(1) [OF this, of n w ws ?m] Cons
      have "r = None \<and> b' = (set_waiters n ws ?b)
          \<lparr>tchan := (tchan b)(w \<mapsto> \<lparr>buf = [?m], chClosed = True\<rparr>)\<rparr>"
        using pl fresh by (auto simp: putLocked_def Let_def)
      then show ?thesis using Cons by (auto simp: fun_eq_iff)
    next
      case Nil
      show ?thesis
      proof (cases "maxQueue b \<le> int (length (q_of b n))")
        case True
        then have "r = Some ErrDropped \<and> b' = ?b"
          using pl fresh Nil by (auto simp: putLocked_def Let_def)
        then show ?thesis by simp
      next
        case room: False
        let ?b1 = "index_add ?m (set_q n (q_of b n @ [?m]) ?b)"
        obtain e b2 where pe: "persistLocked io ?b1 = (e, b2)" by fastforce
        show ?thesis
        proof (cases e)
          case None
          then have "r = None \<and> b' = b2" using pl fresh Nil room pe by (auto simp: putLocked_def Let_def)
          moreover obtain ds where "b2 = ?b1\<lparr>disk := ds\<rparr>" using persist_None pe None by metis
          ultimately show ?thesis using Nil room by (auto simp: fun_eq_iff)
        next
          case (Some err)
          then have b2: "b2 = ?b1" and "err = ErrIO" using persist_Some pe by metis+
          then have "r = Some err \<and> b' = index_del ?m (set_q n (q_of b n) ?b1)"
            using pl fresh Nil room pe Some by (auto simp: putLocked_def Let_def)
          then show ?thesis
            using del_add_index [OF inv_dd_ok [OF inv]] False by (simp add: same_jobs_def fun_eq_iff)
        qed
      qed
    qed
  qed
qed


text \<open>A concrete bus: one mailbox with the job \<open>job_a\<close> queued, room for one more.\<close>

definition job_a :: msg where
  "job_a = \<lparr>m_id = ''a'', m_name = ''work'', m_from = [], m_body = ''x'', m_at = 1\<rparr>"

definition job_b :: msg where
  "job_b = \<lparr>m_id = ''b'', m_name = ''work'', m_from = [], m_body = ''y'', m_at = 1\<rparr>"

definition bus_a :: bus where
  "bus_a = (newWithLimits 2 8)\<lparr>boxes := [''work'' \<mapsto> \<lparr>bq = [job_a], bwaiters = []\<rparr>],
     dedup := indexAddLocked job_a Map.empty\<rparr>"

lemma bus_a_fields [simp]:
  "maxQueue bus_a = 2" "maxBody bus_a = 8" "closed bus_a = False" "path bus_a = []"
  "q_of bus_a n = (if n = ''work'' then [job_a] else [])" "waiters_of bus_a n = []"
  "inflight bus_a = Map.empty" "tchan bus_a = Map.empty" "dedup bus_a = indexAddLocked job_a Map.empty"
  "boxes bus_a = [''work'' \<mapsto> \<lparr>bq = [job_a], bwaiters = []\<rparr>]" "subs bus_a = []" "stopped bus_a = False"
  "schan bus_a = Map.empty" "lastv bus_a = Map.empty" "nextT bus_a = 0" "disk bus_a = None"
  by (simp_all add: bus_a_def newWithLimits_def q_of_def waiters_of_def box_of_def)

lemma held_bus_a: "held bus_a = {#job_a#}"
  by (simp add: held_def queued_def leased_def msum_insert)

lemma bus_a_inv: "bus_inv bus_a"
  using ix.counts_add [OF counts_empty, of job_a]
  by (simp add: bus_inv_def fin_ok_def waiters_ok_def alloc_ok_def keys_ok_def index_ok_def held_bus_a)


text \<open>Putting a message again under the id it was queued with returns nil
  and changes nothing, also when the queue is full by then and whatever the file system does.\<close>

theorem put_retry:
  assumes inv: "bus_inv b" and p: "put now nid io n m b = Some (None, b1)"
    and w: "waiters_of b n = []" and i: "m_id m \<noteq> []"
  shows "\<exists>b2. put now' nid' io' n m b1 = Some (None, b2) \<and> same_jobs b1 b2"
proof -
  let ?m = "stamp now nid n m" and ?m' = "stamp now' nid' n m"
  have ids: "m_id ?m = m_id m" "m_id ?m' = m_id m" using i by (simp_all add: stamp_def Let_def)
  have live: "n \<noteq> []" "\<not> maxBody b < int (length (m_body m))" "\<not> closed b"
    using p by (auto simp: put_def split: if_splits)
  obtain r b'' where pp: "put now nid io n m b = Some (r, b'')"
    and mv: "moves b (if r = None \<and> \<not> indexedLocked n (m_id ?m) (dedup b) then {#?m#} else {#}) {#} b''"
    by (rule put_moves [OF inv]) blast
  have inv1: "bus_inv b1" and fr: "same_frame b b1" using mv pp p by (simp_all add: moves_def)
  have "indexedLocked n (m_id m) (dedup b1)"
  proof (cases "indexedLocked n (m_id m) (dedup b)")
    case True
    then show ?thesis
      using p live ids by (auto simp: put_def putLocked_def Let_def)
  next
    case False
    have c: "ix.counts (dedup b1) (held b1)"
      using inv1 fr live by (simp add: bus_inv_def index_ok_def same_frame_def)
    have "q_of b1 n = q_of b n @ [?m]"
      using put_cases [OF inv p] False ids w by auto
    then have "?m \<in># queued b1"
      using queued_split [OF bus_inv_fin(1) [OF inv1], of n] by simp
    moreover have "job_key ?m = Some (dedupKey n (m_id m))"
      using live i by (simp add: job_key_def ids)
    ultimately show ?thesis
      using indexed_iff_counted [OF c live(1) i] by (auto simp: held_def)
  qed
  then show ?thesis
    using live fr ids by (simp add: put_def putLocked_def same_frame_def Let_def)
qed

theorem put_retry_witness:
  "\<exists>b1 b2. put 1 ''i'' True ''work'' job_b bus_a = Some (None, b1) \<and>
     put 7 ''j'' False ''work'' job_b b1 = Some (None, b2) \<and> same_jobs b1 b2"
proof -
  obtain b' where p: "put 1 ''i'' True ''work'' job_b bus_a = Some (None, b')"
    by (auto simp: put_def putLocked_def Let_def persistLocked_def index_add_def set_q_def
        boxLocked_def job_b_def job_a_def indexedLocked_def indexAddLocked_def dedupKey_def stamp_def)
  from put_retry [OF bus_a_inv p, of 7 "''j''" False] p show ?thesis by (simp add: job_b_def)
qed

subsection \<open>A mailbox is a FIFO queue\<close>

text \<open>
  The contract of a queue: \<open>enq\<close> appends when it accepts, \<open>deq\<close> takes the head.  \<open>deqs\<close> and
  \<open>enqs\<close> iterate them; the order of arrival is the order of departure.
\<close>

locale fifo =
  fixes items :: "'s \<Rightarrow> 'a list"
    and ok :: "'s \<Rightarrow> bool"
    and fits :: "'a \<Rightarrow> 's \<Rightarrow> bool"
    and enq :: "'a \<Rightarrow> 's \<Rightarrow> 's option"
    and deq :: "'s \<Rightarrow> ('a \<times> 's) option"
  assumes enq_law: "ok s \<Longrightarrow> fits x s \<Longrightarrow> \<exists>s'. enq x s = Some s' \<and> ok s' \<and> items s' = items s @ [x]"
    and deq_law: "ok s \<Longrightarrow> items s = x # xs \<Longrightarrow> \<exists>s'. deq s = Some (x, s') \<and> ok s' \<and> items s' = xs"
begin

fun deqs :: "nat \<Rightarrow> 's \<Rightarrow> ('a list \<times> 's) option" where
  "deqs 0 s = Some ([], s)"
| "deqs (Suc k) s = (case deq s of None \<Rightarrow> None
     | Some (x, s1) \<Rightarrow> (case deqs k s1 of None \<Rightarrow> None | Some (xs, s2) \<Rightarrow> Some (x # xs, s2)))"

lemma deqs_front:
  "ok s \<Longrightarrow> k \<le> length (items s) \<Longrightarrow>
   \<exists>s'. deqs k s = Some (take k (items s), s') \<and> ok s' \<and> items s' = drop k (items s)"
proof (induction k arbitrary: s)
  case 0
  then show ?case by simp
next
  case (Suc k)
  then obtain x xs where q: "items s = x # xs" by (cases "items s") auto
  then obtain s1 where s1: "deq s = Some (x, s1)" "ok s1" "items s1 = xs" using deq_law Suc.prems by blast
  then obtain s' where "deqs k s1 = Some (take k xs, s')" "ok s'" "items s' = drop k xs"
    using Suc.IH [of s1] Suc.prems q by auto
  then show ?case using s1 q by simp
qed

lemma enq_then_deqs:
  assumes "ok s" and "fits x s"
  shows "\<exists>s' s''. enq x s = Some s' \<and> deqs (Suc (length (items s))) s' = Some (items s @ [x], s'') \<and>
    items s'' = []"
proof -
  obtain s' where s': "enq x s = Some s'" "ok s'" "items s' = items s @ [x]"
    using enq_law [OF assms] by blast
  then show ?thesis using deqs_front [OF s'(2), of "Suc (length (items s))"] by auto
qed

end

text \<open>
  The bus provides it for every mailbox where nobody waits, as long as the file system works and
  no lease has run out (an expired lease comes back at the front).
\<close>

definition no_expiry :: "gotime \<Rightarrow> bus \<Rightarrow> bool" where
  "no_expiry now b \<longleftrightarrow> (\<forall>i d. inflight b i = Some d \<longrightarrow> now \<le> d_expires d)"

definition box_ready :: "gotime \<Rightarrow> string \<Rightarrow> bus \<Rightarrow> bool" where
  "box_ready now n b \<longleftrightarrow> bus_inv b \<and> \<not> closed b \<and> n \<noteq> [] \<and> waiters_of b n = [] \<and> no_expiry now b"

definition box_fits :: "string \<Rightarrow> msg \<Rightarrow> bus \<Rightarrow> bool" where
  "box_fits n m b \<longleftrightarrow> m_name m = n \<and> m_id m \<noteq> [] \<and> m_at m \<noteq> 0 \<and>
     int (length (m_body m)) \<le> maxBody b \<and> \<not> indexedLocked n (m_id m) (dedup b) \<and>
     int (length (q_of b n)) < maxQueue b"

definition put_msg :: "gotime \<Rightarrow> string \<Rightarrow> msg \<Rightarrow> bus \<Rightarrow> bus option" where
  "put_msg now n m b = (case put now [] True n m b of Some (None, b') \<Rightarrow> Some b' | _ \<Rightarrow> None)"

definition take_msg :: "gotime \<Rightarrow> string list \<Rightarrow> string \<Rightarrow> bus \<Rightarrow> (msg \<times> bus) option" where
  "take_msg now ord n b = (case tryTake now ord True n b of Some (Inr m, b') \<Rightarrow> Some (m, b') | _ \<Rightarrow> None)"

lemma nothing_expired:
  "no_expiry now b \<Longrightarrow> requeueExpiredLocked now ord ch b = Some (ch, b)"
proof (induction ord)
  case Nil
  then show ?case by simp
next
  case (Cons i js)
  have "\<not> d_expires d < now" if "inflight b i = Some d" for d
    using Cons.prems that by (fastforce simp: no_expiry_def)
  then show ?case using Cons by (auto split: option.split)
qed

lemma persist_io [simp]: "fst (persistLocked True b) = None"
  by (simp add: persistLocked_def)

lemma put_appends:
  assumes ok: "box_ready now n b" and f: "box_fits n m b"
  shows "\<exists>b'. put_msg now n m b = Some b' \<and> box_ready now n b' \<and> q_of b' n = q_of b n @ [m]"
proof -
  have inv: "bus_inv b" and live: "\<not> closed b" "n \<noteq> []" "waiters_of b n = []"
    using ok by (simp_all add: box_ready_def)
  have s: "stamp now [] n m = m" using f by (cases m) (simp add: stamp_def box_fits_def)
  obtain r b' where p: "put now [] True n m b = Some (r, b')"
    and mv: "moves b (if r = None \<and> \<not> indexedLocked n (m_id (stamp now [] n m)) (dedup b)
                  then {#stamp now [] n m#} else {#}) {#} b'"
    and inf: "inflight b' = inflight b"
    by (rule put_moves [OF inv]) blast
  let ?b1 = "index_add m (set_q n (q_of b n @ [m]) (boxLocked n b))"
  obtain ds where "persistLocked True ?b1 = (None, ?b1\<lparr>disk := ds\<rparr>)"
    using persist_io [of ?b1] persist_shape [of True ?b1] by (metis prod.collapse)
  then have "put now [] True n m b = Some (None, ?b1\<lparr>disk := ds\<rparr>)"
    using f live s by (simp add: put_def putLocked_def Let_def box_fits_def)
  then have r: "r = None" using p by simp
  have q: "q_of b' n = q_of b n @ [m]"
    using put_cases [OF inv p] r f live s by (auto simp: box_fits_def)
  have "waiters_of b' n = []"
    using chan_stepD(1) [OF put_chan [OF p], of _ n] live(3) by (cases "waiters_of b' n") auto
  then have "box_ready now n b'"
    using moves_inv [OF mv] moves_closed [OF mv] live ok inf
    by (simp add: box_ready_def no_expiry_def)
  then show ?thesis using p r q by (simp add: put_msg_def)
qed

lemma take_pops:
  assumes ok: "box_ready now n b" and q: "q_of b n = m # rest"
  shows "\<exists>b'. take_msg now ord n b = Some (m, b') \<and> box_ready now n b' \<and> q_of b' n = rest"
proof -
  have inv: "bus_inv b" and live: "\<not> closed b" "n \<noteq> []" "waiters_of b n = []" and ne: "no_expiry now b"
    using ok by (simp_all add: box_ready_def)
  obtain e b' where pf: "pop_front True n m rest b = (e, b')" by fastforce
  let ?b1 = "index_del m (set_q n rest b)"
  obtain ds where "persistLocked True ?b1 = (None, ?b1\<lparr>disk := ds\<rparr>)"
    using persist_io [of ?b1] persist_shape [of True ?b1] by (metis prod.collapse)
  then have e: "e = None" and b': "b' = ?b1\<lparr>disk := ds\<rparr>" using pf by (simp_all add: pop_front_def)
  have t: "tryTake now ord True n b = Some (Inr m, b')"
    using live q nothing_expired [OF ne, of ord False] pf e by (simp add: tryTake_def)
  have mv: "moves b {#} {#m#} b'" using pop_front_moves [OF inv q, of True] pf e by simp
  have "box_ready now n b'"
    using ok moves_inv [OF mv] moves_closed [OF mv] by (simp add: box_ready_def no_expiry_def b')
  then show ?thesis using t by (simp add: take_msg_def b')
qed

interpretation mailbox: fifo "\<lambda>b. q_of b n" "box_ready now n" "box_fits n" "put_msg now n" "take_msg now ord n"
  for n now ord
  by unfold_locales (use put_appends take_pops in auto)

text \<open>C17 (FIFO). In a mailbox where nobody waits and nothing expires, putting a job and then taking
  as many jobs as there are returns exactly the jobs that were queued, in their order, and then
  the new one, and leaves the mailbox empty.\<close>

theorem mailbox_fifo:
  assumes "box_ready now n b" and "box_fits n m b"
  shows "\<exists>b1 b2. put_msg now n m b = Some b1 \<and>
     fifo.deqs (take_msg now ord n) (Suc (length (q_of b n))) b1 = Some (q_of b n @ [m], b2) \<and>
     q_of b2 n = []"
  by (rule mailbox.enq_then_deqs [OF assms])

theorem mailbox_fifo_witness:
  "\<exists>b1 b2. put_msg 1 ''work'' job_b bus_a = Some b1 \<and>
     fifo.deqs (take_msg 1 [] ''work'') 2 b1 = Some ([job_a, job_b], b2) \<and> q_of b2 ''work'' = []"
proof -
  have "box_ready 1 ''work'' bus_a" by (simp add: box_ready_def no_expiry_def bus_a_inv)
  moreover have "box_fits ''work'' job_b bus_a"
    by (simp add: box_fits_def)
      (simp add: job_b_def job_a_def indexedLocked_def indexAddLocked_def dedupKey_def)
  ultimately show ?thesis
    using mailbox_fifo [of 1 "''work''" bus_a job_b "[]"] by (simp add: numeral_2_eq_2)
qed

subsection \<open>Leases\<close>

text \<open>A \<open>Hold\<close> that succeeds leases the message under a fresh id until \<open>now\<close>
  plus the lease, one minute when the lease is not positive; acknowledging that id removes this
  delivery and no other and the message for good, and a second acknowledgement, and a late
  negative one, find nothing.\<close>

theorem hold_ack:
  assumes inv: "bus_inv b" and f: "inflight b nid = None"
    and h: "hold now nid io m lease b = (Inr d, b1)" and a: "ack io' nid b1 = (r, b2)"
  shows "d = \<lparr>d_id = nid, d_msg = m, d_expires = now + (if lease \<le> 0 then 60000000000 else lease)\<rparr> \<and>
    inflight b1 = (inflight b)(nid \<mapsto> d) \<and> jobs b1 = add_mset m (jobs b) \<and>
    inflight b2 = inflight b \<and> jobs b2 = jobs b \<and>
    ack io' nid b2 = (Some ErrNotFound, b2) \<and> nack io' nid b2 = Some (Some ErrNotFound, b2)"
proof -
  note hm = hold_moves [OF inv f, where now = now and io = io and m = m and lease = lease]
  have mv: "moves b {#m#} {#} b1" and d: "d_msg d = m" "d_id d = nid"
      "d_expires d = now + lease_or_default lease"
    and inf: "inflight b1 = (inflight b)(nid \<mapsto> d)" using hm h by simp_all
  have i: "inflight b1 nid = Some d" by (simp add: inf)
  note am = ack_moves [OF moves_inv [OF mv] i, of io']
  have inf2: "inflight b2 = inflight b" using am(2) a inf f by (simp add: fun_upd_idem)
  have "jobs b1 = add_mset m (jobs b)" using mv by (simp add: moves_def)
  moreover have "jobs b2 = jobs b" using am(1) a mv d by (simp add: moves_def)
  moreover have "d = \<lparr>d_id = nid, d_msg = m,
      d_expires = now + (if lease \<le> 0 then 60000000000 else lease)\<rparr>"
    using d by (cases d) (simp add: lease_or_default_def ns_minute_def ns_second_def)
  ultimately show ?thesis
    using inf inf2 f by (simp add: ack_def nack_def)
qed

lemma hold_job_b: "\<exists>d b1. hold 5 ''L'' True job_b 0 bus_a = (Inr d, b1)"
proof -
  have "m_name job_b \<noteq> []" by (simp add: job_b_def)
  then show ?thesis by (simp add: hold_def Let_def persistLocked_def)
qed

theorem hold_ack_witness:
  "\<exists>d b1 b2. hold 5 ''L'' True job_b 0 bus_a = (Inr d, b1) \<and> d_expires d = 60000000005 \<and>
     fst (ack True ''L'' b1) = None \<and> jobs b2 = jobs bus_a \<and> b2 = snd (ack True ''L'' b1)"
proof -
  obtain d b1 where h: "hold 5 ''L'' True job_b 0 bus_a = (Inr d, b1)"
    using hold_job_b by blast
  obtain r b2 where a: "ack True ''L'' b1 = (r, b2)" by fastforce
  note t = hold_ack [OF bus_a_inv _ h a]
  have "r = None" using t a by (auto simp: ack_def persistLocked_def split: if_splits)
  then show ?thesis using h a t by auto
qed

lemma deliver_queue:
  assumes "waiters_of b (m_name m) = []"
  shows "deliverLocked m b = Some (index_add m (set_q (m_name m) (m # q_of b (m_name m)) (boxLocked (m_name m) b)))"
  using assms by (simp add: deliverLocked_def Let_def)

lemma qw_drop_lease [simp]:
  "q_of (drop_lease i d b) = q_of b" "waiters_of (drop_lease i d b) = waiters_of b"
  "closed (drop_lease i d b) = closed b" "tchan (drop_lease i d b) = tchan b"
  "inflight (drop_lease i d b) = (inflight b)(i := None)"
  by (simp_all add: drop_lease_def)

lemma qw_persist [simp]:
  "q_of (snd (persistLocked io b)) = q_of b" "waiters_of (snd (persistLocked io b)) = waiters_of b"
  "inflight (snd (persistLocked io b)) = inflight b" "tchan (snd (persistLocked io b)) = tchan b"
  by (simp_all add: persistLocked_def)

text \<open>A negative acknowledgement ends the lease and puts the message back first in its
  mailbox - in the channel of the oldest waiting \<open>Take\<close> when there is one, otherwise at the head
  of the queue, even beyond the queue limit - and touches no other mailbox.\<close>

theorem nack_front:
  assumes inv: "bus_inv b" and d: "inflight b i = Some d"
  shows "\<exists>r b'. nack io i b = Some (r, b') \<and> inflight b' = (inflight b)(i := None) \<and> jobs b' = jobs b \<and>
    (case waiters_of b (m_name (d_msg d)) of
       [] \<Rightarrow> q_of b' = (q_of b)(m_name (d_msg d) := d_msg d # q_of b (m_name (d_msg d)))
     | w # ws \<Rightarrow> q_of b' = q_of b \<and> tchan b' w = Some \<lparr>buf = [d_msg d], chClosed = True\<rparr>)"
proof -
  let ?m = "d_msg d" let ?n = "m_name ?m" and ?b = "drop_lease i d b"
  obtain r b' where n: "nack io i b = Some (r, b')" and mv: "moves b {#} {#} b'"
    and inf: "inflight b' = (inflight b)(i := None)"
    by (rule nack_moves [OF inv d, of io]) blast
  obtain b1 where b1: "deliverLocked ?m ?b = Some b1" and b': "b' = snd (persistLocked io b1)"
    using n d by (auto simp: nack_def bind_eq_Some_conv)
  have "case waiters_of b ?n of [] \<Rightarrow> q_of b' = (q_of b)(?n := ?m # q_of b ?n)
     | w # ws \<Rightarrow> q_of b' = q_of b \<and> tchan b' w = Some \<lparr>buf = [?m], chClosed = True\<rparr>"
  proof (cases "waiters_of b ?n")
    case Nil
    then show ?thesis using b1 deliver_queue [of ?b ?m] by (auto simp: b' fun_eq_iff)
  next
    case (Cons w ws)
    have "bus_inv (boxLocked ?n ?b)"
      by (rule moves_inv [OF moves_boxLocked [OF moves_inv [OF moves_drop_lease [OF inv d]]]])
    from hand_off_waiter(1) [OF this, of ?n w ws ?m] Cons b1
    show ?thesis by (auto simp: deliverLocked_def Let_def b' fun_eq_iff)
  qed
  then show ?thesis using n inf mv by (auto simp: moves_def)
qed

theorem nack_front_witness:
  "\<exists>d b1 r b'. hold 5 ''L'' True job_b 0 bus_a = (Inr d, b1) \<and> nack True ''L'' b1 = Some (r, b') \<and>
     q_of b' ''work'' = [job_b, job_a] \<and> inflight b' ''L'' = None"
proof -
  obtain d b1 where h: "hold 5 ''L'' True job_b 0 bus_a = (Inr d, b1)"
    using hold_job_b by blast
  have hm: "moves bus_a {#job_b#} {#} b1 \<and> d_msg d = job_b \<and> inflight b1 = (inflight bus_a)(''L'' \<mapsto> d)"
    using hold_moves [OF bus_a_inv, where nid = "''L''" and now = 5 and io = True and m = job_b and lease = 0] h
    by simp
  have q: "q_of b1 = q_of bus_a" "waiters_of b1 = waiters_of bus_a"
    using h by (auto simp: hold_def persistLocked_def Let_def fun_eq_iff split: if_splits)
  have "\<exists>r b'. nack True ''L'' b1 = Some (r, b') \<and> inflight b' = (inflight b1)(''L'' := None) \<and>
    jobs b' = jobs b1 \<and> (case waiters_of b1 (m_name (d_msg d)) of
       [] \<Rightarrow> q_of b' = (q_of b1)(m_name (d_msg d) := d_msg d # q_of b1 (m_name (d_msg d)))
     | w # ws \<Rightarrow> q_of b' = q_of b1 \<and> tchan b' w = Some \<lparr>buf = [d_msg d], chClosed = True\<rparr>)"
    by (rule nack_front [OF moves_inv]) (use hm in auto)
  then show ?thesis using h hm q by (auto simp: job_b_def)
qed

subsection \<open>Expiry\<close>

definition expired :: "gotime \<Rightarrow> bus \<Rightarrow> string \<Rightarrow> bool" where
  "expired now b i \<longleftrightarrow> (\<exists>d. inflight b i = Some d \<and> d_expires d < now)"

text \<open>The messages that expire into mailbox \<open>n\<close>, latest visited first.\<close>

definition expired_msgs :: "gotime \<Rightarrow> string list \<Rightarrow> string \<Rightarrow> bus \<Rightarrow> msg list" where
  "expired_msgs now ord n b =
     rev (map (\<lambda>i. d_msg (the (inflight b i)))
       (filter (\<lambda>i. expired now b i \<and> m_name (d_msg (the (inflight b i))) = n) ord))"

lemma requeueExpired_queue:
  assumes "bus_inv b" and "distinct ord" and "waiters_of b n = []"
    and "requeueExpiredLocked now ord ch b = Some (r, b')"
  shows "q_of b' n = expired_msgs now ord n b @ q_of b n"
  using assms
proof (induction ord arbitrary: b ch)
  case Nil
  then show ?case by (simp add: expired_msgs_def)
next
  case (Cons i js)
  show ?case
  proof (cases "expired now b i")
    case False
    then have "requeueExpiredLocked now js ch b = Some (r, b')"
      using Cons.prems(4) by (auto simp: expired_def split: option.splits)
    from Cons.IH [OF Cons.prems(1) _ Cons.prems(3) this] Cons.prems(2) False
    show ?thesis by (simp add: expired_msgs_def)
  next
    case True
    then obtain d where d: "inflight b i = Some d" "d_expires d < now" by (auto simp: expired_def)
    obtain b1 where b1: "deliverLocked (d_msg d) (drop_lease i d b) = Some b1"
      and mv: "moves b {#} {#} b1" and inf: "inflight b1 = (inflight b)(i := None)"
      by (rule redeliver_moves [OF Cons.prems(1) d(1)])
    have rest: "requeueExpiredLocked now js True b1 = Some (r, b')"
      using Cons.prems(4) d b1 by (simp add: bind_eq_Some_conv)
    have w: "waiters_of b1 n = []"
      using chan_stepD(1) [OF redeliver_chan [OF b1], of _ n] Cons.prems(3)
      by (cases "waiters_of b1 n") auto
    have same: "filter (\<lambda>i. expired now b1 i \<and> m_name (d_msg (the (inflight b1 i))) = n) js =
        filter (\<lambda>i. expired now b i \<and> m_name (d_msg (the (inflight b i))) = n) js"
      using Cons.prems(2) inf by (intro filter_cong refl) (auto simp: expired_def)
    have "map (\<lambda>i. d_msg (the (inflight b1 i))) (filter P js) =
        map (\<lambda>i. d_msg (the (inflight b i))) (filter P js)" for P
      using Cons.prems(2) inf by (intro map_cong refl) auto
    then have ex: "expired_msgs now js n b1 = expired_msgs now js n b"
      by (simp add: expired_msgs_def same)
    have "q_of b1 n = (if m_name (d_msg d) = n then d_msg d # q_of b n else q_of b n)"
    proof (cases "m_name (d_msg d) = n")
      case True
      then show ?thesis
        using b1 deliver_queue [of "drop_lease i d b" "d_msg d"] Cons.prems(3) by auto
    next
      case False
      then show ?thesis
        using b1 by (auto simp: deliverLocked_def Let_def bind_eq_Some_conv split: list.splits)
    qed
    then show ?thesis
      using Cons.IH [OF moves_inv [OF mv] _ w rest] Cons.prems(2) True d(1) ex
      by (simp add: expired_msgs_def)
  qed
qed

lemma expired_msgs_mset:
  "mset (expired_msgs now ord n b) =
     {#d_msg (the (inflight b i)). i \<in># filter_mset (\<lambda>i. expired now b i \<and>
        m_name (d_msg (the (inflight b i))) = n) (mset ord)#}"
  by (simp add: expired_msgs_def)

text \<open>C18 (expiry). One sweep at time \<open>now\<close> ends exactly the leases whose expiry is before \<open>now\<close>,
  in whatever order the map is visited, loses and duplicates no job, and, in a mailbox where
  nobody waits, puts their messages in front of what was queued.\<close>

theorem expire_exact:
  assumes inv: "bus_inv b" and live: "\<not> closed b" and ord: "distinct ord" "set ord = dom (inflight b)"
    and e: "expireLeases now ord io b = Some b'"
  shows "inflight b' = (\<lambda>i. if expired now b i then None else inflight b i) \<and> jobs b' = jobs b \<and>
    (waiters_of b n = [] \<longrightarrow> q_of b' n = expired_msgs now ord n b @ q_of b n)"
proof -
  obtain x b1 where r: "requeueExpiredLocked now ord False b = Some (x, b1)"
    and mv: "moves b {#} {#} b1"
    and inf: "inflight b1 = (\<lambda>i. case inflight b i of None \<Rightarrow> None
           | Some d \<Rightarrow> if i \<in> set ord \<and> d_expires d < now then None else Some d)"
    by (rule requeueExpired_moves [OF inv, of now ord False]) blast
  have b': "b' = (if x then snd (persistLocked io b1) else b1)"
    using e live r by (auto simp: expireLeases_def)
  have "inflight b1 i = (if expired now b i then None else inflight b i)" for i
    using ord(2) by (auto simp: inf expired_def domIff split: option.split)
  moreover have "jobs b1 = jobs b" using mv by (simp add: moves_def)
  moreover have "jobs b' = jobs b1"
    using persist_shape [of io b1] by (auto simp: b')
  ultimately show ?thesis
    using requeueExpired_queue [OF inv ord(1) _ r] by (auto simp: b' fun_eq_iff)
qed

definition bus_l :: bus where
  "bus_l = bus_a\<lparr>inflight := [''L'' \<mapsto> \<lparr>d_id = ''L'', d_msg = job_b, d_expires = 10\<rparr>],
     dedup := indexAddLocked job_b (dedup bus_a)\<rparr>"

lemma bus_l_inv: "bus_inv bus_l"
  using moves_add_lease [OF bus_a_inv, of "''L''" "\<lparr>d_id = ''L'', d_msg = job_b, d_expires = 10\<rparr>"]
  by (simp add: moves_def bus_l_def index_add_def)

theorem expire_exact_witness:
  "\<exists>b'. expireLeases 11 [''L''] True bus_l = Some b' \<and> inflight b' ''L'' = None \<and>
     q_of b' ''work'' = [job_b, job_a]"
proof -
  obtain b' where e: "expireLeases 11 [''L''] True bus_l = Some b'"
    by (rule expire_moves [OF bus_l_inv, of 11 "[''L'']" True]) blast
  from expire_exact [OF bus_l_inv _ _ _ e, of "''work''"] e show ?thesis
    by (auto simp: bus_l_def expired_def expired_msgs_def job_b_def)
qed

subsection \<open>Reserve\<close>

lemma tryTake_got:
  assumes t: "tryTake now ord io n b = Some (Inr m, b')"
  obtains x b0 rest where "requeueExpiredLocked now ord False b = Some (x, b0)"
    and "q_of b0 n = m # rest" and "pop_front io n m rest b0 = (None, b')"
proof -
  have live: "n \<noteq> []" "\<not> closed b" using t by (auto simp: tryTake_def split: if_splits)
  then obtain x b0 where r: "requeueExpiredLocked now ord False b = Some (x, b0)"
    using t by (auto simp: tryTake_def bind_eq_Some_conv)
  show ?thesis
  proof (cases "q_of b0 n")
    case Nil
    then show ?thesis using t r live by (simp add: tryTake_def)
  next
    case (Cons m' rest)
    obtain e b2 where p: "pop_front io n m' rest b0 = (e, b2)" by fastforce
    then show ?thesis using t r live Cons that [OF r] by (cases e) (auto simp: tryTake_def)
  qed
qed

text \<open>\<open>TryReserve\<close> either leases the head of the queue, as it is after expired leases
  have come back, until \<open>now\<close> plus the lease, or returns an error; in both cases, whichever of
  its file system calls fail, no job is lost or duplicated.\<close>

theorem tryReserve_atomic:
  assumes inv: "bus_inv b" and names: "\<forall>m\<in>#jobs b. m_name m \<noteq> []"
    and fresh: "inflight b nid = None"
    and t: "tryReserve now ord nid io1 io2 io3 n lease b = Some (r, b')"
  shows "jobs b' = jobs b \<and> bus_inv b' \<and>
    (\<forall>d. r = Inr d \<longrightarrow> inflight b' nid = Some d \<and> d_expires d = now + lease_or_default lease \<and>
       (\<exists>x b1 rest. requeueExpiredLocked now ord False b = Some (x, b1) \<and> q_of b1 n = d_msg d # rest \<and>
          q_of b' n = rest))"
proof (cases "n = []")
  case True
  then show ?thesis using t inv by (auto simp: tryReserve_def)
next
  case False
  obtain rt b1 where tt: "tryTake now ord io1 n b = Some (rt, b1)"
    and mv: "moves b {#} (case rt of Inr m \<Rightarrow> {#m#} | Inl e \<Rightarrow> {#}) b1"
    and live: "\<And>m. rt = Inr m \<Longrightarrow> \<not> closed b1"
    by (rule tryTake_moves [OF inv, of now ord io1 n]) blast
  show ?thesis
  proof (cases rt)
    case (Inl e)
    then have "r = Inl e \<and> b' = b1" using t tt False by (auto simp: tryReserve_def)
    then show ?thesis using mv Inl by (simp add: moves_def)
  next
    case (Inr m)
    have jb: "jobs b = add_mset m (jobs b1)" using mv Inr by (simp add: moves_def)
    then have nm: "m_name m \<noteq> []" using names by simp
    have inv1: "bus_inv b1" by (rule moves_inv [OF mv])
    obtain x b0 rest where r0: "requeueExpiredLocked now ord False b = Some (x, b0)"
      and q0: "q_of b0 n = m # rest" and pf: "pop_front io1 n m rest b0 = (None, b1)"
      by (rule tryTake_got [OF tt [unfolded Inr]])
    obtain ds where b1: "b1 = (index_del m (set_q n rest b0))\<lparr>disk := ds\<rparr>"
      using pf persist_shape [of io1 "index_del m (set_q n rest b0)"]
      by (auto simp: pop_front_def split: prod.splits option.splits)
    have f1: "inflight b1 nid = None"
    proof -
      obtain y bz where z: "requeueExpiredLocked now ord False b = Some (y, bz)"
        and inf: "inflight bz = (\<lambda>i. case inflight b i of None \<Rightarrow> None
           | Some d \<Rightarrow> if i \<in> set ord \<and> d_expires d < now then None else Some d)"
        by (rule requeueExpired_moves [OF inv, of now ord False]) blast
      then show ?thesis using r0 fresh by (simp add: b1)
    qed
    have th: "holdOrRequeue now nid io2 io3 (lease_or_default lease) m b1 = Some (r, b')"
      using t tt Inr False by (simp add: tryReserve_def)
    obtain r' b'' where "holdOrRequeue now nid io2 io3 (lease_or_default lease) m b1 = Some (r', b'')"
      and mv2: "moves b1 {#m#} {#} b''"
      by (rule holdOrRequeue_moves [OF inv1 live [OF Inr] nm f1, of now io2 io3 "lease_or_default lease"]) blast
    then have mv2: "moves b1 {#m#} {#} b'" using th by simp
    note hm = hold_moves [OF inv1 f1, where now = now and io = io2 and m = m and lease = "lease_or_default lease"]
    have "inflight b' nid = Some d \<and> d_expires d = now + lease_or_default lease \<and> d_msg d = m \<and>
        q_of b' = q_of b1" if "r = Inr d" for d
    proof -
      have "hold now nid io2 m (lease_or_default lease) b1 = (Inr d, b')"
        using th that by (auto simp: holdOrRequeue_def bind_eq_Some_conv split: sum.splits prod.splits)
      moreover from this have "q_of b' = q_of b1"
        by (auto simp: hold_def persistLocked_def Let_def split: if_splits)
      moreover have "lease_or_default (lease_or_default lease) = lease_or_default lease"
        by (simp add: lease_or_default_def ns_minute_def ns_second_def)
      ultimately show ?thesis using hm by simp
    qed
    then show ?thesis using mv2 jb r0 q0 by (auto simp: moves_def b1)
  qed
qed

theorem tryReserve_atomic_witness:
  "\<exists>d b'. tryReserve 5 [] ''L'' True True True ''work'' 0 bus_a = Some (Inr d, b') \<and>
     d_expires d = 5 + ns_minute \<and> jobs b' = jobs bus_a \<and> q_of b' ''work'' = []"
proof -
  have nm: "m_name job_a \<noteq> []" by (simp add: job_a_def)
  have "\<exists>d b'. tryReserve 5 [] ''L'' True True True ''work'' 0 bus_a = Some (Inr d, b')"
    by (simp add: tryReserve_def tryTake_def pop_front_def persistLocked_def holdOrRequeue_def
        hold_def nm Let_def)
  then obtain d b' where t: "tryReserve 5 [] ''L'' True True True ''work'' 0 bus_a = Some (Inr d, b')"
    by blast
  have "\<forall>m\<in>#jobs bus_a. m_name m \<noteq> []" by (simp add: jobs_def held_bus_a transit_def nm)
  from tryReserve_atomic [OF bus_a_inv this _ t] t show ?thesis
    by (auto simp: lease_or_default_def)
qed

subsection \<open>Close\<close>

text \<open>Closing an open bus makes every blocked \<open>Take\<close> return \<open>ErrClosed\<close>, closes the
  channel of every subscriber without discarding what it buffered, leaves a job already handed to
  a \<open>Take\<close> readable and every lease in place, and makes every later \<open>Put\<close>, \<open>Take\<close>,
  \<open>TryTake\<close>, \<open>Hold\<close>, \<open>Requeue\<close>, \<open>Pub\<close> and \<open>Sub\<close> fail with \<open>ErrClosed\<close>.\<close>

theorem close_releases:
  assumes inv: "bus_inv b" and ps: "pubsub_inv b" and live: "\<not> closed b"
    and ord: "set ord = dom (boxes b)" and c: "closeBus ord b = Some b'"
  shows "(\<forall>n. \<forall>w\<in>set (waiters_of b n). fst (takeRecv w b') = Some (Inl ErrClosed)) \<and>
    (\<forall>s\<in>set (subs b). \<exists>k. schan b (sch s) = Some k \<and> schan b' (sch s) = Some (k\<lparr>chClosed := True\<rparr>)) \<and>
    (\<forall>w k. tchan b w = Some k \<and> buf k \<noteq> [] \<longrightarrow> tchan b' w = Some k) \<and> inflight b' = inflight b \<and>
    (n \<noteq> [] \<and> int (length (m_body m)) \<le> maxBody b \<and> m_name m \<noteq> [] \<longrightarrow>
       put now nid io n m b' = Some (Some ErrClosed, b') \<and>
       takeStart now o2 io n b' = Some (Inl ErrClosed, b') \<and>
       tryTake now o2 io n b' = Some (Inl ErrClosed, b') \<and>
       hold now nid io m lease b' = (Inl ErrClosed, b') \<and>
       requeue io m b' = Some (Some ErrClosed, b') \<and>
       pub now v n m b' = Some (Some ErrClosed, b') \<and>
       (\<exists>ch b2. sub o2 n b' = Some ((Some ErrClosed, ch), b2)))"
proof -
  let ?sc = "\<lambda>w. if w \<in> sch ` set (subs b) then map_option (\<lambda>c. c\<lparr>chClosed := True\<rparr>) (schan b w)
                   else schan b w"
  have b': "b' = b\<lparr>closed := True, tchan := closed_tchan ord b, boxes := emptied_boxes ord b,
     schan := ?sc, subs := [], stopped := True\<rparr>"
    using closeBus_result [OF inv ps live, of ord] c by simp
  have wok: "waiters_ok b" using inv by (simp add: bus_inv_def)
  have "tchan b' w = Some \<lparr>buf = [], chClosed = True\<rparr>" if "w \<in> set (waiters_of b x)" for x w
  proof -
    have "x \<in> set ord" using that ord by (auto simp: waiters_of_def box_of_def split: option.splits)
    then show ?thesis using that by (auto simp: b' closed_tchan_def)
  qed
  then have "fst (takeRecv w b') = Some (Inl ErrClosed)" if "w \<in> set (waiters_of b x)" for x w
    using that by (simp add: takeRecv_def ch_recv_def)
  moreover have "\<exists>k. schan b (sch s) = Some k \<and> schan b' (sch s) = Some (k\<lparr>chClosed := True\<rparr>)"
    if "s \<in> set (subs b)" for s
    using that ps by (auto simp: b' pubsub_inv_def subs_ok_def)
  moreover have "tchan b' w = Some k" if "tchan b w = Some k" "buf k \<noteq> []" for w k
    using waiter_empty [OF wok that] that by (simp add: b' closed_tchan_def)
  moreover have "closed b'" "maxBody b' = maxBody b" "inflight b' = inflight b" by (simp_all add: b')
  ultimately show ?thesis
    by (auto simp: put_def takeStart_def takeChan_def tryTake_def hold_def requeue_def pub_def sub_def Let_def)
qed

lemma bus_w2_ok: "bus_inv bus_w2" "pubsub_inv bus_w2"
  using sys_invD(1,2) [OF reachable_inv [OF w2_reachable]] by simp_all

theorem close_releases_witness:
  "\<exists>b'. closeBus [''work''] bus_w2 = Some b' \<and> fst (takeRecv 0 b') = Some (Inl ErrClosed) \<and>
     fst (takeRecv 1 b') = Some (Inl ErrClosed) \<and>
     put 1 ''i'' True ''work'' job1 b' = Some (Some ErrClosed, b')"
proof -
  obtain b' where c: "closeBus [''work''] bus_w2 = Some b'"
    by (rule closeBus_ok [OF bus_w2_ok, of "[''work'']"]) blast
  have w: "waiters_of bus_w2 ''work'' = [0, 1]" "maxBody bus_w2 = 1048576" "\<not> closed bus_w2"
    "set [''work''] = dom (boxes bus_w2)"
    by (simp_all add: bus_w2_def waiters_of_def box_of_def)
  note t = close_releases [OF bus_w2_ok w(3,4) c, of "''work''" job1 1 "''i''" True "[]" 0 "[]"]
  have "0 \<in> set (waiters_of bus_w2 ''work'')" "1 \<in> set (waiters_of bus_w2 ''work'')"
    by (simp_all add: w)
  then have "fst (takeRecv 0 b') = Some (Inl ErrClosed)" "fst (takeRecv 1 b') = Some (Inl ErrClosed)"
    using t by blast+
  moreover have "put 1 ''i'' True ''work'' job1 b' = Some (Some ErrClosed, b')"
    using t w by (simp add: job1_def)
  ultimately show ?thesis using c by blast
qed

end

