(* ===== verification/Store_Props.thy ===== *)
theory Store_Props
  imports Bus_Props
begin

text \<open>
  What the durable store promises: the file is replaced atomically, a restart rebuilds the bus
  that wrote it, an accepted or acknowledged job is so on disk; and the three places where the
  promise stops.
\<close>

subsection \<open>The file\<close>

text \<open>C12 (crash atomicity). Whatever call of \<open>persistLocked\<close> fails, and whenever the machine
  crashes, before, between or after its calls, the file then holds the previous version or the
  new one, complete: never a mixture, a truncation or nothing.  When it reports an error the
  previous version is what remains, and when it reports success and the directory could be
  synced, the new one.\<close>

theorem persist_crash_atomic:
  assumes s: "settled old fs" and p: "persistFile ok raw fs = (r, tr)"
  shows "(\<forall>fs'\<in>set tr. \<forall>x. survives fs' x \<longrightarrow> x = map_option Some old \<or> x = Some (Some raw)) \<and>
    (r \<noteq> None \<longrightarrow> settled old (last tr)) \<and>
    (r = None \<and> ok SDir \<longrightarrow> settled (Some raw) (last tr))"
proof -
  have "x = map_option Some old \<or> x = Some (Some raw)" if m: "fs' \<in> set tr" and x: "survives fs' x" for fs' x
    using clean_survives [OF persistFile_clean [OF settled_clean [OF s] p m] x] by auto
  moreover note persistFile_end [OF p]
  ultimately show ?thesis using s by (auto simp: settled_def)
qed

theorem persist_crash_atomic_witness:
  "\<exists>tr. persistFile (\<lambda>c. c \<noteq> SRename) (2::nat) \<lparr>main = complete (Some 1), older = [], tmp = None\<rparr> = (Some ErrIO, tr) \<and>
     settled (Some 1) (last tr)"
proof -
  let ?fs = "\<lparr>main = complete (Some (1::nat)), older = [], tmp = None\<rparr>"
  have s: "settled (Some 1) ?fs" by (simp add: settled_def)
  obtain tr where p: "persistFile (\<lambda>c. c \<noteq> SRename) 2 ?fs = (Some ErrIO, tr)"
    by (simp add: persistFile_def Let_def)
  show ?thesis using persist_crash_atomic [OF s p] p by auto
qed

text \<open>The one-flag model of \<open>persistLocked\<close> that the
  bus operations use abstracts the call-by-call one: same result, same file at the end.\<close>

theorem persist_refinement:
  assumes "path b \<noteq> []" and "holds fs = disk b"
    and "persistFile ok (snap_of b) fs = (r, tr)" and "persistLocked (all_ok ok) b = (r', b')"
  shows "r = r' \<and> holds (last tr) = disk b'"
  by (rule persistFile_refines [OF assms])

definition bus_d :: bus where
  "bus_d = bus_l\<lparr>path := ''db''\<rparr>"

lemma bus_d_fields [simp]:
  "path bus_d = ''db''" "closed bus_d = False" "maxQueue bus_d = 2" "maxBody bus_d = 8"
  "q_of bus_d n = (if n = ''work'' then [job_a] else [])" "waiters_of bus_d n = []"
  "inflight bus_d = [''L'' \<mapsto> \<lparr>d_id = ''L'', d_msg = job_b, d_expires = 10\<rparr>]"
  "boxes bus_d = [''work'' \<mapsto> \<lparr>bq = [job_a], bwaiters = []\<rparr>]" "disk bus_d = None"
  "dedup bus_d = indexAddLocked job_b (indexAddLocked job_a Map.empty)"
  by (simp_all add: bus_d_def bus_l_def q_of_def waiters_of_def box_of_def)

lemma bus_d_inv: "bus_inv bus_d"
  using bus_l_inv
  by (simp add: bus_d_def bus_inv_def fin_ok_def waiters_ok_def waiters_of_def box_of_def alloc_ok_def
      keys_ok_def index_ok_def held_def queued_def leased_def)

theorem persist_refinement_witness:
  "\<exists>tr. persistFile (\<lambda>c. True) (snap_of bus_d) \<lparr>main = None, older = [], tmp = None\<rparr> = (None, tr) \<and>
     holds (last tr) = disk (snd (persistLocked True bus_d))"
proof -
  let ?fs = "\<lparr>main = None, older = [], tmp = None\<rparr> :: snapshot fs"
  obtain r tr where p: "persistFile (\<lambda>c. True) (snap_of bus_d) ?fs = (r, tr)" by fastforce
  have "holds ?fs = disk bus_d" by (simp add: holds_def)
  from persist_refinement [OF _ this p, of None "snd (persistLocked True bus_d)"] p show ?thesis
    by (simp add: all_ok_def persistLocked_def)
qed

subsection \<open>Restart\<close>


lemma snap_bus_d:
  "sn_boxes (snap_of bus_d) = [''work'' \<mapsto> [job_a]]"
  "sn_inflight (snap_of bus_d) = [''L'' \<mapsto> \<lparr>d_id = ''L'', d_msg = job_b, d_expires = 10\<rparr>]"
  by (auto simp: snap_of_def fun_eq_iff)

lemma ranges_bus_d: "ranges (snap_of bus_d) [''work''] [''L'']"
  by (simp add: ranges_def snap_bus_d)

lemma held_bus_d: "held bus_d = {#job_a, job_b#}"
  by (simp add: held_def queued_def leased_def msum_insert)


subsection \<open>What a successful call guarantees\<close>

lemma persist_durable:
  "path b \<noteq> [] \<Longrightarrow> persistLocked io b = (None, b') \<Longrightarrow> disk b' = Some (snap_of b')"
  by (auto simp: persistLocked_def snap_of_def split: if_splits)

lemma dom_snap: "dom (sn_boxes (snap_of b)) = {n. q_of b n \<noteq> []}"
  by (auto simp: snap_of_def q_of_def box_of_def split: option.splits if_splits)

lemma put_disk:
  assumes p: "put now nid io n m b = Some (None, b')" and d: "durable b"
    and w: "waiters_of b n = []" and new: "\<not> indexedLocked n (m_id (stamp now nid n m)) (dedup b)"
  shows "disk b' = Some (snap_of b')"
proof -
  let ?m = "stamp now nid n m"
  let ?b1 = "index_add ?m (set_q n (q_of b n @ [?m]) (boxLocked n b))"
  have "putLocked io n ?m b = Some (None, b')" using p by (auto simp: put_def split: if_splits)
  then have "persistLocked io ?b1 = (None, b')"
    using w new by (auto simp: putLocked_def Let_def split: if_splits prod.splits option.splits)
  then show ?thesis
    using d by (intro persist_durable [of ?b1]) (simp_all add: durable_def)
qed

lemma ack_disk:
  "durable b \<Longrightarrow> inflight b i = Some d \<Longrightarrow> ack io i b = (None, b') \<Longrightarrow> disk b' = Some (snap_of b')"
  by (intro persist_durable [of "drop_lease i d b"]) (simp_all add: durable_def drop_lease_def ack_def)

text \<open>C21 (durable Put). On a durable bus, a \<open>Put\<close> that returns nil and queued the job has it on
  disk: a restart from the file finds it last in its mailbox, and every other mailbox as it was.\<close>

theorem put_durable:
  assumes inv: "bus_inv b" and p: "put now nid io n m b = Some (None, b')" and d: "durable b"
    and w: "waiters_of b n = []" and new: "\<not> indexedLocked n (m_id (stamp now nid n m)) (dedup b)"
    and st: "disk b' = Some st" and r: "ranges st bord iord"
  shows "q_of (openPersistent fp mq mb (disk b') bord iord) =
    (q_of b)(n := q_of b n @ [stamp now nid n m])"
proof -
  let ?m = "stamp now nid n m"
  have q: "q_of b' = (q_of b)(n := q_of b n @ [?m])" using put_cases [OF inv p] w new by auto
  have s: "st = snap_of b'" using st put_disk [OF p d w new] by simp
  show ?thesis
  proof
    fix x
    show "q_of (openPersistent fp mq mb (disk b') bord iord) x =
        ((q_of b)(n := q_of b n @ [?m])) x"
      unfolding st using open_q_of [OF r, of fp mq mb x] by (simp add: s snap_q q)
  qed
qed

definition job_c :: msg where
  "job_c = \<lparr>m_id = ''c'', m_name = ''work'', m_from = [], m_body = ''z'', m_at = 1\<rparr>"

theorem put_durable_witness:
  "\<exists>b'. put 1 ''i'' True ''work'' job_c bus_d = Some (None, b') \<and>
     q_of (openPersistent ''db'' 2 8 (disk b') [''work''] [''L'']) ''work'' = [job_a, job_c]"
proof -
  have s: "stamp 1 ''i'' ''work'' job_c = job_c" by (simp add: stamp_def job_c_def)
  have ni: "\<not> indexedLocked ''work'' (m_id job_c) (dedup bus_d)"
    by (simp add: job_a_def job_b_def job_c_def indexedLocked_def indexAddLocked_def dedupKey_def)
  obtain b' where p: "put 1 ''i'' True ''work'' job_c bus_d = Some (None, b')"
    using s ni by (auto simp: put_def putLocked_def Let_def persistLocked_def index_add_def set_q_def
        boxLocked_def job_c_def)
  have q: "q_of b' = (q_of bus_d)(''work'' := [job_a, job_c])"
    using put_cases [OF bus_d_inv p] s ni by auto
  have "inflight b' = inflight bus_d"
    using put_cases [OF bus_d_inv p] s ni by auto
  then have "dom (sn_inflight (snap_of b')) = {''L''}" by (simp add: snap_of_def)
  moreover have "{n. q_of b' n \<noteq> []} = {''work''}" by (auto simp: q)
  ultimately have "ranges (snap_of b') [''work''] [''L'']"
    by (simp add: ranges_def dom_snap)
  moreover have "durable bus_d" by (simp add: durable_def)
  ultimately show ?thesis
    using put_durable [OF bus_d_inv p _ _ _ put_disk [OF p], of "[''work'']" "[''L'']"] p s ni by auto
qed

text \<open>On a durable bus, an \<open>Ack\<close> that returns nil is on disk: after a restart
  the lease is gone and the job is in no queue and no lease, all others being as they were.\<close>

theorem ack_durable:
  assumes inv: "bus_inv b" and names: "\<forall>m\<in>#held b. m_name m \<noteq> []" and dur: "durable b"
    and d: "inflight b i = Some d" and a: "ack io i b = (None, b')"
    and st: "disk b' = Some st" and r: "ranges st bord iord"
  shows "inflight (openPersistent fp mq mb (disk b') bord iord) = (inflight b)(i := None) \<and>
    add_mset (d_msg d) (held (openPersistent fp mq mb (disk b') bord iord)) = held b"
proof -
  have pl: "persistLocked io (drop_lease i d b) = (None, b')" using a d by (simp add: ack_def)
  note dk = ack_disk [OF dur d a]
  note am = ack_moves [OF inv d, of io]
  have inv': "bus_inv b'" and inf: "inflight b' = (inflight b)(i := None)"
    using am a by (simp_all add: moves_def)
  obtain ds where "b' = (drop_lease i d b)\<lparr>disk := ds\<rparr>" using persist_None [OF pl] by blast
  then have h: "add_mset (d_msg d) (held b') = held b"
    using held_drop_lease [OF inv d] by simp
  have "\<forall>m\<in>#held b'. m_name m \<noteq> []" using names h by (metis insert_iff set_mset_add_mset_insert)
  then show ?thesis
    using restart [OF inv', of bord iord fp mq mb] r st dk inf h by simp
qed

theorem ack_durable_witness:
  "\<exists>b'. ack True ''L'' bus_d = (None, b') \<and>
     add_mset job_b (held (openPersistent ''db'' 2 8 (disk b') [''work''] [])) = {#job_a, job_b#}"
proof -
  let ?d = "\<lparr>d_id = ''L'', d_msg = job_b, d_expires = 10\<rparr>"
  have d: "inflight bus_d ''L'' = Some ?d" by simp
  obtain b' where a: "ack True ''L'' bus_d = (None, b')" using d by (simp add: ack_def persistLocked_def drop_lease_def)
  have dur: "durable bus_d" by (simp add: durable_def)
  have "b' = snd (persistLocked True (drop_lease ''L'' ?d bus_d))" using a d by (simp add: ack_def)
  then have q: "q_of b' = q_of bus_d" and "inflight b' = Map.empty" by (simp_all add: fun_eq_iff)
  then have "dom (sn_inflight (snap_of b')) = {}" by (simp add: snap_of_def)
  moreover have "{n. q_of b' n \<noteq> []} = {''work''}" by (auto simp: q)
  ultimately have r: "ranges (snap_of b') [''work''] []"
    by (simp add: ranges_def dom_snap)
  have n: "\<forall>m\<in>#held bus_d. m_name m \<noteq> []" by (simp add: held_bus_d job_a_def job_b_def)
  from ack_durable [OF bus_d_inv n dur d a ack_disk [OF dur d a] r, of "''db''" 2 8] a show ?thesis
    by (simp add: held_bus_d)
qed

subsection \<open>Where durability stops\<close>

text \<open>When \<open>Reserve\<close> on a durable bus has taken the head of a queue and
  not yet leased it, the file already lacks the job in both places: a crash at that point loses
  a job that was accepted and never acknowledged.\<close>

theorem reserve_window:
  assumes inv: "bus_inv b" and dur: "durable b"
    and t: "tryTake now ord io n b = Some (Inr m, b')"
  shows "\<exists>st. disk b' = Some st \<and> add_mset m (snap_queued st + snap_leased st) = held b + transit b - transit b'"
proof -
  obtain r b'' where t': "tryTake now ord io n b = Some (r, b'')"
    and mv0: "moves b {#} (case r of Inr m \<Rightarrow> {#m#} | Inl e \<Rightarrow> {#}) b''"
    by (rule tryTake_moves [OF inv, of now ord io n]) blast
  have "r = Inr m" "b'' = b'" using t t' by simp_all
  then have mv: "moves b {#} {#m#} b'" using mv0 by simp
  obtain x b0 rest where r0: "requeueExpiredLocked now ord False b = Some (x, b0)"
    and pf: "pop_front io n m rest b0 = (None, b')"
    by (rule tryTake_got [OF t])
  obtain z bz where "requeueExpiredLocked now ord False b = Some (z, bz)" and mz: "moves b {#} {#} bz"
    by (rule requeueExpired_moves [OF inv, of now ord False]) blast
  then have "path b0 = path b" using r0 by (simp add: moves_def same_frame_def)
  then have "path (index_del m (set_q n rest b0)) \<noteq> []" using dur by (simp add: durable_def)
  then have dk: "disk b' = Some (snap_of b')"
    using pf by (intro persist_durable [of "index_del m (set_q n rest b0)" io])
      (auto simp: pop_front_def split: prod.splits option.splits)
  have "held b' + transit b' + {#m#} = held b + transit b" using mv by (simp add: moves_def jobs_def)
  then have "add_mset m (held b') = held b + transit b - transit b'"
    by (metis (no_types) add.commute add.left_commute add_diff_cancel_left' add_mset_add_single)
  then show ?thesis
    using dk snap_of_sums [OF bus_inv_fin(1) [OF moves_inv [OF mv]]] by (simp add: held_def)
qed

theorem reserve_window_witness:
  "\<exists>b' st. tryTake 5 [] True ''work'' bus_d = Some (Inr job_a, b') \<and> disk b' = Some st \<and>
     snap_queued st + snap_leased st = {#job_b#}"
proof -
  obtain b' where t: "tryTake 5 [] True ''work'' bus_d = Some (Inr job_a, b')"
    by (simp add: tryTake_def pop_front_def persistLocked_def)
  have "b' = snd (persistLocked True (index_del job_a (set_q ''work'' [] bus_d)))"
    using t by (simp add: tryTake_def pop_front_def persistLocked_def)
  then have "transit b' = transit bus_d" by (simp add: persistLocked_def)
  moreover obtain st where "disk b' = Some st"
    and "add_mset job_a (snap_queued st + snap_leased st) = held bus_d + transit bus_d - transit b'"
    using reserve_window [OF bus_d_inv _ t] by (auto simp: durable_def)
  ultimately show ?thesis using t by (simp add: held_bus_d)
qed

text \<open>On a durable bus a \<open>Put\<close> that finds a waiting \<open>Take\<close>
  returns nil and writes nothing: until the receiver has leased the job the file does not have
  it, and a restart at that point forgets a job that was accepted.\<close>

theorem handoff_not_durable:
  assumes inv: "bus_inv b" and live: "\<not> closed b" and n: "n \<noteq> []"
    and len: "int (length (m_body m)) \<le> maxBody b" and w: "waiters_of b n \<noteq> []"
    and new: "\<not> indexedLocked n (m_id (stamp now nid n m)) (dedup b)"
  shows "\<exists>b'. put now nid io n m b = Some (None, b') \<and> disk b' = disk b \<and>
    jobs b' = add_mset (stamp now nid n m) (jobs b) \<and> held b' = held b"
proof -
  let ?m = "stamp now nid n m" and ?b = "boxLocked n b"
  obtain x xs where ws: "waiters_of b n = x # xs" using w by (auto simp: neq_Nil_conv)
  have inv1: "bus_inv ?b" by (rule moves_inv [OF moves_boxLocked [OF inv]])
  have ws1: "waiters_of ?b n = x # xs" using ws by simp
  let ?b' = "(set_waiters n xs ?b)\<lparr>tchan := (tchan ?b)(x \<mapsto> \<lparr>buf = [?m], chClosed = True\<rparr>)\<rparr>"
  note h = hand_off_waiter [OF inv1 ws1, of ?m]
  have p: "put now nid io n m b = Some (None, ?b')"
    using live n len new ws h(1) by (simp add: put_def putLocked_def Let_def)
  have fin: "finite (dom (boxes b))" "finite (dom (boxes ?b))"
    using bus_inv_fin(1) [OF inv] bus_inv_fin(1) [OF inv1] by simp_all
  have "jobs ?b = jobs b" using moves_boxLocked [OF inv, of n] by (simp add: moves_def)
  then have "jobs ?b' = add_mset ?m (jobs b)" using h(2) by (simp add: moves_def)
  moreover have "held ?b' = held b"
    using fin by (simp add: held_def)
  ultimately show ?thesis using p by (intro exI [of _ ?b']) simp
qed

theorem handoff_not_durable_witness:
  "\<exists>b'. put 1 ''i'' True ''work'' job1 (bus_w2\<lparr>path := ''db''\<rparr>) = Some (None, b') \<and> disk b' = None \<and>
     jobs b' = {#job1#} \<and> held b' = {#}"
proof -
  let ?b = "bus_w2\<lparr>path := ''db''\<rparr>"
  have w: "waiters_of ?b n = waiters_of bus_w2 n" for n by (simp add: waiters_of_def box_of_def)
  have inv: "bus_inv ?b"
    using bus_w2_ok(1)
    by (simp add: bus_inv_def fin_ok_def waiters_ok_def w alloc_ok_def keys_ok_def index_ok_def held_def
        queued_def leased_def)
  have f: "closed ?b = False" "maxBody ?b = 1048576" "dedup ?b = Map.empty" "disk ?b = None"
    "waiters_of ?b ''work'' = [0, 1]" "length (m_body job1) = 1"
    by (simp_all add: bus_w2_def waiters_of_def box_of_def job1_def)
  have e: "held ?b = {#}" "jobs ?b = {#}"
    by (simp_all add: bus_w2_def held_def jobs_def queued_def leased_def transit_def msum_insert fresh_chan_def)
  show ?thesis
    using handoff_not_durable [OF inv, of "''work''" job1 1 "''i''" True] f e by simp
qed

text \<open>\<open>Close\<close> empties the queues in memory and leaves the leases; an
  \<open>Ack\<close> or \<open>Nack\<close> after it - and \<open>hub.Close\<close> closes the bus first and then nacks what its
  sessions hold - still writes the file, so every job that was queued when the bus was closed is
  gone from the durable store: the file is left with the leases and the nacked job alone.\<close>

theorem close_then_nack_overwrites:
  assumes inv: "bus_inv b" and ps: "pubsub_inv b" and live: "\<not> closed b" and dur: "durable b"
    and ord: "set ord = dom (boxes b)" and c: "closeBus ord b = Some b1"
    and d: "inflight b i = Some d" and n: "nack True i b1 = Some (r, b2)"
  shows "\<exists>st. disk b2 = Some st \<and> snap_queued st = {#d_msg d#} \<and>
    add_mset (d_msg d) (snap_leased st) = leased b"
proof -
  note cj = close_jobs [OF inv ps ord c live]
  have inv1: "bus_inv b1"
    by (rule closeBus_ok [OF inv ps, of ord]) (use c in simp)
  have d1: "inflight b1 i = Some d" using d cj(3) by simp
  have p1: "durable b1" using closeBus_result [OF inv ps live, of ord] c dur by (auto simp: durable_def)
  let ?b = "drop_lease i d b1"
  let ?n = "m_name (d_msg d)"
  let ?b2 = "index_add (d_msg d) (set_q ?n (d_msg d # q_of ?b ?n) (boxLocked ?n ?b))"
  have dl: "deliverLocked (d_msg d) ?b = Some ?b2" by (rule deliver_queue) (simp add: cj(6))
  then have b2: "persistLocked True ?b2 = (r, b2)" using n d1 by (simp add: nack_def)
  then have r: "r = None" using persist_io [of ?b2] by simp
  have "path ?b2 \<noteq> []" using p1 by (simp add: durable_def drop_lease_def)
  then have dk: "disk b2 = Some (snap_of b2)" using persist_durable b2 r by blast
  have fin: "finite (dom (boxes b1))" "finite (dom (inflight b1))" by (rule bus_inv_fin [OF inv1])+
  have fb: "finite (dom (boxes ?b))" "finite (dom (boxes (boxLocked ?n ?b)))"
    using fin(1) by (simp_all add: drop_lease_def boxes_boxLocked)
  have qb: "queued ?b = {#}" using cj(2) by (simp add: drop_lease_def queued_def)
  have "queued ?b2 = add_mset (d_msg d) (queued (boxLocked ?n ?b))"
    using queued_more [OF fb(2), of "d_msg d # q_of ?b ?n" "d_msg d" ?n] by simp
  then have "queued ?b2 = {#d_msg d#}" using qb fb(1) by simp
  moreover have "leased b = add_mset (d_msg d) (leased ?b2)"
    using leased_drop [OF fin(2) d1] cj(3) by (simp add: leased_def drop_lease_def)
  moreover obtain ds where "b2 = ?b2\<lparr>disk := ds\<rparr>" using persist_None b2 r by metis
  then have "queued b2 = queued ?b2" "leased b2 = leased ?b2" by simp_all
  moreover have "finite (dom (boxes b2))"
  proof -
    obtain r' b2' where "nack True i b1 = Some (r', b2')" and mv: "moves b1 {#} {#} b2'"
      by (rule nack_moves [OF inv1 d1, of True]) blast
    then show ?thesis using n bus_inv_fin(1) [OF moves_inv [OF mv]] by simp
  qed
  ultimately show ?thesis using dk snap_of_sums [of b2] by simp
qed

lemma bus_d_pubsub: "pubsub_inv bus_d"
  by (simp add: bus_d_def bus_l_def bus_a_def newWithLimits_def pubsub_inv_def subs_ok_def cache_ok_def
      MaxCachedTopics_def)

theorem close_then_nack_overwrites_witness:
  "\<exists>b1 r b2 st. closeBus [''work''] bus_d = Some b1 \<and> nack True ''L'' b1 = Some (r, b2) \<and>
     queued bus_d = {#job_a#} \<and> disk b2 = Some st \<and> snap_queued st = {#job_b#}"
proof -
  obtain b1 where c: "closeBus [''work''] bus_d = Some b1"
    by (rule closeBus_ok [OF bus_d_inv bus_d_pubsub, of "[''work'']"]) blast
  have o: "set [''work''] = dom (boxes bus_d)" by simp
  have inv1: "bus_inv b1"
    by (rule closeBus_ok [OF bus_d_inv bus_d_pubsub, of "[''work'']"]) (use c in simp)
  have "inflight b1 = inflight bus_d"
    by (rule close_jobs(3) [OF bus_d_inv bus_d_pubsub o c]) simp
  then have d1: "inflight b1 ''L'' = Some \<lparr>d_id = ''L'', d_msg = job_b, d_expires = 10\<rparr>" by simp
  obtain r b2 where n: "nack True ''L'' b1 = Some (r, b2)"
    by (rule nack_moves [OF inv1 d1, of True]) blast
  have "queued bus_d = {#job_a#}" by (simp add: queued_def msum_insert)
  then show ?thesis
    using close_then_nack_overwrites [OF bus_d_inv bus_d_pubsub _ _ o c _ n] c n
    by (auto simp: durable_def)
qed

end
