(* ===== verification/PubSub_Props.thy ===== *)
theory PubSub_Props
  imports Bus_Props
begin

text \<open>
  The lossy half of the bus: who receives a publication, what a new subscriber is replayed, how
  large the cache and the buffers get, and that ending a subscription closes its channel once.
\<close>

text \<open>C34 (fan-out). A publication that is accepted reaches every subscriber whose prefix the topic
  starts with and whose buffer has room, at the end of the buffer, and no other; a full
  subscriber loses this one message only; and it becomes the last value of its topic.\<close>

theorem pub_fanout:
  assumes inv: "pubsub_inv b" and p: "pub now victim topic m b = Some (None, b')"
    and s: "s \<in> set (subs b)" and c: "schan b (sch s) = Some c"
  shows "schan b' (sch s) = Some (c\<lparr>buf :=
      if (\<exists>rest. topic = sprefix s @ rest) \<and> length (buf c) < 64
      then buf c @ [pubStamp now topic m] else buf c\<rparr>) \<and>
    lastv b' topic = Some (pubStamp now topic m) \<and> subs b' = subs b \<and> jobs b' = jobs b"
proof -
  let ?m = "pubStamp now topic m"
  have sok: "subs_ok b" using inv by (simp add: pubsub_inv_def)
  have g: "\<not> closed b" "topic \<noteq> []" "int (length (m_body m)) \<le> maxBody b"
    using p by (auto simp: pub_def split: if_splits)
  have b': "b' = b\<lparr>lastv := (evict victim topic (lastv b))(topic \<mapsto> ?m),
      schan := fanout topic ?m (subs b) (schan b)\<rparr>"
    using pub_result [OF sok g, of now victim] p by simp
  have uniq: "s' = s" if "s' \<in> set (subs b)" "sch s' = sch s" for s'
    using sok s that by (auto simp: subs_ok_def distinct_map inj_on_def)
  have "fanout topic ?m (subs b) (schan b) (sch s) =
      (if matchTopic topic (sprefix s) then Some (offer ?m c) else Some c)"
    using uniq s c by (auto simp: fanout_def)
  then show ?thesis
    by (simp add: b' matchTopic_iff offer_def SubBuffer_def)
qed

definition note1 :: msg where
  "note1 = \<lparr>m_id = ''n'', m_name = ''a/b'', m_from = [], m_body = ''x'', m_at = 1\<rparr>"

definition bus_s :: bus where
  "bus_s = newBus\<lparr>subs := [\<lparr>sprefix = ''a/'', sch = 0\<rparr>], schan := [0 \<mapsto> fresh_chan], nextS := 1\<rparr>"

lemma bus_s_ok: "pubsub_inv bus_s"
  by (auto simp: bus_s_def pubsub_inv_def subs_ok_def cache_ok_def fresh_chan_def MaxCachedTopics_def)

theorem pub_fanout_witness:
  "\<exists>b'. pub 1 [] ''a/b'' note1 bus_s = Some (None, b') \<and>
     schan b' 0 = Some \<lparr>buf = [note1], chClosed = False\<rparr> \<and> lastv b' ''a/b'' = Some note1"
proof -
  have st: "pubStamp 1 ''a/b'' note1 = note1" by (simp add: pubStamp_def note1_def)
  have sok: "subs_ok bus_s" using bus_s_ok by (simp add: pubsub_inv_def)
  obtain b' where p: "pub 1 [] ''a/b'' note1 bus_s = Some (None, b')"
    using pub_result [OF sok, of "''a/b''" note1 1 "[]"] by (simp add: bus_s_def note1_def)
  from pub_fanout [OF bus_s_ok p, of "\<lparr>sprefix = ''a/'', sch = 0\<rparr>" fresh_chan] p st show ?thesis
    by (simp add: bus_s_def fresh_chan_def)
qed

text \<open>In every reachable state the last-value cache holds at most 4096 topics, each
  under its own name, and no subscriber's buffer more than 64 messages.\<close>

theorem pubsub_bounded:
  assumes "reachable s"
  shows "card (dom (lastv (sbus s))) \<le> 4096 \<and>
    (\<forall>t m. lastv (sbus s) t = Some m \<longrightarrow> m_name m = t) \<and>
    (\<forall>w c. schan (sbus s) w = Some c \<longrightarrow> length (buf c) \<le> 64)"
  using sys_invD(2) [OF reachable_inv [OF assms]]
  by (simp add: pubsub_inv_def subs_ok_def cache_ok_def MaxCachedTopics_def SubBuffer_def)

theorem pubsub_bounded_witness:
  "card (dom (lastv (sbus run1))) \<le> 4096"
  using pubsub_bounded [OF run1_reachable] by blast

text \<open>A new subscriber starts with a fresh open channel that holds the last value of
  every cached topic its prefix matches, each once, in the order Go visits the cache, cut at 64;
  when at most 64 match, it holds exactly these.\<close>

theorem sub_replays:
  assumes inv: "pubsub_inv b" and live: "\<not> closed b"
    and ord: "distinct ord" "set ord = dom (lastv b)"
    and s: "sub ord pre b = Some ((r, ch), b')"
  shows "r = None \<and> schan b ch = None \<and> subs b' = subs b @ [\<lparr>sprefix = pre, sch = ch\<rparr>] \<and>
    (\<exists>ts. distinct ts \<and> set ts = {t \<in> dom (lastv b). \<exists>rest. t = pre @ rest} \<and>
       schan b' ch = Some \<lparr>buf = take 64 (map (\<lambda>t. the (lastv b t)) ts), chClosed = False\<rparr>)"
proof -
  let ?ts = "filter (\<lambda>t. lastv b t \<noteq> None \<and> matchTopic t pre) ord"
  note res = sub_result [OF live, of ord pre]
  have ch: "ch = nextS b" and r: "r = None" using res s by simp_all
  have "distinct ?ts" using ord by simp
  moreover have "set ?ts = {t \<in> dom (lastv b). \<exists>rest. t = pre @ rest}"
    using ord by (auto simp: matchTopic_iff domIff)
  moreover have "schan b' ch = Some \<lparr>buf = take 64 (map (\<lambda>t. the (lastv b t)) ?ts), chClosed = False\<rparr>"
    using res s by (auto simp: replay_list_def SubBuffer_def)
  moreover have "schan b ch = None" using inv by (simp add: ch pubsub_inv_def subs_ok_def)
  moreover have "subs b' = subs b @ [\<lparr>sprefix = pre, sch = ch\<rparr>]" using res s by auto
  ultimately show ?thesis using r by blast
qed

theorem sub_replays_witness:
  "\<exists>ch b'. sub [''a/b''] ''a/'' (newBus\<lparr>lastv := [''a/b'' \<mapsto> note1]\<rparr>) = Some ((None, ch), b') \<and>
     (\<exists>ts. distinct ts \<and> set ts = {''a/b''} \<and>
        schan b' ch = Some \<lparr>buf = take 64 (map (\<lambda>t. the ([''a/b'' \<mapsto> note1] t)) ts), chClosed = False\<rparr>)"
proof -
  let ?b = "newBus\<lparr>lastv := [''a/b'' \<mapsto> note1]\<rparr>"
  have inv: "pubsub_inv ?b"
    by (simp add: pubsub_inv_def subs_ok_def cache_ok_def MaxCachedTopics_def note1_def)
  obtain ch b' where s: "sub [''a/b''] ''a/'' ?b = Some ((None, ch), b')"
    using sub_result [of ?b "[''a/b'']" "''a/''"] by simp
  have "{t \<in> dom (lastv ?b). \<exists>rest. t = ''a/'' @ rest} = {''a/b''}" by (auto simp: domIff)
  with sub_replays [OF inv _ _ _ s] s show ?thesis by simp
qed

text \<open>Ending a subscription removes it and closes its channel, keeping what is
  buffered and every other subscription; doing it again, or after \<open>Close\<close>, changes nothing, so
  a channel is never closed twice.\<close>

theorem unsub_once:
  assumes inv: "pubsub_inv b" and u: "unsub ch b = Some b1"
  shows "ch \<notin> sch ` set (subs b1) \<and> subs b1 = filter (\<lambda>s. sch s \<noteq> ch) (subs b) \<and>
    (\<forall>s\<in>set (subs b1). schan b1 (sch s) = schan b (sch s)) \<and>
    (ch \<in> sch ` set (subs b) \<longrightarrow>
       (\<exists>c. schan b ch = Some c \<and> schan b1 ch = Some (c\<lparr>chClosed := True\<rparr>))) \<and>
    unsub ch b1 = Some b1"
proof -
  have sok: "subs_ok b" using inv by (simp add: pubsub_inv_def)
  have b1: "b1 = b\<lparr>subs := filter (\<lambda>s. sch s \<noteq> ch) (subs b),
     schan := if ch \<in> sch ` set (subs b)
              then (schan b)(ch := map_option (\<lambda>c. c\<lparr>chClosed := True\<rparr>) (schan b ch))
              else schan b\<rparr>"
    using unsub_result [OF sok, of ch] u by simp
  have nin: "ch \<notin> sch ` set (subs b1)" by (auto simp: b1)
  have loop: "unsubLoop ch ss st = Some (ss, st)" if "ch \<notin> sch ` set ss" for ss and st :: "msg chans"
    using that by (induction ss) auto
  have "unsub ch b1 = Some b1"
    using loop [OF nin] by (simp add: unsub_def)
  moreover have "\<exists>c. schan b ch = Some c \<and> schan b1 ch = Some (c\<lparr>chClosed := True\<rparr>)"
    if i: "ch \<in> sch ` set (subs b)"
  proof -
    obtain c where "schan b ch = Some c" using i sok by (auto simp: subs_ok_def)
    then show ?thesis using i by (simp add: b1)
  qed
  moreover have "schan b1 (sch s) = schan b (sch s)" if "s \<in> set (subs b1)" for s
    using that by (auto simp: b1)
  ultimately show ?thesis using nin by (auto simp: b1)
qed

theorem unsub_once_witness:
  "\<exists>b1. unsub 0 bus_s = Some b1 \<and> subs b1 = [] \<and>
     schan b1 0 = Some \<lparr>buf = [], chClosed = True\<rparr> \<and> unsub 0 b1 = Some b1"
proof -
  obtain b1 where u: "unsub 0 bus_s = Some b1"
    using unsub_result [of bus_s 0] bus_s_ok by (simp add: pubsub_inv_def)
  from unsub_once [OF bus_s_ok u] u show ?thesis by (auto simp: bus_s_def fresh_chan_def)
qed

text \<open>Two mailbox names without a NUL byte give different dedup keys for every
  choice of ids, so a message in one mailbox never suppresses a \<open>Put\<close> in another.\<close>

theorem dedupKey_separates:
  assumes "CHR 0x00 \<notin> set n" and "CHR 0x00 \<notin> set n'" and "(n, i) \<noteq> (n', i')"
  shows "dedupKey n i \<noteq> dedupKey n' i'"
  using dedupKey_inject [OF assms(1,2)] assms(3) by simp

theorem dedupKey_separates_witness: "dedupKey ''ab'' ''c'' \<noteq> dedupKey ''a'' ''bc''"
  by (rule dedupKey_separates) simp_all

text \<open>Mailbox names come from JSON strings and may contain a NUL: then two
  different mailboxes and ids share a key, and a \<open>Put\<close> to one of them is answered with success
  and dropped because of a job in the other.\<close>

theorem dedupKey_collision:
  "\<exists>n i n' i' b m b'. n \<noteq> n' \<and> bus_inv b \<and> \<not> closed b \<and> q_of b n = [] \<and> inflight b = Map.empty \<and>
     m_id m = i \<and> dedupKey n i = dedupKey n' i' \<and> (\<exists>x\<in>set (q_of b n'). m_id x = i') \<and>
     put 1 ''i'' True n m b = Some (None, b') \<and> q_of b' n = [] \<and> jobs b' = jobs b"
proof -
  let ?n = "''work'' @ [CHR 0x00]" and ?i = "CHR ''x'' # []"
  let ?q = "job_a\<lparr>m_id := CHR 0x00 # ?i\<rparr>"
  let ?b = "bus_a\<lparr>boxes := [''work'' \<mapsto> \<lparr>bq = [?q], bwaiters = []\<rparr>], dedup := indexAddLocked ?q Map.empty\<rparr>"
  let ?m = "job_a\<lparr>m_id := ?i\<rparr>"
  have q: "q_of ?b x = (if x = ''work'' then [?q] else [])" "waiters_of ?b x = []" for x
    by (simp_all add: q_of_def waiters_of_def box_of_def)
  have h: "held ?b = {#?q#}" by (simp add: held_def queued_def leased_def msum_insert)
  have inv: "bus_inv ?b"
    using ix.counts_add [OF counts_empty, of ?q] q
    by (simp add: bus_inv_def fin_ok_def waiters_ok_def alloc_ok_def keys_ok_def index_ok_def h)
  have k: "dedupKey ?n ?i = dedupKey ''work'' (CHR 0x00 # ?i)" by (simp add: dedupKey_def)
  have "m_id (stamp 1 ''i'' ?n ?m) = ?i" by (simp add: stamp_def Let_def)
  moreover have "indexedLocked ?n ?i (dedup ?b)"
    by (simp add: indexedLocked_def indexAddLocked_def job_a_def dedupKey_def)
  ultimately have p: "put 1 ''i'' True ?n ?m ?b = Some (None, boxLocked ?n ?b)"
    by (simp add: put_def putLocked_def job_a_def)
  have "jobs (boxLocked ?n ?b) = jobs ?b" using moves_boxLocked [OF inv, of ?n] by (simp add: moves_def)
  then show ?thesis
    using inv q k p
    by (intro exI [of _ ?n] exI [of _ ?i] exI [of _ "''work''"] exI [of _ "CHR 0x00 # ?i"]
        exI [of _ ?b] exI [of _ ?m] exI [of _ "boxLocked ?n ?b"]) simp
qed

end
