(* ===== verification/Sweeper.thy ===== *)
theory Sweeper
  imports System_Props
begin

text \<open>
  The life of a bus: the sweeper goroutine that \<open>New\<close> starts, and the calls of \<open>Close\<close>.  The
  first call of \<open>Close\<close> closes the bus in one critical section, then closes the channel
  \<open>stop\<close>, and then waits for the sweeper; every other call returns at once.  All other
  goroutines are those of \<open>Bus_System\<close>.
\<close>

datatype close_pc = CStop   \<comment> \<open>after the critical section, before \<open>close(stop)\<close>\<close>
  | CWait                   \<comment> \<open>in \<open>b.wg.Wait()\<close>\<close>
  | CDone

record life =
  l_sys :: sys
  l_stop :: bool       \<comment> \<open>the channel \<open>stop\<close> is closed\<close>
  l_sweeper :: bool    \<comment> \<open>the sweeper runs\<close>
  l_close :: "nat \<rightharpoonup> close_pc"

abbreviation l_closed :: "life \<Rightarrow> bool" where
  "l_closed x \<equiv> closed (sbus (l_sys x))"

definition startSweeper :: "bus \<Rightarrow> life" where
  "startSweeper b = \<lparr>l_sys = init_sys b, l_stop = False, l_sweeper = True, l_close = Map.empty\<rparr>"

text \<open>The \<open>select\<close> of the sweeper may prefer the ticker even when \<open>stop\<close> is closed.\<close>

inductive life_step :: "life \<Rightarrow> life \<Rightarrow> bool" where
  tick: "l_sweeper x \<Longrightarrow> expireLeases now od io (sbus (l_sys x)) = Some b \<Longrightarrow>
    life_step x (x\<lparr>l_sys := (l_sys x)\<lparr>sbus := b\<rparr>\<rparr>)"
| swept: "l_sweeper x \<Longrightarrow> l_stop x \<Longrightarrow> life_step x (x\<lparr>l_sweeper := False\<rparr>)"
| other: "sys_step (l_sys x) s \<Longrightarrow> closed (sbus s) = l_closed x \<Longrightarrow> life_step x (x\<lparr>l_sys := s\<rparr>)"
| close_first: "l_close x c = None \<Longrightarrow> \<not> l_closed x \<Longrightarrow> set od = dom (boxes (sbus (l_sys x))) \<Longrightarrow>
    closeBus od (sbus (l_sys x)) = Some b \<Longrightarrow>
    life_step x (x\<lparr>l_sys := (l_sys x)\<lparr>sbus := b, lost := lost (l_sys x) + queued (sbus (l_sys x))\<rparr>,
      l_close := (l_close x)(c \<mapsto> CStop)\<rparr>)"
| close_again: "l_close x c = None \<Longrightarrow> l_closed x \<Longrightarrow> life_step x (x\<lparr>l_close := (l_close x)(c \<mapsto> CDone)\<rparr>)"
| close_stop: "l_close x c = Some CStop \<Longrightarrow> \<not> l_stop x \<Longrightarrow>
    life_step x (x\<lparr>l_stop := True, l_close := (l_close x)(c \<mapsto> CWait)\<rparr>)"
| close_wait: "l_close x c = Some CWait \<Longrightarrow> \<not> l_sweeper x \<Longrightarrow>
    life_step x (x\<lparr>l_close := (l_close x)(c \<mapsto> CDone)\<rparr>)"

inductive life_reach :: "life \<Rightarrow> bool" where
  life_init: "init_bus b \<Longrightarrow> life_reach (startSweeper b)"
| life_next: "life_reach x \<Longrightarrow> life_step x x' \<Longrightarrow> life_reach x'"

subsection \<open>The invariant\<close>

text \<open>One call has closed the bus; all others have returned.\<close>

definition closer :: "life \<Rightarrow> nat \<Rightarrow> bool" where
  "closer x c \<longleftrightarrow> (\<forall>d. d \<noteq> c \<longrightarrow> l_close x d = None \<or> l_close x d = Some CDone) \<and>
     (case l_close x c of
        None \<Rightarrow> False
      | Some CStop \<Rightarrow> \<not> l_stop x \<and> l_sweeper x
      | Some CWait \<Rightarrow> l_stop x
      | Some CDone \<Rightarrow> l_stop x \<and> \<not> l_sweeper x)"

lemma closer_sys [simp]: "closer (x\<lparr>l_sys := s\<rparr>) = closer x"
  by (rule ext) (simp add: closer_def split: option.split close_pc.split)

definition life_ok :: "life \<Rightarrow> bool" where
  "life_ok x \<longleftrightarrow> reachable (l_sys x) \<and>
     (if l_closed x then \<exists>c. closer x c else l_close x = Map.empty \<and> \<not> l_stop x \<and> l_sweeper x)"

text \<open>A call that has not returned is the one that closed the bus.\<close>

lemma closer_is: "life_ok x \<Longrightarrow> l_close x c = Some p \<Longrightarrow> p \<noteq> CDone \<Longrightarrow> l_closed x \<and> closer x c"
  by (metis closer_def life_ok_def option.distinct(1) option.inject)

lemma sys_close:
  assumes "set od = dom (boxes (sbus s))" and "closeBus od (sbus s) = Some b" and "\<not> closed (sbus s)"
  shows "sys_step s (s\<lparr>sbus := b, lost := lost s + queued (sbus s)\<rparr>)"
  using sys_step.close [OF assms(1,2)] assms(3) by simp

lemma sys_expire: "expireLeases now od io (sbus s) = Some b \<Longrightarrow> sys_step s (s\<lparr>sbus := b\<rparr>)"
  using sys_step.call [OF op_expire] by fastforce

lemma expire_closed: "expireLeases now od io b = Some b' \<Longrightarrow> bus_inv b \<Longrightarrow> closed b' = closed b"
  by (rule expire_moves [of b now od io]) (auto dest: moves_closed)

lemma life_ok_step:
  assumes ok: "life_ok x" and st: "life_step x x'"
  shows "life_ok x'"
  using st
proof cases
  case (tick now od io b)
  have "closed b = l_closed x"
    by (rule expire_closed [OF tick(3) sys_invD(1) [OF reachable_inv]]) (use ok in \<open>simp add: life_ok_def\<close>)
  then show ?thesis using ok reachable.step [OF _ sys_expire [OF tick(3)]]
    by (auto simp: life_ok_def tick(1))
next
  case swept
  have cl: "l_closed x" using ok swept(3) by (auto simp: life_ok_def split: if_splits)
  then obtain c where c: "closer x c" using ok by (auto simp: life_ok_def)
  then have "closer x' c" using swept by (auto simp: closer_def split: option.splits close_pc.splits)
  then show ?thesis using ok cl by (auto simp: life_ok_def swept(1))
next
  case (other s)
  then show ?thesis using ok reachable.step by (auto simp: life_ok_def)
next
  case (close_first c od b)
  have r: "reachable (l_sys x)" using ok by (simp add: life_ok_def)
  note i = sys_invD(1,2) [OF reachable_inv [OF r]]
  have "closed b" by (rule closeBus_ok [OF i, of od]) (use close_first(5) in simp)
  moreover have "closer x' c" using ok close_first(1,3) by (auto simp: life_ok_def closer_def)
  ultimately show ?thesis using reachable.step [OF r sys_close [OF close_first(4,5,3)]]
    by (auto simp: life_ok_def close_first(1))
next
  case (close_again c)
  obtain c0 where c0: "closer x c0" using ok close_again by (auto simp: life_ok_def)
  have "c \<noteq> c0" using c0 close_again(2) by (auto simp: closer_def)
  then have "closer x' c0" using c0 by (auto simp: closer_def close_again(1) split: option.splits close_pc.splits)
  then show ?thesis using ok close_again(1,3) by (auto simp: life_ok_def)
next
  case (close_stop c)
  then have "l_closed x \<and> closer x c" using closer_is [OF ok] by blast
  moreover from this have "closer x' c" using close_stop(2) by (auto simp: closer_def close_stop(1))
  ultimately show ?thesis using ok by (auto simp: life_ok_def close_stop(1))
next
  case (close_wait c)
  then have "l_closed x \<and> closer x c" using closer_is [OF ok] by blast
  moreover from this have "closer x' c" using close_wait(2,3) by (auto simp: closer_def close_wait(1))
  ultimately show ?thesis using ok by (auto simp: life_ok_def close_wait(1))
qed

lemma life_reach_ok: "life_reach x \<Longrightarrow> life_ok x"
proof (induction rule: life_reach.induct)
  case (life_init b)
  then show ?case using reachable.start [OF life_init]
    by (simp add: life_ok_def startSweeper_def) (simp add: init_sys_def init_bus_def)
qed (rule life_ok_step)

subsection \<open>Close returns\<close>

text \<open>The steps a call of \<open>Close\<close> still needs, its own and the last one of the sweeper.\<close>

definition close_left :: "life \<Rightarrow> nat \<Rightarrow> nat" where
  "close_left x c = (case l_close x c of
     Some CStop \<Rightarrow> 3 | Some CWait \<Rightarrow> (if l_sweeper x then 2 else 1) | _ \<Rightarrow> 0)"

lemma close_left_step: "life_step x x' \<Longrightarrow> l_close x c \<noteq> None \<Longrightarrow> close_left x' c \<le> close_left x c"
  by (induction rule: life_step.induct) (auto simp: close_left_def split: option.splits close_pc.splits)

lemma close_left_progress:
  assumes ok: "life_ok x" and l: "0 < close_left x c"
  shows "\<exists>x'. life_step x x' \<and> close_left x' c < close_left x c \<and> l_sys x' = l_sys x"
proof (cases "l_close x c")
  case (Some p)
  have cl: "closer x c" using closer_is [OF ok Some] l Some by (cases p) (simp_all add: close_left_def)
  show ?thesis
  proof (cases p)
    case CStop
    then have "\<not> l_stop x" using cl Some by (simp add: closer_def)
    then show ?thesis using close_stop [of x c] Some CStop
      by (intro exI [of _ "x\<lparr>l_stop := True, l_close := (l_close x)(c \<mapsto> CWait)\<rparr>"]) (simp add: close_left_def)
  next
    case CWait
    then have st: "l_stop x" using cl Some by (simp add: closer_def)
    show ?thesis
    proof (cases "l_sweeper x")
      case True
      then show ?thesis using swept [of x] st Some CWait
        by (intro exI [of _ "x\<lparr>l_sweeper := False\<rparr>"]) (simp add: close_left_def)
    next
      case False
      then show ?thesis using close_wait [of x c] Some CWait
        by (intro exI [of _ "x\<lparr>l_close := (l_close x)(c \<mapsto> CDone)\<rparr>"]) (simp add: close_left_def)
    qed
  qed (use l Some in \<open>simp add: close_left_def\<close>)
qed (use l in \<open>simp add: close_left_def\<close>)

text \<open>C9 (Close returns). However the sweeper, the other goroutines and other calls of \<open>Close\<close> run in
  between, a call of \<open>Close\<close> needs at most three more steps, no step of another goroutine raises
  that number, and one that lowers it can always be made - it is never blocked for ever, even when
  the sweeper is in the middle of its work. The channel \<open>stop\<close> is never closed twice, a closed
  bus has a running sweeper only as long as exactly one call of \<open>Close\<close> has not returned, and a
  tick after \<open>Close\<close> changes neither the bus nor its file.\<close>

theorem close_returns:
  assumes "life_reach x"
  shows "close_left x c \<le> 3 \<and> (l_close x c \<noteq> None \<longrightarrow> (close_left x c = 0 \<longleftrightarrow> l_close x c = Some CDone)) \<and>
    (\<forall>x'. life_step x x' \<and> l_close x c \<noteq> None \<longrightarrow> close_left x' c \<le> close_left x c) \<and>
    (0 < close_left x c \<longrightarrow> (\<exists>x'. life_step x x' \<and> close_left x' c < close_left x c \<and> l_sys x' = l_sys x)) \<and>
    (l_close x c = Some CStop \<longrightarrow> \<not> l_stop x) \<and>
    (l_closed x \<and> l_sweeper x \<longrightarrow> (\<exists>!d. l_close x d = Some CStop \<or> l_close x d = Some CWait)) \<and>
    (l_closed x \<longrightarrow> expireLeases now od io (sbus (l_sys x)) = Some (sbus (l_sys x)))"
proof (intro conjI)
  note ok = life_reach_ok [OF assms]
  show "close_left x c \<le> 3" by (simp add: close_left_def split: option.split close_pc.split)
  show "l_close x c \<noteq> None \<longrightarrow> (close_left x c = 0 \<longleftrightarrow> l_close x c = Some CDone)"
    by (auto simp: close_left_def split: option.split close_pc.split)
  show "\<forall>x'. life_step x x' \<and> l_close x c \<noteq> None \<longrightarrow> close_left x' c \<le> close_left x c"
    using close_left_step by blast
  show "0 < close_left x c \<longrightarrow> (\<exists>x'. life_step x x' \<and> close_left x' c < close_left x c \<and> l_sys x' = l_sys x)"
    using close_left_progress [OF ok] by blast
  show "l_close x c = Some CStop \<longrightarrow> \<not> l_stop x"
    using closer_is [OF ok, of c CStop] by (auto simp: closer_def)
  show "l_closed x \<and> l_sweeper x \<longrightarrow> (\<exists>!d. l_close x d = Some CStop \<or> l_close x d = Some CWait)"
  proof
    assume a: "l_closed x \<and> l_sweeper x"
    then obtain d where d: "closer x d" using ok by (auto simp: life_ok_def)
    have "l_close x d = Some CStop \<or> l_close x d = Some CWait"
      using d a by (auto simp: closer_def split: option.splits close_pc.splits)
    moreover have "e = d" if "l_close x e = Some CStop \<or> l_close x e = Some CWait" for e
      using d that by (auto simp: closer_def)
    ultimately show "\<exists>!d. l_close x d = Some CStop \<or> l_close x d = Some CWait" by blast
  qed
  show "l_closed x \<longrightarrow> expireLeases now od io (sbus (l_sys x)) = Some (sbus (l_sys x))"
    by (simp add: expireLeases_def)
qed

text \<open>A bus that is closed while its sweeper runs.\<close>

definition life_c :: life where
  "life_c = (startSweeper newBus)\<lparr>l_sys := (init_sys newBus)\<lparr>sbus := the (closeBus [] newBus), lost := {#} + queued newBus\<rparr>,
     l_close := [0 \<mapsto> CStop]\<rparr>"

lemma life_c_reach: "life_reach life_c"
proof -
  obtain b where b: "closeBus [] newBus = Some b"
    using closeBus_ok [of newBus "[]"] init_newBus by (auto simp: init_bus_def)
  have "life_step (startSweeper newBus) life_c"
    using close_first [of "startSweeper newBus" 0 "[]" b] b
    by (simp add: life_c_def startSweeper_def init_sys_def)
  then show ?thesis by (rule life_next [OF life_init [OF init_newBus]])
qed

theorem close_returns_witness:
  "\<exists>x'. life_step life_c x' \<and> close_left x' 0 < close_left life_c 0 \<and> \<not> l_stop life_c"
proof -
  have "l_close life_c 0 = Some CStop" "0 < close_left life_c 0" by (simp_all add: life_c_def close_left_def)
  then show ?thesis using close_returns [OF life_c_reach, of 0 0 "[]" True] by blast
qed

end
