(* ===== verification/Frame.thy ===== *)
theory Frame
  imports Go_Prelude
begin

text \<open>
  The frames of the session protocol (\<open>Frame\<close> and \<open>Payload\<close> of \<open>internal/wire/wire.go\<close>).
  The operation is a string on the wire; a hub dispatches on it, so the model keeps the string
  and names the ones the code knows.
\<close>

record frame =
  f_v :: int
  f_op :: string
  f_id :: string
  f_name :: string
  f_from :: string
  f_text :: string
  f_body :: bytes
  f_error :: string
  f_lease :: int
  f_delivery :: string

definition no_frame :: frame where
  "no_frame = \<lparr>f_v = 0, f_op = '''', f_id = '''', f_name = '''', f_from = '''', f_text = '''', f_body = '''',
     f_error = '''', f_lease = 0, f_delivery = ''''\<rparr>"

definition OpHello :: string where "OpHello = ''hello''"
definition OpPut :: string where "OpPut = ''put''"
definition OpTake :: string where "OpTake = ''take''"
definition OpPub :: string where "OpPub = ''pub''"
definition OpSub :: string where "OpSub = ''sub''"
definition OpUnsub :: string where "OpUnsub = ''unsub''"
definition OpOK :: string where "OpOK = ''ok''"
definition OpErr :: string where "OpErr = ''err''"
definition OpMsg :: string where "OpMsg = ''msg''"
definition OpPing :: string where "OpPing = ''ping''"
definition OpPong :: string where "OpPong = ''pong''"
definition OpReserve :: string where "OpReserve = ''reserve''"
definition OpAck :: string where "OpAck = ''ack''"
definition OpNack :: string where "OpNack = ''nack''"
definition OpReady :: string where "OpReady = ''ready''"
definition OpReq :: string where "OpReq = ''req''"
definition OpRep :: string where "OpRep = ''rep''"

lemmas op_defs = OpHello_def OpPut_def OpTake_def OpPub_def OpSub_def OpUnsub_def OpOK_def OpErr_def
  OpMsg_def OpPing_def OpPong_def OpReserve_def OpAck_def OpNack_def OpReady_def OpReq_def OpRep_def

text \<open>A \<open>[]byte\<close> that is nil and one of length zero are the same list.\<close>

definition payload :: "frame \<Rightarrow> bytes" where
  "payload f = (if 0 < length (f_body f) then f_body f else if f_text f \<noteq> '''' then f_text f else [])"

end
