(* ===== verification/Addr.thy ===== *)
theory Addr
  imports Go_Prelude
begin

text \<open>
  Listen addresses (\<open>internal/addr/addr.go\<close>).  The user id is an argument; what \<open>Listen\<close> and
  \<open>Dial\<close> ask of the operating system is the list of calls they make.
\<close>

fun has_prefix :: "string \<Rightarrow> string \<Rightarrow> bool" where
  "has_prefix s [] = True"
| "has_prefix [] (c # cs) = False"
| "has_prefix (x # s) (c # cs) = (x = c \<and> has_prefix s cs)"

definition trim_prefix :: "string \<Rightarrow> string \<Rightarrow> string" where
  "trim_prefix s p = (if has_prefix s p then drop (length p) s else s)"

lemma has_prefix_iff: "has_prefix s p \<longleftrightarrow> (\<exists>r. s = p @ r)"
  by (induction s p rule: has_prefix.induct) auto

lemma has_prefix_append [simp]: "has_prefix (p @ r) p"
  by (auto simp: has_prefix_iff)

lemma trim_prefix_append [simp]: "trim_prefix (p @ r) p = r"
  by (simp add: trim_prefix_def)

definition unix_scheme :: string where "unix_scheme = ''unix://''"
definition tcp_scheme :: string where "tcp_scheme = ''tcp://''"

definition default_addr :: "nat \<Rightarrow> string" where
  "default_addr uid = ''unix:///tmp/zmqcat-'' @ dec_string uid @ ''.sock''"

datatype addr_error = BadAddr string

definition parse_addr :: "nat \<Rightarrow> string \<Rightarrow> addr_error + string \<times> string" where
  "parse_addr uid s0 =
     (let s = (if s0 = '''' then default_addr uid else s0) in
      if has_prefix s unix_scheme then Inr (''unix'', trim_prefix s unix_scheme)
      else if has_prefix s tcp_scheme then Inr (''tcp'', trim_prefix s tcp_scheme)
      else if has_prefix s ''/'' \<or> has_prefix s ''.'' then Inr (''unix'', s)
      else if CHR '':'' \<in> set s then Inr (''tcp'', s)
      else Inl (BadAddr s))"

datatype sys_call = RemoveFile string | NetListen string string | NetDial string string

definition listen_calls :: "nat \<Rightarrow> string \<Rightarrow> addr_error + sys_call list" where
  "listen_calls uid s = (case parse_addr uid s of
     Inl e \<Rightarrow> Inl e
   | Inr (network, address) \<Rightarrow>
       Inr ((if network = ''unix'' then [RemoveFile address] else []) @ [NetListen network address]))"

definition dial_calls :: "nat \<Rightarrow> string \<Rightarrow> addr_error + sys_call list" where
  "dial_calls uid s = (case parse_addr uid s of
     Inl e \<Rightarrow> Inl e
   | Inr (network, address) \<Rightarrow> Inr [NetDial network address])"

subsection \<open>Lemmas\<close>

lemma schemes [simp]:
  "\<not> has_prefix (tcp_scheme @ r) unix_scheme" "\<not> has_prefix (CHR ''/'' # r) unix_scheme"
  "\<not> has_prefix (CHR ''/'' # r) tcp_scheme" "\<not> has_prefix (CHR ''.'' # r) unix_scheme"
  "\<not> has_prefix (CHR ''.'' # r) tcp_scheme"
  by (simp_all add: unix_scheme_def tcp_scheme_def)

lemma parse_unix: "parse_addr uid (unix_scheme @ p) = Inr (''unix'', p)"
  by (simp add: parse_addr_def Let_def) (simp add: unix_scheme_def)

lemma parse_tcp: "parse_addr uid (tcp_scheme @ p) = Inr (''tcp'', p)"
  by (simp add: parse_addr_def Let_def) (simp add: tcp_scheme_def)

lemma default_prefix: "default_addr uid = unix_scheme @ ''/tmp/zmqcat-'' @ dec_string uid @ ''.sock''"
  by (simp add: default_addr_def unix_scheme_def)

text \<open>Every listen string the documentation names means what it says: a scheme
  selects the network and is cut off, a path is a unix socket, a host and port is TCP, the empty
  string is the socket of this user, which no other user shares; and only a string that is none
  of these is an error.\<close>

theorem parse_addr_spec:
  shows "parse_addr uid (''unix://'' @ p) = Inr (''unix'', p) \<and>
    parse_addr uid (''tcp://'' @ p) = Inr (''tcp'', p) \<and>
    parse_addr uid (CHR ''/'' # p) = Inr (''unix'', CHR ''/'' # p) \<and>
    (parse_addr uid '''' = parse_addr uid' '''' \<longleftrightarrow> uid = uid') \<and>
    (s \<noteq> '''' \<longrightarrow> ((\<exists>e. parse_addr uid s = Inl e) \<longleftrightarrow>
       CHR '':'' \<notin> set s \<and> hd s \<noteq> CHR ''/'' \<and> hd s \<noteq> CHR ''.''))"
proof (intro conjI impI)
  show "parse_addr uid (''unix://'' @ p) = Inr (''unix'', p)"
    using parse_unix by (simp add: unix_scheme_def)
  show "parse_addr uid (''tcp://'' @ p) = Inr (''tcp'', p)"
    using parse_tcp by (simp add: tcp_scheme_def)
  show "parse_addr uid (CHR ''/'' # p) = Inr (''unix'', CHR ''/'' # p)"
    by (simp add: parse_addr_def Let_def)
  have "parse_addr u '''' = Inr (''unix'', ''/tmp/zmqcat-'' @ dec_string u @ ''.sock'')" for u
    using parse_unix [of u "''/tmp/zmqcat-'' @ dec_string u @ ''.sock''"]
    by (simp add: parse_addr_def Let_def default_prefix unix_scheme_def)
  then show "parse_addr uid '''' = parse_addr uid' '''' \<longleftrightarrow> uid = uid'" by simp
next
  assume ne: "s \<noteq> ''''"
  have "CHR '':'' \<in> set s" if "has_prefix s unix_scheme \<or> has_prefix s tcp_scheme"
    using that by (auto simp: has_prefix_iff unix_scheme_def tcp_scheme_def)
  moreover have "has_prefix s [c] \<longleftrightarrow> hd s = c" for c using ne by (cases s) auto
  ultimately show "(\<exists>e. parse_addr uid s = Inl e) \<longleftrightarrow>
       CHR '':'' \<notin> set s \<and> hd s \<noteq> CHR ''/'' \<and> hd s \<noteq> CHR ''.''"
    using ne by (auto simp: parse_addr_def Let_def)
qed

theorem parse_addr_spec_witness:
  "parse_addr 7 ''unix:///a'' = Inr (''unix'', ''/a'') \<and> (\<exists>e. parse_addr 7 ''host'' = Inl e)"
  using parse_addr_spec [of 7 "''/a''" 8 "''host''"] by simp

text \<open>For every listen string that \<open>Listen\<close> accepts, \<open>Dial\<close> of the
  same string goes to the endpoint that was bound, and the only file \<open>Listen\<close> removes first is
  that unix socket.\<close>

theorem listen_dial_agree:
  assumes "listen_calls uid s = Inr cs"
  shows "\<exists>network address. last cs = NetListen network address \<and>
    dial_calls uid s = Inr [NetDial network address] \<and>
    (network = ''unix'' \<or> network = ''tcp'') \<and>
    (\<forall>f. RemoveFile f \<in> set cs \<longleftrightarrow> network = ''unix'' \<and> f = address)"
proof -
  obtain n a where p: "parse_addr uid s = Inr (n, a)"
    using assms by (auto simp: listen_calls_def split: sum.splits)
  have "n = ''unix'' \<or> n = ''tcp''"
    using p by (auto simp: parse_addr_def Let_def split: if_splits)
  then show ?thesis
    using assms p by (auto simp: listen_calls_def dial_calls_def split: if_splits)
qed

theorem listen_dial_agree_witness:
  "\<exists>network address. last [RemoveFile ''/s'', NetListen ''unix'' ''/s''] = NetListen network address \<and>
    dial_calls 1 ''/s'' = Inr [NetDial network address] \<and> (network = ''unix'' \<or> network = ''tcp'') \<and>
    (\<forall>f. RemoveFile f \<in> set [RemoveFile ''/s'', NetListen ''unix'' ''/s''] \<longleftrightarrow>
       network = ''unix'' \<and> f = address)"
proof -
  have "parse_addr 1 ''/s'' = Inr (''unix'', ''/s'')" by (simp add: parse_addr_def Let_def)
  then show ?thesis by (intro listen_dial_agree) (simp add: listen_calls_def)
qed

end
