(* ===== verification/Json.thy ===== *)
theory Json
  imports Addr
begin

text \<open>
  What \<open>wire.go\<close> uses of Go's \<open>encoding/json\<close>, \<open>encoding/base64\<close> and \<open>unicode/utf8\<close>: the
  rendering of strings, byte slices and integers by \<open>json.Marshal\<close>, and the JSON syntax that
  \<open>json.Unmarshal\<close> accepts, over bytes.  A byte is a \<^typ>\<open>char\<close>, read with \<open>ord\<close>.
\<close>

abbreviation ord :: "char \<Rightarrow> nat" where "ord \<equiv> of_char"
abbreviation byte :: "nat \<Rightarrow> char" where "byte \<equiv> char_of"

lemma ord_less [simp]: "ord c < 256"
proof -
  have "ord c mod 256 = ord c" using of_char_of [of "ord c"] by simp
  then show ?thesis by (metis mod_less_divisor zero_less_numeral)
qed

lemma byte_eq: "ord c = n \<Longrightarrow> byte n = c"
  by (metis char_of_char)

lemma byte_lits:
  "byte 239 = CHR 0xEF" "byte 191 = CHR 0xBF" "byte 189 = CHR 0xBD" "byte 226 = CHR 0xE2"
  "byte 128 = CHR 0x80" "byte 168 = CHR 0xA8" "byte 169 = CHR 0xA9"
  by (rule byte_eq, simp)+

subsection \<open>UTF-8 (\<open>utf8.DecodeRune\<close>, \<open>utf8.AppendRune\<close>)\<close>

definition cont :: "char \<Rightarrow> bool" where
  "cont c \<longleftrightarrow> 0x80 \<le> ord c \<and> ord c \<le> 0xBF"

text \<open>The accepted second byte depends on the first one.\<close>

definition second_ok :: "char \<Rightarrow> char \<Rightarrow> bool" where
  "second_ok a b \<longleftrightarrow>
     (if ord a = 0xE0 then 0xA0 else if ord a = 0xF0 then 0x90 else 0x80) \<le> ord b \<and>
     ord b \<le> (if ord a = 0xED then 0x9F else if ord a = 0xF4 then 0x8F else 0xBF)"

text \<open>The size of the rune at the front, or 0 when there is none: \<open>DecodeRune\<close> then reports
  \<open>RuneError\<close> with size 1 (size 0 for the empty string).\<close>

definition lead_size :: "char \<Rightarrow> bytes \<Rightarrow> nat" where
  "lead_size a s =
     (if ord a < 0x80 then 1
      else if 0xC2 \<le> ord a \<and> ord a \<le> 0xDF then
        (if 1 \<le> length s \<and> cont (s ! 0) then 2 else 0)
      else if 0xE0 \<le> ord a \<and> ord a \<le> 0xEF then
        (if 2 \<le> length s \<and> second_ok a (s ! 0) \<and> cont (s ! 1) then 3 else 0)
      else if 0xF0 \<le> ord a \<and> ord a \<le> 0xF4 then
        (if 3 \<le> length s \<and> second_ok a (s ! 0) \<and> cont (s ! 1) \<and> cont (s ! 2) then 4 else 0)
      else 0)"

fun rune_size :: "bytes \<Rightarrow> nat" where
  "rune_size [] = 0"
| "rune_size (a # s) = lead_size a s"

definition fffd :: bytes where
  "fffd = [CHR 0xEF, CHR 0xBF, CHR 0xBD]"

definition utf8_enc :: "nat \<Rightarrow> bytes" where
  "utf8_enc r =
     (if r < 0x80 then [byte r]
      else if r < 0x800 then [byte (0xC0 + r div 64), byte (0x80 + r mod 64)]
      else if (0xD800 \<le> r \<and> r \<le> 0xDFFF) \<or> 0x10FFFF < r then fffd
      else if r < 0x10000 then
        [byte (0xE0 + r div 4096), byte (0x80 + r div 64 mod 64), byte (0x80 + r mod 64)]
      else [byte (0xF0 + r div 262144), byte (0x80 + r div 4096 mod 64),
            byte (0x80 + r div 64 mod 64), byte (0x80 + r mod 64)])"

text \<open>\<open>strings.ToValidUTF8\<close> with U+FFFD for each invalid byte: what a string becomes on the wire.\<close>

fun to_valid :: "bytes \<Rightarrow> bytes" where
  "to_valid [] = []"
| "to_valid (c # cs) =
     (if lead_size c cs = 0 then fffd @ to_valid cs
      else take (lead_size c cs) (c # cs) @ to_valid (drop (lead_size c cs - 1) cs))"

fun valid_utf8 :: "bytes \<Rightarrow> bool" where
  "valid_utf8 [] = True"
| "valid_utf8 (c # cs) =
     (lead_size c cs \<noteq> 0 \<and> valid_utf8 (drop (lead_size c cs - 1) cs))"

lemma lead_size_le: "lead_size c cs \<le> Suc (length cs)"
  by (simp add: lead_size_def)

lemma lead_size_take:
  assumes "0 < lead_size c cs"
  shows "lead_size c (take (lead_size c cs - 1) cs @ r) = lead_size c cs"
proof -
  have "take 3 cs = [cs ! 0, cs ! 1, cs ! 2]" if "3 \<le> length cs"
    using that by (cases cs; cases "tl cs"; cases "tl (tl cs)") auto
  moreover have "take 2 cs = [cs ! 0, cs ! 1]" if "2 \<le> length cs"
    using that by (cases cs; cases "tl cs") auto
  moreover have "take 1 cs = [cs ! 0]" if "1 \<le> length cs"
    using that by (cases cs) auto
  ultimately show ?thesis
    using assms by (simp add: lead_size_def split: if_splits)
qed

lemma to_valid_id: "valid_utf8 s \<Longrightarrow> to_valid s = s"
proof (induction s rule: to_valid.induct)
  case (2 c cs)
  then show ?case by (cases "lead_size c cs") auto
qed simp

lemma lead_ascii [simp]: "ord c < 0x80 \<Longrightarrow> lead_size c cs = 1"
  by (simp add: lead_size_def)

lemma valid_ascii: "\<forall>c\<in>set s. ord c < 0x80 \<Longrightarrow> valid_utf8 s"
  by (induction s) auto

subsection \<open>Strings: \<open>appendString\<close> with HTML escaping\<close>

definition hexd :: "nat \<Rightarrow> char" where
  "hexd n = (if n < 10 then byte (48 + n) else byte (87 + n))"

definition bsl :: char where "bsl = CHR 0x5C"
definition dquote :: char where "dquote = CHR 0x22"

definition esc_ascii :: "char \<Rightarrow> bytes" where
  "esc_ascii c =
     (if c = dquote \<or> c = bsl then [bsl, c]
      else if ord c = 8 then bsl # ''b''
      else if ord c = 12 then bsl # ''f''
      else if ord c = 10 then bsl # ''n''
      else if ord c = 13 then bsl # ''r''
      else if ord c = 9 then bsl # ''t''
      else if ord c < 0x20 \<or> c = CHR ''<'' \<or> c = CHR ''>'' \<or> c = CHR ''&''
      then bsl # ''u00'' @ [hexd (ord c div 16), hexd (ord c mod 16)]
      else [c])"

text \<open>A rune of more than one byte: U+2028 and U+2029 are escaped, the others are copied.\<close>

definition esc_rune :: "bytes \<Rightarrow> bytes" where
  "esc_rune u =
     (if u = [CHR 0xE2, CHR 0x80, CHR 0xA8] then bsl # ''u2028''
      else if u = [CHR 0xE2, CHR 0x80, CHR 0xA9] then bsl # ''u2029'' else u)"

fun esc_str :: "bytes \<Rightarrow> bytes" where
  "esc_str [] = []"
| "esc_str (c # cs) =
     (if lead_size c cs = 0 then bsl # ''ufffd'' @ esc_str cs
      else if lead_size c cs = 1 then esc_ascii c @ esc_str cs
      else esc_rune (take (lead_size c cs) (c # cs)) @ esc_str (drop (lead_size c cs - 1) cs))"

definition quote_str :: "bytes \<Rightarrow> bytes" where
  "quote_str s = dquote # esc_str s @ [dquote]"

subsection \<open>Strings: \<open>unquote\<close>\<close>

definition unhex :: "char \<Rightarrow> nat option" where
  "unhex c =
     (if 48 \<le> ord c \<and> ord c \<le> 57 then Some (ord c - 48)
      else if 97 \<le> ord c \<and> ord c \<le> 102 then Some (ord c - 87)
      else if 65 \<le> ord c \<and> ord c \<le> 70 then Some (ord c - 55) else None)"

fun hex4 :: "bytes \<Rightarrow> nat option" where
  "hex4 (a # b # c # d # r) =
     (case (unhex a, unhex b, unhex c, unhex d) of
        (Some w, Some x, Some y, Some z) \<Rightarrow> Some (((w * 16 + x) * 16 + y) * 16 + z)
      | _ \<Rightarrow> None)"
| "hex4 _ = None"

definition simple_esc :: "char \<Rightarrow> char option" where
  "simple_esc e =
     (if e = dquote \<or> e = bsl \<or> e = CHR ''/'' then Some e
      else if e = CHR ''b'' then Some (CHR 0x08) else if e = CHR ''f'' then Some (CHR 0x0C)
      else if e = CHR ''n'' then Some (CHR 0x0A) else if e = CHR ''r'' then Some (CHR 0x0D)
      else if e = CHR ''t'' then Some (CHR 0x09) else None)"

text \<open>The second half of a surrogate pair, when one follows.\<close>

fun low_half :: "nat \<Rightarrow> bytes \<Rightarrow> nat option" where
  "low_half r (b # u # s) =
     (if 0xD800 \<le> r \<and> r \<le> 0xDBFF \<and> b = bsl \<and> u = CHR ''u'' then
        (case hex4 s of
           Some r1 \<Rightarrow> if 0xDC00 \<le> r1 \<and> r1 \<le> 0xDFFF
             then Some (0x10000 + (r - 0xD800) * 1024 + (r1 - 0xDC00)) else None
         | None \<Rightarrow> None)
      else None)"
| "low_half r _ = None"

definition emit :: "bytes \<Rightarrow> (bytes \<times> bytes) option \<Rightarrow> (bytes \<times> bytes) option" where
  "emit u = map_option (\<lambda>(s, rest). (u @ s, rest))"

lemma emit_simps [simp]: "emit u None = None" "emit u (Some (s, r)) = Some (u @ s, r)"
  by (simp_all add: emit_def)

lemma emit_some: "emit u x = Some (s, r) \<Longrightarrow> \<exists>s'. x = Some (s', r)"
  by (auto simp: emit_def)

text \<open>The characters after an opening quote: the string and what follows its closing quote.\<close>

function parse_str :: "bytes \<Rightarrow> (bytes \<times> bytes) option" where
  "parse_str [] = None"
| "parse_str (c # cs) =
     (if c = dquote then Some ([], cs)
      else if c = bsl then
        (if cs = [] then None
         else if hd cs = CHR ''u'' then
           (case hex4 (tl cs) of
              None \<Rightarrow> None
            | Some r \<Rightarrow> (case low_half r (drop 5 cs) of
                 Some r2 \<Rightarrow> emit (utf8_enc r2) (parse_str (drop 11 cs))
               | None \<Rightarrow> emit (utf8_enc r) (parse_str (drop 5 cs))))
         else (case simple_esc (hd cs) of
              None \<Rightarrow> None
            | Some b \<Rightarrow> emit [b] (parse_str (tl cs))))
      else if ord c < 0x20 then None
      else if lead_size c cs = 0 then emit fffd (parse_str cs)
      else emit (take (lead_size c cs) (c # cs)) (parse_str (drop (lead_size c cs - 1) cs)))"
  by pat_completeness auto
termination
  by (relation "measure length") auto

declare parse_str.simps(2) [simp del]

subsection \<open>Reading back a rendered string\<close>

lemma bsl_dquote [simp]: "bsl \<noteq> dquote" "dquote \<noteq> bsl" "bsl \<noteq> CHR ''u''" "dquote \<noteq> CHR ''u''"
  by (simp_all add: bsl_def dquote_def)

lemma low_half_none:
  assumes "r < 0xD800 \<or> 0xDBFF < r"
  shows "low_half r s = None"
proof -
  have "\<not> (0xD800 \<le> r \<and> r \<le> 0xDBFF)" using assms by linarith
  then show ?thesis by (cases "(r, s)" rule: low_half.cases) (auto simp del: hex4.simps)
qed

lemma parse_u:
  assumes "hex4 [a, b, c, d] = Some r" and "r < 0xD800 \<or> 0xDBFF < r"
  shows "parse_str (bsl # CHR ''u'' # a # b # c # d # s) = emit (utf8_enc r) (parse_str s)"
proof -
  have "hex4 (a # b # c # d # s) = Some r" using assms(1) by simp
  then show ?thesis
    by (simp add: parse_str.simps(2) low_half_none [OF assms(2)] numeral_eq_Suc del: hex4.simps)
qed

lemma parse_esc:
  "simple_esc e = Some b \<Longrightarrow> parse_str (bsl # e # s) = emit [b] (parse_str s)"
  by (cases "e = CHR ''u''") (simp_all add: parse_str.simps(2) simple_esc_def bsl_def dquote_def)

lemma parse_quote [simp]: "parse_str (dquote # s) = Some ([], s)"
  by (simp add: parse_str.simps(2))

lemma unhex_hexd: "n < 16 \<Longrightarrow> unhex (hexd n) = Some n"
  by (auto simp: unhex_def hexd_def)

lemma esc_ascii_simple:
  "esc_ascii dquote = [bsl, dquote]" "esc_ascii bsl = [bsl, bsl]"
  "esc_ascii (CHR 0x08) = bsl # ''b''" "esc_ascii (CHR 0x09) = bsl # ''t''"
  "esc_ascii (CHR 0x0A) = bsl # ''n''" "esc_ascii (CHR 0x0C) = bsl # ''f''"
  "esc_ascii (CHR 0x0D) = bsl # ''r''"
  by (simp_all add: esc_ascii_def bsl_def dquote_def)

lemma simple_esc_values:
  "simple_esc dquote = Some dquote" "simple_esc bsl = Some bsl"
  "simple_esc (CHR ''b'') = Some (CHR 0x08)" "simple_esc (CHR ''t'') = Some (CHR 0x09)"
  "simple_esc (CHR ''n'') = Some (CHR 0x0A)" "simple_esc (CHR ''f'') = Some (CHR 0x0C)"
  "simple_esc (CHR ''r'') = Some (CHR 0x0D)"
  by (simp_all add: simple_esc_def bsl_def dquote_def)

lemma parse_ascii_simple:
  assumes "c \<in> {dquote, bsl, CHR 0x08, CHR 0x09, CHR 0x0A, CHR 0x0C, CHR 0x0D}"
  shows "parse_str (esc_ascii c @ s) = emit [c] (parse_str s)"
proof -
  have "\<exists>e. esc_ascii c = [bsl, e] \<and> simple_esc e = Some c"
    using assms by (elim insertE emptyE) (simp_all add: esc_ascii_simple simple_esc_values)
  then obtain e where "esc_ascii c = [bsl, e]" "simple_esc e = Some c" by blast
  then show ?thesis by (simp add: parse_esc)
qed

lemma esc_ascii_other:
  assumes "c \<notin> {dquote, bsl, CHR 0x08, CHR 0x09, CHR 0x0A, CHR 0x0C, CHR 0x0D}"
  shows "esc_ascii c = bsl # ''u00'' @ [hexd (ord c div 16), hexd (ord c mod 16)] \<or>
    esc_ascii c = [c] \<and> 0x20 \<le> ord c"
proof -
  have e: "ord c = ord d \<Longrightarrow> c = d" for d by simp
  from e [of "CHR 0x08"] e [of "CHR 0x09"] e [of "CHR 0x0A"] e [of "CHR 0x0C"] e [of "CHR 0x0D"]
  have "ord c \<noteq> 8" "ord c \<noteq> 9" "ord c \<noteq> 10" "ord c \<noteq> 12" "ord c \<noteq> 13" using assms by auto
  then show ?thesis using assms unfolding esc_ascii_def by auto
qed

lemma parse_ascii:
  assumes "ord c < 0x80"
  shows "parse_str (esc_ascii c @ s) = emit [c] (parse_str s)"
proof (cases "c \<in> {dquote, bsl, CHR 0x08, CHR 0x09, CHR 0x0A, CHR 0x0C, CHR 0x0D}")
  case True
  then show ?thesis by (rule parse_ascii_simple)
next
  case False
  have h: "hex4 [CHR ''0'', CHR ''0'', hexd (ord c div 16), hexd (ord c mod 16)] = Some (ord c)"
    using assms by (simp add: unhex_hexd) (simp add: unhex_def)
  have u: "utf8_enc (ord c) = [c]" using assms by (simp add: utf8_enc_def)
  from esc_ascii_other [OF False] show ?thesis
  proof (elim disjE conjE)
    assume "esc_ascii c = bsl # ''u00'' @ [hexd (ord c div 16), hexd (ord c mod 16)]"
    then show ?thesis using parse_u [OF h] assms u by simp
  next
    assume "esc_ascii c = [c]" "0x20 \<le> ord c"
    then show ?thesis using False assms by (simp add: parse_str.simps(2))
  qed
qed

lemma parse_rune:
  assumes "2 \<le> lead_size c cs"
  shows "parse_str (esc_rune (take (lead_size c cs) (c # cs)) @ s) =
    emit (take (lead_size c cs) (c # cs)) (parse_str s)"
proof -
  let ?n = "lead_size c cs" and ?u = "take (lead_size c cs) (c # cs)"
  have big: "0x80 \<le> ord c" using assms by (cases "ord c < 0x80") auto
  have raw: "parse_str (?u @ s) = emit ?u (parse_str s)"
  proof -
    have l: "lead_size c (take (?n - 1) cs @ s) = ?n" using assms by (intro lead_size_take) simp
    have u: "?u = c # take (?n - 1) cs" using assms by (cases ?n) auto
    have n: "length (take (?n - 1) cs) = ?n - 1" using lead_size_le [of c cs] by simp
    have "c \<noteq> dquote" "c \<noteq> bsl" using big by (auto simp: dquote_def bsl_def)
    then show ?thesis
      using l n assms big unfolding u by (simp add: parse_str.simps(2) take_Cons')
  qed
  have a: "parse_str (bsl # CHR ''u'' # CHR ''2'' # CHR ''0'' # CHR ''2'' # x # s) =
     emit (utf8_enc (0x2020 + k)) (parse_str s)" if "unhex x = Some k" "k < 16" for x k
    using that by (subst parse_u) (auto simp: unhex_def)
  have e: "utf8_enc 0x2028 = [CHR 0xE2, CHR 0x80, CHR 0xA8]"
    "utf8_enc 0x2029 = [CHR 0xE2, CHR 0x80, CHR 0xA9]" by (simp_all add: utf8_enc_def byte_lits)
  show ?thesis
    using raw a [of "CHR ''8''" 8] a [of "CHR ''9''" 9] e
    by (auto simp: esc_rune_def unhex_def)
qed

lemma parse_fffd: "parse_str (bsl # ''ufffd'' @ s) = emit fffd (parse_str s)"
proof -
  have "hex4 ''fffd'' = Some 0xFFFD" by (simp add: unhex_def)
  then show ?thesis by (simp add: parse_u utf8_enc_def fffd_def byte_lits del: hex4.simps)
qed

text \<open>A string comes back from the wire with its invalid bytes replaced, and exactly when it is
  valid UTF-8.\<close>

lemma parse_str_esc: "parse_str (esc_str s @ dquote # rest) = Some (to_valid s, rest)"
proof (induction s rule: esc_str.induct)
  case 1
  then show ?case by simp
next
  case (2 c cs)
  let ?n = "lead_size c cs"
  consider "?n = 0" | "?n = 1" | "2 \<le> ?n" by linarith
  then show ?case
  proof cases
    case 1
    then show ?thesis using 2(1) parse_fffd [of "esc_str cs @ dquote # rest"] by simp
  next
    case 2
    then have "ord c < 0x80" by (simp add: lead_size_def split: if_splits)
    then show ?thesis using 2 "2.IH"(2) parse_ascii [of c "esc_str cs @ dquote # rest"] by simp
  next
    case 3
    then show ?thesis
      using "2.IH"(3) parse_rune [of c cs "esc_str (drop (?n - 1) cs) @ dquote # rest"] by simp
  qed
qed

lemma parse_str_plain:
  assumes "\<forall>c\<in>set s. 0x20 \<le> ord c \<and> ord c < 0x80 \<and> c \<noteq> dquote \<and> c \<noteq> bsl"
  shows "parse_str (s @ dquote # rest) = Some (s, rest)"
  using assms by (induction s) (simp_all add: parse_str.simps(2))

lemma parse_str_length: "parse_str s = Some (u, r) \<Longrightarrow> length r < length s"
proof (induction s arbitrary: u rule: parse_str.induct)
  case (2 c cs)
  have step: "length r < length t" if "emit x (parse_str t) = Some (u, r)"
    "\<And>u. parse_str t = Some (u, r) \<Longrightarrow> length r < length t" for x t
    using emit_some [OF that(1)] that(2) by blast
  show ?case
  proof (cases "c = dquote")
    case True
    then show ?thesis using 2(6) by (simp add: parse_str.simps(2))
  next
    case q: False
    have d: "length (drop n cs) \<le> length cs" for n by simp
    show ?thesis
    proof (cases "c = bsl")
      case True
      then have ne: "cs \<noteq> []" using 2(6) by (auto simp: parse_str.simps(2))
      show ?thesis
      proof (cases "hd cs = CHR ''u''")
        case u: True
        then obtain k where k: "hex4 (tl cs) = Some k"
          using 2(6) True ne by (auto simp: parse_str.simps(2) split: option.splits)
        show ?thesis
        proof (cases "low_half k (drop 5 cs)")
          case None
          then have "length r < length (drop 5 cs)"
            using 2(6) True ne u k step [OF _ "2.IH"(1) [OF q True ne u k None]]
            by (simp add: parse_str.simps(2))
          then show ?thesis by simp
        next
          case (Some k2)
          then have "length r < length (drop 11 cs)"
            using 2(6) True ne u k step [OF _ "2.IH"(2) [OF q True ne u k Some]]
            by (simp add: parse_str.simps(2))
          then show ?thesis by simp
        qed
      next
        case u: False
        then obtain b where b: "simple_esc (hd cs) = Some b"
          using 2(6) True ne by (auto simp: parse_str.simps(2) split: option.splits)
        then have "length r < length (tl cs)"
          using 2(6) True ne u step [OF _ "2.IH"(3) [OF q True ne u b]] by (simp add: parse_str.simps(2))
        then show ?thesis by simp
      qed
    next
      case b: False
      then have o: "\<not> ord c < 0x20" using 2(6) q by (auto simp: parse_str.simps(2))
      show ?thesis
      proof (cases "lead_size c cs = 0")
        case True
        then have e: "emit fffd (parse_str cs) = Some (u, r)"
          using 2(6) q b o by (simp add: parse_str.simps(2))
        have "length r < length cs" by (rule step [OF e]) (rule "2.IH"(4) [OF q b o True])
        then show ?thesis by simp
      next
        case False
        then have "length r < length (drop (lead_size c cs - 1) cs)"
          using 2(6) q b o step [OF _ "2.IH"(5) [OF q b o False]] by (simp add: parse_str.simps(2))
        then show ?thesis by simp
      qed
    qed
  qed
qed simp

subsection \<open>Base64 (\<open>base64.StdEncoding\<close>)\<close>

definition b64c :: "nat \<Rightarrow> char" where
  "b64c n = (if n < 26 then byte (65 + n) else if n < 52 then byte (71 + n)
     else if n < 62 then byte (n - 4) else if n = 62 then CHR ''+'' else CHR ''/'')"

definition unb64 :: "char \<Rightarrow> nat option" where
  "unb64 c =
     (if 65 \<le> ord c \<and> ord c \<le> 90 then Some (ord c - 65)
      else if 97 \<le> ord c \<and> ord c \<le> 122 then Some (ord c - 71)
      else if 48 \<le> ord c \<and> ord c \<le> 57 then Some (ord c + 4)
      else if ord c = 43 then Some 62 else if ord c = 47 then Some 63 else None)"

fun b64_enc :: "bytes \<Rightarrow> bytes" where
  "b64_enc [] = []"
| "b64_enc [a] = [b64c (ord a div 4), b64c (ord a mod 4 * 16), CHR ''='', CHR ''='']"
| "b64_enc [a, b] = [b64c (ord a div 4), b64c (ord a mod 4 * 16 + ord b div 16),
                     b64c (ord b mod 16 * 4), CHR ''='']"
| "b64_enc (a # b # c # r) =
     b64c (ord a div 4) # b64c (ord a mod 4 * 16 + ord b div 16) #
     b64c (ord b mod 16 * 4 + ord c div 64) # b64c (ord c mod 64) # b64_enc r"

text \<open>The decoder, after it has skipped line breaks; trailing bits are not checked.\<close>

definition b64_last :: "nat \<Rightarrow> nat \<Rightarrow> char \<Rightarrow> char \<Rightarrow> bytes option" where
  "b64_last w x c d =
     (if c = CHR ''='' then (if d = CHR ''='' then Some [byte (w * 4 + x div 16)] else None)
      else (case unb64 c of
         Some y \<Rightarrow> if d = CHR ''='' then Some [byte (w * 4 + x div 16), byte (x mod 16 * 16 + y div 4)]
           else (case unb64 d of
             Some z \<Rightarrow> Some [byte (w * 4 + x div 16), byte (x mod 16 * 16 + y div 4), byte (y mod 4 * 64 + z)]
           | None \<Rightarrow> None)
       | None \<Rightarrow> None))"

fun b64_quads :: "bytes \<Rightarrow> bytes option" where
  "b64_quads [] = Some []"
| "b64_quads (a # b # c # d # r) =
     (case (unb64 a, unb64 b) of
        (Some w, Some x) \<Rightarrow>
          (case b64_last w x c d of
             None \<Rightarrow> None
           | Some u \<Rightarrow> if length u < 3 then (if r = [] then Some u else None)
                       else map_option ((@) u) (b64_quads r))
      | _ \<Rightarrow> None)"
| "b64_quads _ = None"

definition b64_dec :: "bytes \<Rightarrow> bytes option" where
  "b64_dec s = b64_quads (filter (\<lambda>c. ord c \<noteq> 10 \<and> ord c \<noteq> 13) s)"

lemma unb64_b64c: "n < 64 \<Longrightarrow> unb64 (b64c n) = Some n"
  unfolding b64c_def unb64_def by (cases "n < 26"; cases "n < 52"; cases "n < 62"; cases "n = 62") auto

lemma b64c_plain: "43 \<le> ord (b64c n) \<and> ord (b64c n) < 0x7B \<and> b64c n \<noteq> CHR ''='' \<and> b64c n \<noteq> bsl \<and> b64c n \<noteq> dquote"
proof -
  have "b64c n \<noteq> d" if "ord (b64c n) \<noteq> ord d" for d using that by auto
  moreover have "43 \<le> ord (b64c n) \<and> ord (b64c n) < 0x7B \<and> ord (b64c n) \<noteq> 61 \<and> ord (b64c n) \<noteq> 0x5C \<and> ord (b64c n) \<noteq> 0x22"
    unfolding b64c_def by (cases "n < 26"; cases "n < 52"; cases "n < 62"; cases "n = 62") auto
  ultimately show ?thesis unfolding bsl_def dquote_def by auto
qed

lemma b64_enc_set: "\<forall>c\<in>set (b64_enc s). 43 \<le> ord c \<and> ord c < 0x7B \<and> c \<noteq> dquote \<and> c \<noteq> bsl"
  by (induction s rule: b64_enc.induct) (simp_all add: b64c_plain, simp_all add: bsl_def dquote_def)

lemma b64_enc_length: "4 * length s \<le> 3 * length (b64_enc s)"
  by (induction s rule: b64_enc.induct) auto

lemma b64_arith:
  fixes a b c :: nat
  assumes "a < 256" and "b < 256" and "c < 256"
  shows "a div 4 * 4 + (a mod 4 * 16 + b div 16) div 16 = a"
    and "(a mod 4 * 16 + b div 16) mod 16 * 16 + (b mod 16 * 4 + c div 64) div 4 = b"
    and "(b mod 16 * 4 + c div 64) mod 4 * 64 + c mod 64 = c"
proof -
  have b: "b div 16 < 16" and c: "c div 64 < 4" using assms by auto
  then have "(a mod 4 * 16 + b div 16) div 16 = a mod 4" "(a mod 4 * 16 + b div 16) mod 16 = b div 16"
    "(b mod 16 * 4 + c div 64) div 4 = b mod 16" "(b mod 16 * 4 + c div 64) mod 4 = c div 64"
    by simp_all
  then show "a div 4 * 4 + (a mod 4 * 16 + b div 16) div 16 = a"
    "(a mod 4 * 16 + b div 16) mod 16 * 16 + (b mod 16 * 4 + c div 64) div 4 = b"
    "(b mod 16 * 4 + c div 64) mod 4 * 64 + c mod 64 = c"
    by simp_all
qed

lemma b64_range:
  fixes a b c :: nat
  assumes "a < 256" and "b < 256" and "c < 256"
  shows "a div 4 < 64" "a mod 4 * 16 + b div 16 < 64" "b mod 16 * 4 + c div 64 < 64" "c mod 64 < 64"
    "a mod 4 * 16 < 64" "b mod 16 * 4 < 64"
proof -
  have "a mod 4 \<le> 3" "b div 16 \<le> 15" "b mod 16 \<le> 15" "c div 64 \<le> 3" using assms by auto
  then show "a mod 4 * 16 + b div 16 < 64" "b mod 16 * 4 + c div 64 < 64" "a mod 4 * 16 < 64"
    "b mod 16 * 4 < 64" by linarith+
qed (use assms in auto)

lemma b64c_ne: "b64c n \<noteq> CHR ''=''"
  using b64c_plain by blast

lemma b64_quads_enc: "b64_quads (b64_enc s) = Some s"
proof (induction s rule: b64_enc.induct)
  case (2 a)
  note r = b64_range [OF ord_less [of a] ord_less ord_less]
  have "ord a div 4 * 4 + (ord a mod 4 * 16) div 16 = ord a" by simp
  then show ?case using r by (simp add: unb64_b64c b64_last_def)
next
  case (3 a b)
  note r = b64_range [OF ord_less [of a] ord_less [of b] ord_less]
  note e = b64_arith [OF ord_less [of a] ord_less [of b], of 0]
  show ?case using r e by (simp add: unb64_b64c b64_last_def b64c_ne del: mult_Suc)
next
  case (4 a b c s)
  note r = b64_range [OF ord_less [of a] ord_less [of b] ord_less [of c]]
  note e = b64_arith [OF ord_less [of a] ord_less [of b] ord_less [of c]]
  show ?case using 4 r e by (simp add: unb64_b64c b64_last_def b64c_ne)
qed simp

lemma b64_dec_enc: "b64_dec (b64_enc s) = Some s"
proof -
  have "\<forall>c\<in>set (b64_enc s). ord c \<noteq> 10 \<and> ord c \<noteq> 13" using b64_enc_set [of s] by auto
  then have "filter (\<lambda>c. ord c \<noteq> 10 \<and> ord c \<noteq> 13) (b64_enc s) = b64_enc s"
    by (simp add: filter_id_conv)
  then show ?thesis by (simp add: b64_dec_def b64_quads_enc)
qed

end
