(* ===== verification/Json_Syntax.thy ===== *)
theory Json_Syntax
  imports Json
begin

text \<open>
  JSON values as \<open>json.Unmarshal\<close> reads them: white space, literals, numbers kept as their
  text, arrays and objects with their members in order (a later member of the same name wins in
  the decoder), nested at most 10000 deep.
\<close>

datatype json = JNull | JBool bool | JNum bytes | JStr bytes | JArr "json list"
  | JObj "(bytes \<times> json) list"

definition is_ws :: "char \<Rightarrow> bool" where
  "is_ws c \<longleftrightarrow> ord c = 32 \<or> ord c = 9 \<or> ord c = 10 \<or> ord c = 13"

definition ws :: "bytes \<Rightarrow> bytes" where
  "ws s = dropWhile is_ws s"

subsection \<open>Numbers\<close>

text \<open>One or more digits: the digits and what follows.\<close>

definition digits :: "bytes \<Rightarrow> (bytes \<times> bytes) option" where
  "digits s = (if takeWhile is_digit s = [] then None else Some (takeWhile is_digit s, dropWhile is_digit s))"

text \<open>The integer part has no leading zero.\<close>

definition int_part :: "bytes \<Rightarrow> (bytes \<times> bytes) option" where
  "int_part s = (if has_prefix s ''0'' then Some (''0'', tl s) else digits s)"

definition frac_part :: "bytes \<Rightarrow> (bytes \<times> bytes) option" where
  "frac_part s = (if has_prefix s ''.'' then emit ''.'' (digits (tl s)) else Some ([], s))"

definition exp_part :: "bytes \<Rightarrow> (bytes \<times> bytes) option" where
  "exp_part s =
     (if has_prefix s ''e'' \<or> has_prefix s ''E'' then
        (let t = tl s in
         if has_prefix t ''+'' \<or> has_prefix t ''-'' then emit [hd s, hd t] (digits (tl t))
         else emit [hd s] (digits t))
      else Some ([], s))"

definition number :: "bytes \<Rightarrow> (bytes \<times> bytes) option" where
  "number s =
     (let sign = (if has_prefix s ''-'' then ''-'' else '''') in
      case int_part (drop (length sign) s) of
        None \<Rightarrow> None
      | Some (i, r) \<Rightarrow> (case frac_part r of
          None \<Rightarrow> None
        | Some (f, r1) \<Rightarrow> (case exp_part r1 of
            None \<Rightarrow> None
          | Some (e, r2) \<Rightarrow> Some (sign @ i @ f @ e, r2))))"

text \<open>\<open>strconv.ParseInt(lit, 10, 64)\<close>: a number with a fraction or an exponent is an error.\<close>

definition int_of_lit :: "bytes \<Rightarrow> int option" where
  "int_of_lit s =
     (let neg = has_prefix s ''-''; d = (if neg then tl s else s) in
      if d = [] \<or> \<not> list_all is_digit d then None
      else (let n = (if neg then - int (dec_value 0 d) else int (dec_value 0 d)) in
            if - (2 ^ 63) \<le> n \<and> n < 2 ^ 63 then Some n else None))"

text \<open>\<open>%d\<close> of an integer, as \<open>json.Marshal\<close> renders it.\<close>

definition dec_int :: "int \<Rightarrow> bytes" where
  "dec_int i = (if i < 0 then CHR ''-'' # dec_string (nat (- i)) else dec_string (nat i))"

subsection \<open>Values\<close>

definition maxDepth :: nat where "maxDepth = 10000"

datatype task = Val bytes | Elems bytes | Members bytes

fun task_input :: "task \<Rightarrow> bytes" where
  "task_input (Val s) = s"
| "task_input (Elems s) = s"
| "task_input (Members s) = s"

text \<open>
  One recursive function reads a value, the elements of an array after \<open>[\<close>, or the members of
  an object after the opening brace; \<open>d\<close> is how much deeper values may still nest.  The tests
  on lengths are always true (a value is never empty) and make the recursion well founded.
\<close>

definition step_in :: "bytes \<Rightarrow> bytes \<Rightarrow> bool" where
  "step_in r s \<longleftrightarrow> length r < length s"

function parse_json :: "nat \<Rightarrow> task \<Rightarrow> (json \<times> bytes) option" where
  "parse_json d (Val s) =
     (let t = ws s in
      if t = [] then None
      else if hd t = dquote then map_option (\<lambda>(u, r). (JStr u, r)) (parse_str (tl t))
      else if hd t = CHR ''{'' then
        (if d = 0 then None
         else if has_prefix (ws (tl t)) ''}'' then Some (JObj [], tl (ws (tl t)))
         else if step_in (tl t) s then parse_json (d - 1) (Members (tl t)) else None)
      else if hd t = CHR ''['' then
        (if d = 0 then None
         else if has_prefix (ws (tl t)) '']'' then Some (JArr [], tl (ws (tl t)))
         else if step_in (tl t) s then parse_json (d - 1) (Elems (tl t)) else None)
      else if has_prefix t ''true'' then Some (JBool True, drop 4 t)
      else if has_prefix t ''false'' then Some (JBool False, drop 5 t)
      else if has_prefix t ''null'' then Some (JNull, drop 4 t)
      else map_option (\<lambda>(u, r). (JNum u, r)) (number t))"
| "parse_json d (Elems s) =
     (case parse_json d (Val s) of
        None \<Rightarrow> None
      | Some (v, r) \<Rightarrow>
          (let t = ws r in
           if has_prefix t '']'' then Some (JArr [v], tl t)
           else if has_prefix t '','' \<and> step_in (tl t) s then
             (case parse_json d (Elems (tl t)) of
                Some (JArr vs, r') \<Rightarrow> Some (JArr (v # vs), r')
              | _ \<Rightarrow> None)
           else None))"
| "parse_json d (Members s) =
     (let t = ws s in
      if \<not> has_prefix t [dquote] then None
      else (case parse_str (tl t) of
        None \<Rightarrow> None
      | Some (k, r) \<Rightarrow>
          (let r1 = ws r in
           if \<not> has_prefix r1 '':'' \<or> \<not> step_in (tl r1) s then None
           else (case parse_json d (Val (tl r1)) of
             None \<Rightarrow> None
           | Some (v, r2) \<Rightarrow>
               (let r3 = ws r2 in
                if has_prefix r3 ''}'' then Some (JObj [(k, v)], tl r3)
                else if has_prefix r3 '','' \<and> step_in (tl r3) s then
                  (case parse_json d (Members (tl r3)) of
                     Some (JObj kvs, r') \<Rightarrow> Some (JObj ((k, v) # kvs), r')
                   | _ \<Rightarrow> None)
                else None)))))"
  by pat_completeness auto
termination
  by (relation "measures [\<lambda>(d, t). length (task_input t), \<lambda>(d, t). (case t of Val _ \<Rightarrow> 0 | _ \<Rightarrow> 1)]")
    (auto simp: step_in_def)

declare parse_json.simps [simp del]

text \<open>The whole input is one value with white space around it.\<close>

definition json_of_bytes :: "bytes \<Rightarrow> json option" where
  "json_of_bytes s = (case parse_json maxDepth (Val s) of
     Some (v, r) \<Rightarrow> if ws r = [] then Some v else None
   | None \<Rightarrow> None)"

subsection \<open>The length tests of the parser always hold\<close>

lemma ws_length: "length (ws s) \<le> length s"
  by (simp add: ws_def length_dropWhile_le)

lemma digits_length: "digits s = Some (u, r) \<Longrightarrow> length r < length s"
proof -
  assume a: "digits s = Some (u, r)"
  have "length (takeWhile is_digit s) + length (dropWhile is_digit s) = length s"
    by (metis length_append takeWhile_dropWhile_id)
  moreover have "takeWhile is_digit s \<noteq> []" "r = dropWhile is_digit s"
    using a by (auto simp: digits_def split: if_splits)
  ultimately show ?thesis by (cases "takeWhile is_digit s") auto
qed

lemma int_part_length: "int_part s = Some (u, r) \<Longrightarrow> length r < length s"
  using digits_length [of s u r] by (cases s) (auto simp: int_part_def digits_def split: if_splits)

lemma frac_part_length: "frac_part s = Some (u, r) \<Longrightarrow> length r \<le> length s"
  by (cases s) (auto simp: frac_part_def dest!: emit_some digits_length split: if_splits)

lemma exp_part_length: "exp_part s = Some (u, r) \<Longrightarrow> length r \<le> length s"
  by (cases s; cases "tl s") (auto simp: exp_part_def Let_def dest!: emit_some digits_length split: if_splits)

lemma number_length:
  assumes "number s = Some (u, r)"
  shows "length r < length s"
proof -
  obtain n i r0 f r1 e where "int_part (drop n s) = Some (i, r0)" "frac_part r0 = Some (f, r1)"
    "exp_part r1 = Some (e, r)"
    using assms by (auto simp: number_def Let_def split: option.splits)
  then have "length r \<le> length r1" "length r1 \<le> length r0" "length r0 < length (drop n s)"
    using int_part_length frac_part_length exp_part_length by blast+
  then show ?thesis by simp
qed

lemma tl_ws_length: "ws s \<noteq> [] \<Longrightarrow> length (tl (ws s)) < length s"
  using ws_length [of s] by (cases "ws s") auto

lemma has_prefix_ne: "has_prefix s (c # p) \<Longrightarrow> s \<noteq> []"
  by auto

lemma tl_ws_length_prefix: "has_prefix (ws s) (c # p) \<Longrightarrow> length (tl (ws s)) < length s"
  by (rule tl_ws_length) (erule has_prefix_ne)

lemma json_shorter: "parse_json d t = Some (v, r) \<Longrightarrow> length r < length (task_input t)"
proof (induction d t arbitrary: v r rule: parse_json.induct)
  case (1 d s)
  let ?t = "ws s"
  have ne: "?t \<noteq> []" using 1(3) by (auto simp: parse_json.simps(1) [of d s] Let_def)
  note l = tl_ws_length [OF ne] ws_length [of s]
  have tt: "length (tl (ws (tl ?t))) < length s" if "has_prefix (ws (tl ?t)) [c]" for c
    using tl_ws_length_prefix [OF that] l by simp
  have dr: "length (drop n ?t) < length s" if "0 < n" for n using ne l that by (cases ?t) auto
  consider "hd ?t = dquote" | "hd ?t = CHR ''{''" "hd ?t \<noteq> dquote" | "hd ?t = CHR ''[''" "hd ?t \<noteq> dquote"
    | "hd ?t \<noteq> dquote" "hd ?t \<noteq> CHR ''{''" "hd ?t \<noteq> CHR ''[''" by blast
  then show ?case
  proof cases
    case 1
    then obtain u where "parse_str (tl ?t) = Some (u, r)"
      using "1.prems" ne by (auto simp: parse_json.simps(1) [of d s] Let_def)
    from parse_str_length [OF this] show ?thesis using l by simp
  next
    case 2
    then have d: "d \<noteq> 0" using "1.prems" ne by (auto simp: parse_json.simps(1) [of d s] Let_def split: if_splits)
    show ?thesis
    proof (cases "has_prefix (ws (tl ?t)) ''}''")
      case True
      then show ?thesis using "1.prems" ne 2 d tt by (auto simp: parse_json.simps(1) [of d s] Let_def)
    next
      case False
      then have s: "step_in (tl ?t) s" "parse_json (d - 1) (Members (tl ?t)) = Some (v, r)"
        using "1.prems" ne 2 d by (auto simp: parse_json.simps(1) [of d s] Let_def split: if_splits)
      from "1.IH"(1) [OF refl ne 2(2) 2(1) d False s] show ?thesis using l by simp
    qed
  next
    case 3
    then have c: "hd ?t \<noteq> CHR ''{''" by simp
    then have d: "d \<noteq> 0" using "1.prems" ne 3 by (auto simp: parse_json.simps(1) [of d s] Let_def split: if_splits)
    show ?thesis
    proof (cases "has_prefix (ws (tl ?t)) '']''")
      case True
      then show ?thesis using "1.prems" ne 3 c d tt by (auto simp: parse_json.simps(1) [of d s] Let_def)
    next
      case False
      then have s: "step_in (tl ?t) s" "parse_json (d - 1) (Elems (tl ?t)) = Some (v, r)"
        using "1.prems" ne 3 c d by (auto simp: parse_json.simps(1) [of d s] Let_def split: if_splits)
      from "1.IH"(2) [OF refl ne 3(2) c 3(1) d False s] show ?thesis using l by simp
    qed
  next
    case 4
    show ?thesis
    proof (cases "has_prefix ?t ''true'' \<or> has_prefix ?t ''false'' \<or> has_prefix ?t ''null''")
      case True
      then show ?thesis
        using "1.prems" ne 4 dr [of 4] dr [of 5]
        by (simp only: parse_json.simps(1) [of d s] Let_def if_False) (auto split: if_splits)
    next
      case False
      then obtain u where "number ?t = Some (u, r)"
        using "1.prems" ne 4 by (auto simp: parse_json.simps(1) [of d s] Let_def)
      from number_length [OF this] show ?thesis using l by simp
    qed
  qed
next
  case (2 d s)
  obtain v1 r1 where v1: "parse_json d (Val s) = Some (v1, r1)"
    using 2(3) by (auto simp: parse_json.simps(2) [of d s] split: option.splits)
  have r1: "length r1 < length s" using "2.IH"(1) [OF v1] by simp
  show ?case
  proof (cases "has_prefix (ws r1) '']''")
    case True
    from tl_ws_length_prefix [OF True] show ?thesis
      using 2(3) v1 True r1 by (auto simp: parse_json.simps(2) [of d s] Let_def)
  next
    case f: False
    then have s: "has_prefix (ws r1) '','' \<and> step_in (tl (ws r1)) s"
      using 2(3) v1 by (auto simp: parse_json.simps(2) [of d s] Let_def split: if_splits)
    then obtain vs where vs: "parse_json d (Elems (tl (ws r1))) = Some (JArr vs, r)"
      using 2(3) v1 f by (auto simp: parse_json.simps(2) [of d s] Let_def split: option.splits json.splits)
    have "length r < length (tl (ws r1))" using "2.IH"(2) [OF v1 refl refl f s vs] by simp
    then show ?thesis using tl_ws_length_prefix [of r1 "CHR '',''" "[]"] s r1 by simp
  qed
next
  case (3 d s)
  have q: "has_prefix (ws s) [dquote]"
    using 3(3) by (rule contrapos_pp) (simp add: parse_json.simps(3) [of d s] Let_def)
  then have nn: "\<not> \<not> has_prefix (ws s) [dquote]" by simp
  obtain k r0 where k: "parse_str (tl (ws s)) = Some (k, r0)"
    using 3(3) q by (auto simp: parse_json.simps(3) [of d s] Let_def split: option.splits)
  have g: "\<not> (\<not> has_prefix (ws r0) '':'' \<or> \<not> step_in (tl (ws r0)) s)"
    using 3(3) by (rule contrapos_pn) (use q k in \<open>auto simp: parse_json.simps(3) [of d s] Let_def\<close>)
  obtain v1 r2 where v1: "parse_json d (Val (tl (ws r0))) = Some (v1, r2)"
    using 3(3) q k g by (auto simp: parse_json.simps(3) [of d s] Let_def split: option.splits)
  have "length r2 < length (tl (ws r0))" using "3.IH"(1) [OF refl nn k refl refl g v1] by simp
  then have r2: "length r2 < length s" using g by (simp add: step_in_def)
  show ?case
  proof (cases "has_prefix (ws r2) ''}''")
    case True
    from tl_ws_length_prefix [OF True] show ?thesis
      using 3(3) q k g v1 True r2 by (auto simp: parse_json.simps(3) [of d s] Let_def)
  next
    case f: False
    then have c: "has_prefix (ws r2) '','' \<and> step_in (tl (ws r2)) s"
      using 3(3) q k g v1 by (auto simp: parse_json.simps(3) [of d s] Let_def split: if_splits)
    then obtain kvs where kvs: "parse_json d (Members (tl (ws r2))) = Some (JObj kvs, r)"
      using 3(3) q k g v1 f by (auto simp: parse_json.simps(3) [of d s] Let_def split: option.splits json.splits)
    have "length r < length (tl (ws r2))" using "3.IH"(2) [OF refl nn k refl refl g v1 refl refl f c kvs] by simp
    then show ?thesis using c by (simp add: step_in_def)
  qed
qed

subsection \<open>Reading back what \<open>json.Marshal\<close> writes\<close>

text \<open>An object as the encoder writes it: no white space, members in order.\<close>

fun json_members :: "(bytes \<times> bytes) list \<Rightarrow> bytes" where
  "json_members [] = []"
| "json_members [(k, t)] = dquote # k @ [dquote, CHR '':''] @ t"
| "json_members ((k, t) # x # r) = dquote # k @ [dquote, CHR '':''] @ t @ [CHR '',''] @ json_members (x # r)"

definition json_object :: "(bytes \<times> bytes) list \<Rightarrow> bytes" where
  "json_object ms = CHR ''{'' # json_members ms @ [CHR ''}'']"

lemma not_ws [simp]: "\<not> is_ws (CHR ''{'')" "\<not> is_ws (CHR ''}'')" "\<not> is_ws (CHR '','')"
  "\<not> is_ws (CHR '':'')" "\<not> is_ws dquote" "\<not> is_ws (CHR ''-'')"
  by (simp_all add: is_ws_def dquote_def)

lemma ws_cons [simp]: "\<not> is_ws c \<Longrightarrow> ws (c # s) = c # s"
  by (simp add: ws_def)

lemma ws_nil [simp]: "ws [] = []"
  by (simp add: ws_def)

lemma parse_val_string:
  "parse_str s = Some (u, r) \<Longrightarrow> parse_json d (Val (dquote # s)) = Some (JStr u, r)"
  by (simp add: parse_json.simps(1) Let_def)

lemma parse_val_quote: "parse_json d (Val (quote_str s @ r)) = Some (JStr (to_valid s), r)"
  using parse_str_esc [of s r] by (simp add: quote_str_def parse_val_string)

lemma parse_val_base64:
  "parse_json d (Val (dquote # b64_enc b @ dquote # r)) = Some (JStr (b64_enc b), r)"
proof -
  have "\<forall>c\<in>set (b64_enc b). 0x20 \<le> ord c \<and> ord c < 0x80 \<and> c \<noteq> dquote \<and> c \<noteq> bsl"
    using b64_enc_set [of b] by fastforce
  then show ?thesis by (intro parse_val_string parse_str_plain)
qed

lemma zero_digit: "byte 48 = CHR ''0''"
  by (rule byte_eq) simp

lemma dec_string_zero: "hd (dec_string n) = CHR ''0'' \<longleftrightarrow> n = 0"
proof (induction n rule: dec_string.induct)
  case (1 n)
  show ?case
  proof (cases "n < 10")
    case True
    have "char_of (48 + n) = CHR ''0'' \<longleftrightarrow> n = 0"
    proof
      assume "char_of (48 + n) = CHR ''0''"
      then have "ord (char_of (48 + n)) = ord (CHR ''0'')" by (rule arg_cong)
      then show "n = 0" using of_char_digit [OF True] by simp
    qed (simp add: zero_digit)
    then show ?thesis using True by (simp add: dec_string.simps [of n])
  next
    case False
    then have "n div 10 \<noteq> 0" by auto
    then show ?thesis using False "1.IH" by (simp add: dec_string.simps [of n])
  qed
qed

lemma digit_not: "is_digit c \<Longrightarrow> c \<noteq> dquote \<and> c \<noteq> CHR ''{'' \<and> c \<noteq> CHR ''['' \<and> c \<noteq> CHR ''t'' \<and>
    c \<noteq> CHR ''f'' \<and> c \<noteq> CHR ''n'' \<and> c \<noteq> CHR ''-'' \<and> \<not> is_ws c"
  by (auto simp: is_digit_def is_ws_def dquote_def)

text \<open>What may follow a number in an object.\<close>

definition ends_number :: "bytes \<Rightarrow> bool" where
  "ends_number r \<longleftrightarrow> r \<noteq> [] \<and> hd r \<in> {CHR '','', CHR ''}''}"

lemma dec_string_cases: obtains c s where "dec_string n = c # s" "is_digit c" "\<forall>x\<in>set s. is_digit x"
  using dec_string_digits [of n] dec_string_ne [of n] by (cases "dec_string n") auto

lemma digits_dec:
  assumes "ends_number r" and "\<forall>x\<in>set u. is_digit x" and "u \<noteq> []"
  shows "digits (u @ r) = Some (u, r)"
proof -
  have "\<not> is_digit (hd r)" using assms(1) by (auto simp: ends_number_def is_digit_def)
  then have "takeWhile is_digit r = []" "dropWhile is_digit r = r" by (cases r; simp)+
  then show ?thesis using assms(2,3) by (simp add: digits_def)
qed

lemma int_part_dec:
  assumes "ends_number r"
  shows "int_part (dec_string n @ r) = Some (dec_string n, r)"
proof (cases "n = 0")
  case True
  then show ?thesis by (simp add: int_part_def dec_string.simps [of 0] zero_digit)
next
  case False
  obtain c s where c: "dec_string n = c # s" using dec_string_ne [of n] by (cases "dec_string n") auto
  then have "c \<noteq> CHR ''0''" using dec_string_zero [of n] False by simp
  then have "int_part (dec_string n @ r) = digits (dec_string n @ r)" by (simp add: int_part_def c)
  also have "\<dots> = Some (dec_string n, r)" by (rule digits_dec [OF assms dec_string_digits dec_string_ne])
  finally show ?thesis .
qed

lemma number_dec_int:
  assumes "ends_number r"
  shows "number (dec_int i @ r) = Some (dec_int i, r)"
proof -
  have r: "frac_part r = Some ([], r)" "exp_part r = Some ([], r)"
    using assms by (cases r; auto simp: ends_number_def frac_part_def exp_part_def)+
  obtain c s where "dec_string (nat i) = c # s" "is_digit c" by (rule dec_string_cases)
  then have "\<not> has_prefix (dec_string (nat i) @ r) ''-''" using digit_not [of c] by simp
  then show ?thesis using r int_part_dec [OF assms] by (simp add: number_def dec_int_def)
qed

lemma parse_val_int:
  assumes "ends_number r"
  shows "parse_json d (Val (dec_int i @ r)) = Some (JNum (dec_int i), r)"
proof -
  obtain c s where c: "dec_int i = c # s" "c = CHR ''-'' \<or> is_digit c"
  proof (cases "i < 0")
    case True
    then show ?thesis using that by (simp add: dec_int_def)
  next
    case False
    obtain c s where "dec_string (nat i) = c # s" "is_digit c" by (rule dec_string_cases)
    then show ?thesis using that False by (simp add: dec_int_def)
  qed
  then have "c \<noteq> dquote \<and> c \<noteq> CHR ''{'' \<and> c \<noteq> CHR ''['' \<and> c \<noteq> CHR ''t'' \<and> c \<noteq> CHR ''f'' \<and>
    c \<noteq> CHR ''n'' \<and> \<not> is_ws c" using digit_not [of c] by (auto simp: dquote_def)
  then show ?thesis
    using number_dec_int [OF assms, of i] c by (simp add: parse_json.simps(1) Let_def)
qed

lemma int_of_dec_int:
  assumes "- (2 ^ 63) \<le> i" and "i < 2 ^ 63"
  shows "int_of_lit (dec_int i) = Some i"
proof -
  have d: "list_all is_digit (dec_string n)" for n using dec_string_digits by (simp add: list_all_iff)
  obtain c s where "dec_string (nat i) = c # s" "is_digit c" by (rule dec_string_cases)
  then have "\<not> has_prefix (dec_string (nat i)) ''-''" using digit_not [of c] by simp
  then show ?thesis using d assms by (simp add: int_of_lit_def dec_int_def dec_value_dec_string)
qed

text \<open>The members of an object come back in order when each value does, whatever follows it.\<close>

lemma parse_members:
  assumes "ms \<noteq> []"
    and "\<And>k t v. (k, t, v) \<in> set ms \<Longrightarrow> (\<forall>r. parse_str (k @ dquote # r) = Some (k, r)) \<and>
      (\<forall>r. ends_number r \<longrightarrow> parse_json d (Val (t @ r)) = Some (v, r))"
  shows "parse_json d (Members (json_members (map (\<lambda>(k, t, v). (k, t)) ms) @ CHR ''}'' # rest)) =
    Some (JObj (map (\<lambda>(k, t, v). (k, v)) ms), rest)"
  using assms
proof (induction ms)
  case Nil
  then show ?case by simp
next
  case (Cons x xs)
  obtain k t v where x: "x = (k, t, v)" by (cases x)
  have k: "parse_str (k @ dquote # r) = Some (k, r)" for r using Cons.prems(2) [of k t v] x by simp
  have v: "parse_json d (Val (t @ r)) = Some (v, r)" if "ends_number r" for r
    using Cons.prems(2) [of k t v] x that by simp
  show ?case
  proof (cases xs)
    case Nil
    have "parse_json d (Val (t @ CHR ''}'' # rest)) = Some (v, CHR ''}'' # rest)"
      by (rule v) (simp add: ends_number_def)
    then show ?thesis using Nil x k by (simp add: parse_json.simps(3) step_in_def)
  next
    case (Cons y ys)
    let ?s = "json_members (map (\<lambda>(k, t, v). (k, t)) xs) @ CHR ''}'' # rest"
    have "parse_json d (Val (t @ CHR '','' # ?s)) = Some (v, CHR '','' # ?s)"
      by (rule v) (simp add: ends_number_def)
    moreover have "parse_json d (Members ?s) = Some (JObj (map (\<lambda>(k, t, v). (k, v)) xs), rest)"
    proof (rule Cons.IH)
      show "xs \<noteq> []" using Cons by simp
    qed (rule Cons.prems(2), simp)
    moreover have "json_members (map (\<lambda>(k, t, v). (k, t)) (x # xs)) @ CHR ''}'' # rest =
      dquote # k @ dquote # CHR '':'' # t @ CHR '','' # ?s"
      using Cons x by (cases y) simp
    ultimately show ?thesis using x k by (simp add: parse_json.simps(3) step_in_def)
  qed
qed

end
