(* ===== verification/Wire.thy ===== *)
theory Wire
  imports Frame Json_Syntax
begin

text \<open>
  The session protocol (\<open>Write\<close>, \<open>Read\<close> and \<open>ReadCounted\<close> of \<open>internal/wire/wire.go\<close>): a
  header of eight bytes, \<open>Magic\<close> and a big-endian length, and a JSON object.

  A stream is the list of bytes that arrive before reading stops, for whatever reason: end of
  file, a deadline, a broken connection (\<open>Stopped\<close>).  A write is the list of \<open>w.Write\<close> calls it
  makes, because two goroutines may write to one connection and only a call is atomic.  An
  \<open>int\<close> has 64 bits.
\<close>

definition Magic :: bytes where "Magic = ''ZMQC''"
definition Version :: int where "Version = 1"
definition MaxBody :: nat where "MaxBody = 2 * 2 ^ 20"

datatype wire_error = ErrMagic bytes | ErrTooBig | ErrVersion int | Stopped | JsonError | WriteError

subsection \<open>The JSON of a frame\<close>

text \<open>Struct tags: \<open>v\<close> and \<open>op\<close> are always present, the others only when not empty.\<close>

definition str_field :: "bytes \<Rightarrow> bytes \<Rightarrow> (bytes \<times> bytes) list" where
  "str_field k s = (if s = '''' then [] else [(k, quote_str s)])"

definition frame_fields :: "frame \<Rightarrow> (bytes \<times> bytes) list" where
  "frame_fields f =
     (''v'', dec_int (f_v f)) # (''op'', quote_str (f_op f)) #
     str_field ''id'' (f_id f) @ str_field ''name'' (f_name f) @ str_field ''from'' (f_from f) @
     str_field ''text'' (f_text f) @
     (if f_body f = [] then [] else [(''body'', dquote # b64_enc (f_body f) @ [dquote])]) @
     str_field ''error'' (f_error f) @
     (if f_lease f = 0 then [] else [(''lease'', dec_int (f_lease f))]) @
     str_field ''delivery'' (f_delivery f)"

definition marshal :: "frame \<Rightarrow> bytes" where
  "marshal f = json_object (frame_fields f)"

text \<open>
  \<open>json.Unmarshal\<close> into a \<open>Frame\<close>.  A member is matched to a field without regard to case; an
  unknown one is skipped; \<open>null\<close> leaves a field as it is (and empties a byte slice); a value of
  the wrong type is an error.  Go folds the two non-ASCII letters that fold to ASCII as well.
\<close>

function fold_key :: "bytes \<Rightarrow> bytes" where
  "fold_key [] = []"
| "fold_key (c # cs) =
     (if 65 \<le> ord c \<and> ord c \<le> 90 then byte (ord c + 32) # fold_key cs
      else if c = CHR 0xC5 \<and> take 1 cs = [CHR 0xBF] then CHR ''s'' # fold_key (drop 1 cs)
      else if c = CHR 0xE2 \<and> take 2 cs = [CHR 0x84, CHR 0xAA] then CHR ''k'' # fold_key (drop 2 cs)
      else c # fold_key cs)"
  by pat_completeness auto
termination by (relation "measure length") auto

definition set_int :: "json \<Rightarrow> (int \<Rightarrow> frame) \<Rightarrow> frame \<Rightarrow> frame option" where
  "set_int v upd f = (case v of
     JNum l \<Rightarrow> (case int_of_lit l of Some n \<Rightarrow> Some (upd n) | None \<Rightarrow> None)
   | JNull \<Rightarrow> Some f
   | _ \<Rightarrow> None)"

definition set_str :: "json \<Rightarrow> (bytes \<Rightarrow> frame) \<Rightarrow> frame \<Rightarrow> frame option" where
  "set_str v upd f = (case v of JStr s \<Rightarrow> Some (upd s) | JNull \<Rightarrow> Some f | _ \<Rightarrow> None)"

text \<open>A byte slice is base64 text, or an array of numbers below 256.\<close>

definition uint8_of :: "json \<Rightarrow> char option" where
  "uint8_of v = (case v of
     JNum l \<Rightarrow> if list_all is_digit l \<and> dec_value 0 l < 256 then Some (byte (dec_value 0 l)) else None
   | JNull \<Rightarrow> Some (CHR 0x00)
   | _ \<Rightarrow> None)"

definition set_bytes :: "json \<Rightarrow> (bytes \<Rightarrow> frame) \<Rightarrow> frame option" where
  "set_bytes v upd = (case v of
     JStr s \<Rightarrow> map_option upd (b64_dec s)
   | JNull \<Rightarrow> Some (upd [])
   | JArr vs \<Rightarrow> if list_all (\<lambda>x. uint8_of x \<noteq> None) vs then Some (upd (map (\<lambda>x. the (uint8_of x)) vs)) else None
   | _ \<Rightarrow> None)"

definition set_field :: "bytes \<Rightarrow> json \<Rightarrow> frame \<Rightarrow> frame option" where
  "set_field k v f =
     (if k = ''v'' then set_int v (\<lambda>n. f\<lparr>f_v := n\<rparr>) f
      else if k = ''op'' then set_str v (\<lambda>s. f\<lparr>f_op := s\<rparr>) f
      else if k = ''id'' then set_str v (\<lambda>s. f\<lparr>f_id := s\<rparr>) f
      else if k = ''name'' then set_str v (\<lambda>s. f\<lparr>f_name := s\<rparr>) f
      else if k = ''from'' then set_str v (\<lambda>s. f\<lparr>f_from := s\<rparr>) f
      else if k = ''text'' then set_str v (\<lambda>s. f\<lparr>f_text := s\<rparr>) f
      else if k = ''body'' then set_bytes v (\<lambda>s. f\<lparr>f_body := s\<rparr>)
      else if k = ''error'' then set_str v (\<lambda>s. f\<lparr>f_error := s\<rparr>) f
      else if k = ''lease'' then set_int v (\<lambda>n. f\<lparr>f_lease := n\<rparr>) f
      else if k = ''delivery'' then set_str v (\<lambda>s. f\<lparr>f_delivery := s\<rparr>) f
      else Some f)"

fun set_fields :: "(bytes \<times> json) list \<Rightarrow> frame \<Rightarrow> frame option" where
  "set_fields [] f = Some f"
| "set_fields ((k, v) # kvs) f = (case set_field (fold_key k) v f of
     None \<Rightarrow> None
   | Some g \<Rightarrow> set_fields kvs g)"

definition unmarshal :: "bytes \<Rightarrow> frame option" where
  "unmarshal s = (case json_of_bytes s of
     Some (JObj kvs) \<Rightarrow> set_fields kvs no_frame
   | Some JNull \<Rightarrow> Some no_frame
   | _ \<Rightarrow> None)"

subsection \<open>Framing\<close>

definition put_u32 :: "nat \<Rightarrow> bytes" where
  "put_u32 n = [byte (n div 2 ^ 24), byte (n div 2 ^ 16), byte (n div 2 ^ 8), byte n]"

fun get_u32 :: "bytes \<Rightarrow> nat" where
  "get_u32 [a, b, c, d] = ((ord a * 256 + ord b) * 256 + ord c) * 256 + ord d"
| "get_u32 _ = 0"

definition header :: "nat \<Rightarrow> bytes" where
  "header n = Magic @ put_u32 n"

definition with_version :: "frame \<Rightarrow> frame" where
  "with_version f = (if f_v f = 0 then f\<lparr>f_v := Version\<rparr> else f)"

text \<open>\<open>Write\<close>: its error and the calls to \<open>w.Write\<close> it makes; \<open>ok1\<close> and \<open>ok2\<close> say whether the
  first and the second one succeed.\<close>

definition write_frame :: "bool \<Rightarrow> bool \<Rightarrow> frame \<Rightarrow> wire_error option \<times> bytes list" where
  "write_frame ok1 ok2 f =
     (let raw = marshal (with_version f) in
      if MaxBody < length raw then (Some ErrTooBig, [])
      else if \<not> ok1 then (Some WriteError, [header (length raw)])
      else (if ok2 then None else Some WriteError, [header (length raw), raw]))"

text \<open>\<open>ReadCounted\<close>: the frame or the error, and the number of bytes consumed.\<close>

definition read_counted :: "bytes \<Rightarrow> (wire_error + frame) \<times> nat" where
  "read_counted s =
     (if length s < 8 then (Inl Stopped, length s)
      else if take 4 s \<noteq> Magic then (Inl (ErrMagic (take 4 s)), 8)
      else let n = get_u32 (take 4 (drop 4 s)) in
        if n = 0 \<or> MaxBody < n then (Inl ErrTooBig, 8)
        else if length s < 8 + n then (Inl Stopped, length s)
        else (case unmarshal (take n (drop 8 s)) of
          None \<Rightarrow> (Inl JsonError, 8 + n)
        | Some f \<Rightarrow> if f_v f \<noteq> 0 \<and> f_v f \<noteq> Version then (Inl (ErrVersion (f_v f)), 8 + n)
                    else (Inr f, 8 + n)))"

text \<open>What a frame is after a trip: a missing version filled in, invalid UTF-8 replaced.\<close>

definition carried :: "frame \<Rightarrow> frame" where
  "carried f = (with_version f)\<lparr>f_op := to_valid (f_op f), f_id := to_valid (f_id f),
     f_name := to_valid (f_name f), f_from := to_valid (f_from f), f_text := to_valid (f_text f),
     f_error := to_valid (f_error f), f_delivery := to_valid (f_delivery f)\<rparr>"

definition int64 :: "int \<Rightarrow> bool" where
  "int64 i \<longleftrightarrow> - (2 ^ 63) \<le> i \<and> i < 2 ^ 63"

subsection \<open>Lemmas: the length field\<close>

lemma byte_digits:
  fixes n :: nat
  assumes "n < 2 ^ 32"
  shows "((n div 2 ^ 24 mod 256 * 256 + n div 2 ^ 16 mod 256) * 256 + n div 2 ^ 8 mod 256) * 256 + n mod 256 = n"
proof -
  have "n div 2 ^ 24 < 256" using assms by (simp add: less_mult_imp_div_less)
  then have a: "n div 2 ^ 24 mod 256 = n div 2 ^ 16 div 256" by (simp add: div_mult2_eq)
  have b: "n div 2 ^ 16 = n div 2 ^ 8 div 256" by (simp add: div_mult2_eq)
  have c: "n div 2 ^ 8 = n div 256" by simp
  show ?thesis unfolding a by (simp only: div_mult_mod_eq b c)
qed

lemma get_put_u32: "n < 2 ^ 32 \<Longrightarrow> get_u32 (put_u32 n) = n"
  using byte_digits by (simp add: put_u32_def)

lemma header_length [simp]: "length (header n) = 8"
  by (simp add: header_def Magic_def put_u32_def)

lemma put_u32_length [simp]: "length (put_u32 n) = 4"
  by (simp add: put_u32_def)

lemma take_header [simp]: "take 4 (header n) = Magic" "drop 4 (header n) = put_u32 n"
  by (simp_all add: header_def Magic_def put_u32_def)

text \<open>What \<open>read_counted\<close> does behind a header.\<close>

lemma read_header:
  assumes "0 < n" and "n \<le> MaxBody"
  shows "read_counted (header n @ s) =
    (if length s < n then (Inl Stopped, 8 + length s)
     else (case unmarshal (take n s) of
       None \<Rightarrow> (Inl JsonError, 8 + n)
     | Some f \<Rightarrow> if f_v f \<noteq> 0 \<and> f_v f \<noteq> Version then (Inl (ErrVersion (f_v f)), 8 + n) else (Inr f, 8 + n)))"
proof -
  have "n < 2 ^ 32" using assms(2) by (simp add: MaxBody_def)
  then have "get_u32 (put_u32 n) = n" by (rule get_put_u32)
  then show ?thesis using assms by (simp add: read_counted_def Let_def)
qed

subsection \<open>Lemmas: a frame and its JSON\<close>

text \<open>The members with the values the parser finds in them.\<close>

definition str_entry :: "bytes \<Rightarrow> bytes \<Rightarrow> (bytes \<times> bytes \<times> json) list" where
  "str_entry k s = (if s = '''' then [] else [(k, quote_str s, JStr (to_valid s))])"

definition int_entry :: "bytes \<Rightarrow> int \<Rightarrow> (bytes \<times> bytes \<times> json) list" where
  "int_entry k i = (if i = 0 then [] else [(k, dec_int i, JNum (dec_int i))])"

definition body_entry :: "bytes \<Rightarrow> (bytes \<times> bytes \<times> json) list" where
  "body_entry b = (if b = [] then [] else [(''body'', dquote # b64_enc b @ [dquote], JStr (b64_enc b))])"

definition frame_entries :: "frame \<Rightarrow> (bytes \<times> bytes \<times> json) list" where
  "frame_entries f =
     (''v'', dec_int (f_v f), JNum (dec_int (f_v f))) # (''op'', quote_str (f_op f), JStr (to_valid (f_op f))) #
     str_entry ''id'' (f_id f) @ str_entry ''name'' (f_name f) @ str_entry ''from'' (f_from f) @
     str_entry ''text'' (f_text f) @ body_entry (f_body f) @ str_entry ''error'' (f_error f) @
     int_entry ''lease'' (f_lease f) @ str_entry ''delivery'' (f_delivery f)"

lemma frame_fields_entries: "frame_fields f = map (\<lambda>(k, t, v). (k, t)) (frame_entries f)"
  by (simp add: frame_fields_def frame_entries_def str_field_def str_entry_def int_entry_def body_entry_def)

definition plain_key :: "bytes \<Rightarrow> bool" where
  "plain_key k \<longleftrightarrow> (\<forall>c\<in>set k. 97 \<le> ord c \<and> ord c < 0x7B)"

lemma plain_key_parse: "plain_key k \<Longrightarrow> parse_str (k @ dquote # r) = Some (k, r)"
  by (intro parse_str_plain) (auto simp: plain_key_def dquote_def bsl_def)

lemma plain_key_fold: "plain_key k \<Longrightarrow> fold_key k = k"
  by (induction k) (auto simp: plain_key_def)

lemma frame_keys [simp]: "plain_key ''v''" "plain_key ''op''" "plain_key ''id''" "plain_key ''name''"
  "plain_key ''from''" "plain_key ''text''" "plain_key ''body''" "plain_key ''error''"
  "plain_key ''lease''" "plain_key ''delivery''"
  by (simp_all add: plain_key_def)

text \<open>Each entry reads back, whatever ends the value.\<close>

definition good_entry :: "nat \<Rightarrow> bytes \<times> bytes \<times> json \<Rightarrow> bool" where
  "good_entry d = (\<lambda>(k, t, v). plain_key k \<and> (\<forall>r. ends_number r \<longrightarrow> parse_json d (Val (t @ r)) = Some (v, r)))"

lemma good_entries:
  "plain_key k \<Longrightarrow> list_all (good_entry d) (str_entry k s)"
  "plain_key k \<Longrightarrow> list_all (good_entry d) (int_entry k i)"
  "list_all (good_entry d) (body_entry b)"
  using parse_val_base64 [of d b]
  by (simp_all add: str_entry_def int_entry_def body_entry_def good_entry_def parse_val_quote parse_val_int)

lemma frame_entries_good: "list_all (good_entry d) (frame_entries f)"
proof -
  have "good_entry d (''v'', dec_int (f_v f), JNum (dec_int (f_v f)))"
    "good_entry d (''op'', quote_str (f_op f), JStr (to_valid (f_op f)))"
    by (simp_all add: good_entry_def parse_val_quote parse_val_int)
  then show ?thesis
    by (simp add: frame_entries_def good_entries)
qed

lemma brace_not_quote [simp]: "CHR ''{'' \<noteq> dquote" "dquote \<noteq> CHR ''}''"
  by (simp_all add: dquote_def)

lemma marshal_parse: "json_of_bytes (marshal f) = Some (JObj (map (\<lambda>(k, t, v). (k, v)) (frame_entries f)))"
proof -
  have "parse_json 9999 (Members (json_members (map (\<lambda>(k, t, v). (k, t)) (frame_entries f)) @ CHR ''}'' # [])) =
    Some (JObj (map (\<lambda>(k, t, v). (k, v)) (frame_entries f)), [])"
  proof (rule parse_members)
    fix k t v assume "(k, t, v) \<in> set (frame_entries f)"
    then have "good_entry 9999 (k, t, v)" using frame_entries_good [of 9999 f] by (simp add: list_all_iff)
    then show "(\<forall>r. parse_str (k @ dquote # r) = Some (k, r)) \<and>
      (\<forall>r. ends_number r \<longrightarrow> parse_json 9999 (Val (t @ r)) = Some (v, r))"
      by (simp add: good_entry_def plain_key_parse)
  qed (simp add: frame_entries_def)
  moreover obtain s where "json_members (frame_fields f) = dquote # s"
    by (cases "tl (frame_fields f)") (auto simp: frame_fields_def)
  ultimately show ?thesis
    by (simp add: json_of_bytes_def marshal_def json_object_def parse_json.simps(1) Let_def
        maxDepth_def step_in_def frame_fields_entries)
qed

lemma set_fields_append: "set_fields (xs @ ys) f = Option.bind (set_fields xs f) (set_fields ys)"
  by (induction xs f rule: set_fields.induct) (auto split: option.splits)

abbreviation entry_values :: "(bytes \<times> bytes \<times> json) list \<Rightarrow> (bytes \<times> json) list" where
  "entry_values \<equiv> map (\<lambda>(k, t, v). (k, v))"

lemma set_str_entry:
  assumes "plain_key k" and "\<And>u. set_field k (JStr u) f = Some (upd u)" and "upd '''' = f"
  shows "set_fields (entry_values (str_entry k s)) f = Some (upd (to_valid s))"
  using assms by (simp add: str_entry_def plain_key_fold)

lemma set_int_entry:
  assumes "plain_key k" and "\<And>l. set_field k (JNum l) f = map_option upd (int_of_lit l)" and "upd 0 = f"
    and "int64 i"
  shows "set_fields (entry_values (int_entry k i)) f = Some (upd i)"
  using assms int_of_dec_int [of i] by (simp add: int_entry_def plain_key_fold int64_def)

lemma set_body_entry:
  assumes "f_body f = []"
  shows "set_fields (entry_values (body_entry b)) f = Some (f\<lparr>f_body := b\<rparr>)"
  using assms
  by (simp add: body_entry_def plain_key_fold set_field_def set_bytes_def b64_dec_enc)

lemma unmarshal_marshal:
  assumes "int64 (f_v f)" and "int64 (f_lease f)" and "f_v f \<noteq> 0"
  shows "unmarshal (marshal f) = Some (carried f)"
proof -
  let ?u = "to_valid"
  let ?f0 = "no_frame\<lparr>f_v := f_v f, f_op := ?u (f_op f)\<rparr>"
  let ?f1 = "?f0\<lparr>f_id := ?u (f_id f)\<rparr>"
  let ?f2 = "?f1\<lparr>f_name := ?u (f_name f)\<rparr>"
  let ?f3 = "?f2\<lparr>f_from := ?u (f_from f)\<rparr>"
  let ?f4 = "?f3\<lparr>f_text := ?u (f_text f)\<rparr>"
  let ?f5 = "?f4\<lparr>f_body := f_body f\<rparr>"
  let ?f6 = "?f5\<lparr>f_error := ?u (f_error f)\<rparr>"
  let ?f7 = "?f6\<lparr>f_lease := f_lease f\<rparr>"
  let ?f8 = "?f7\<lparr>f_delivery := ?u (f_delivery f)\<rparr>"
  have h: "set_fields ((''v'', JNum (dec_int (f_v f))) # (''op'', JStr (?u (f_op f))) # r) no_frame = set_fields r ?f0" for r
    using assms(1) int_of_dec_int [of "f_v f"]
    by (simp add: plain_key_fold set_field_def set_int_def set_str_def int64_def)
  have 1: "set_fields (entry_values (str_entry ''id'' (f_id f))) ?f0 = Some ?f1"
    by (rule set_str_entry) (simp_all add: set_field_def set_str_def no_frame_def)
  have 2: "set_fields (entry_values (str_entry ''name'' (f_name f))) ?f1 = Some ?f2"
    by (rule set_str_entry) (simp_all add: set_field_def set_str_def no_frame_def)
  have 3: "set_fields (entry_values (str_entry ''from'' (f_from f))) ?f2 = Some ?f3"
    by (rule set_str_entry) (simp_all add: set_field_def set_str_def no_frame_def)
  have 4: "set_fields (entry_values (str_entry ''text'' (f_text f))) ?f3 = Some ?f4"
    by (rule set_str_entry) (simp_all add: set_field_def set_str_def no_frame_def)
  have 5: "set_fields (entry_values (body_entry (f_body f))) ?f4 = Some ?f5"
    by (rule set_body_entry) (simp add: no_frame_def)
  have 6: "set_fields (entry_values (str_entry ''error'' (f_error f))) ?f5 = Some ?f6"
    by (rule set_str_entry) (simp_all add: set_field_def set_str_def no_frame_def)
  have 7: "set_fields (entry_values (int_entry ''lease'' (f_lease f))) ?f6 = Some ?f7"
    by (rule set_int_entry [OF _ _ _ assms(2)])
      (simp_all add: set_field_def set_int_def no_frame_def split: option.split)
  have 8: "set_fields (entry_values (str_entry ''delivery'' (f_delivery f))) ?f7 = Some ?f8"
    by (rule set_str_entry) (simp_all add: set_field_def set_str_def no_frame_def)
  have "?f8 = carried f" using assms(3) by (simp add: carried_def with_version_def no_frame_def)
  then have "set_fields (entry_values (frame_entries f)) no_frame = Some (carried f)"
    by (simp add: frame_entries_def h set_fields_append 1 2 3 4 5 6 7 8 del: set_fields.simps)
  then show ?thesis by (simp add: unmarshal_def marshal_parse)
qed

end
