(* ===== verification/Client.thy ===== *)
theory Client
  imports Wire
begin

text \<open>
  The Go client (\<open>src/client.go\<close>): one session on a hub, one call at a time.

  The connection is seen from the client: \<open>c_rest\<close> holds the bytes that have arrived and have
  not been read, \<open>c_wrote\<close> the frames given to \<open>wire.Write\<close>, with what that call returned.  A
  call gets the bytes that arrive before its reading stops (its deadline, a broken connection)
  as an argument; what it does not consume stays for the next call.  The random prefix of the
  correlation ids and the time, which replaces it when there are no random bytes, come from
  \<open>cenv\<close>.
\<close>

record client =
  c_name :: string
  c_seq :: "64 word"
  c_prefix :: "string option"
  c_desync :: bool
  c_rest :: bytes
  c_wrote :: "(frame \<times> wire_error option) list"

record cenv =
  v_rand :: "bytes option"     \<comment> \<open>\<open>rand.Read\<close>\<close>
  v_nano :: nat                \<comment> \<open>\<open>time.Now().UnixNano()\<close>\<close>
  v_write :: "frame \<Rightarrow> bool \<times> bool"  \<comment> \<open>which of the two \<open>w.Write\<close> calls succeed\<close>

text \<open>\<open>EDesync\<close> is \<open>ErrDesync\<close>, alone or wrapped around the read error; \<open>EOp\<close> an error frame;
  \<open>EAbandoned\<close> is \<open>ErrAbandoned\<close> after some attempts, with the last error.\<close>

datatype cerror = EDesync "wire_error option" | EWire wire_error | EOp string
  | EAbandoned nat "cerror option"

definition new_client :: client where
  "new_client = \<lparr>c_name = '''', c_seq = 0, c_prefix = None, c_desync = False, c_rest = [], c_wrote = []\<rparr>"

definition arrive :: "bytes \<Rightarrow> client \<Rightarrow> client" where
  "arrive s c = c\<lparr>c_rest := c_rest c @ s\<rparr>"

definition send_frame :: "cenv \<Rightarrow> frame \<Rightarrow> client \<Rightarrow> wire_error option \<times> client" where
  "send_frame v f c =
     (let e = fst (write_frame (fst (v_write v f)) (snd (v_write v f)) f) in
      (e, c\<lparr>c_wrote := c_wrote c @ [(f, e)]\<rparr>))"

subsection \<open>Correlation ids\<close>

fun hex_string :: "bytes \<Rightarrow> string" where
  "hex_string [] = []"
| "hex_string (c # cs) = hexd (ord c div 16) # hexd (ord c mod 16) # hex_string cs"

definition nextID :: "cenv \<Rightarrow> client \<Rightarrow> string \<times> client" where
  "nextID v c =
     (let p = (case c_prefix c of
         Some p \<Rightarrow> p
       | None \<Rightarrow> (case v_rand v of Some x \<Rightarrow> hex_string x | None \<Rightarrow> dec_string (v_nano v)));
          n = c_seq c + 1
      in (p @ ''-'' @ dec_string (unat n), c\<lparr>c_prefix := Some p, c_seq := n\<rparr>))"

subsection \<open>Reading a reply\<close>

lemma read_count_pos: "read_counted s = (Inr f, n) \<Longrightarrow> 0 < n \<and> n \<le> length s"
  by (auto simp: read_counted_def Let_def split: if_splits option.splits)

text \<open>\<open>readSkipPing\<close>: pings are answered (whatever the write returns) and skipped.  The loop ends
  because each round consumes a frame of what has arrived.\<close>

function readSkipPing :: "cenv \<Rightarrow> client \<Rightarrow> (cerror + frame) \<times> client" where
  "readSkipPing v c =
     (case read_counted (c_rest c) of
        (Inl e, n) \<Rightarrow>
          (let c1 = c\<lparr>c_rest := drop n (c_rest c)\<rparr> in
           if 0 < n then (Inl (EDesync (Some e)), c1\<lparr>c_desync := True\<rparr>) else (Inl (EWire e), c1))
      | (Inr f, n) \<Rightarrow>
          (let c1 = c\<lparr>c_rest := drop n (c_rest c)\<rparr> in
           if f_op f = OpPing
           then readSkipPing v (snd (send_frame v (no_frame\<lparr>f_op := OpPong, f_id := f_id f\<rparr>) c1))
           else (Inr f, c1)))"
  by pat_completeness auto
termination
  by (relation "measure (\<lambda>(v, c). length (c_rest c))")
    (auto simp: send_frame_def Let_def dest!: read_count_pos [OF sym])

declare readSkipPing.simps [simp del]

subsection \<open>Round trips\<close>

definition roundTrip :: "cenv \<Rightarrow> frame \<Rightarrow> client \<Rightarrow> (cerror + frame) \<times> client" where
  "roundTrip v req c =
     (if c_desync c then (Inl (EDesync None), c)
      else (case (if f_id req = '''' then nextID v c else (f_id req, c)) of
        (i, c1) \<Rightarrow> (case send_frame v (req\<lparr>f_id := i\<rparr>) c1 of
            (Some e, c2) \<Rightarrow> (Inl (EWire e), c2)
          | (None, c2) \<Rightarrow> readSkipPing v c2)))"

text \<open>An error frame becomes an error that names the call; \<open>reply\<close> is what the caller gets.\<close>

definition checked :: "string \<Rightarrow> (cerror + frame) \<times> client \<Rightarrow> (cerror + frame) \<times> client" where
  "checked label r = (case r of
     (Inl e, c) \<Rightarrow> (Inl e, c)
   | (Inr f, c) \<Rightarrow> if f_op f = OpErr then (Inl (EOp (label @ '': '' @ f_error f)), c) else (Inr f, c))"

definition no_reply :: "(cerror + frame) \<times> client \<Rightarrow> cerror option \<times> client" where
  "no_reply r = (case r of (Inl e, c) \<Rightarrow> (Some e, c) | (Inr f, c) \<Rightarrow> (None, c))"

definition Hello :: "cenv \<Rightarrow> string \<Rightarrow> client \<Rightarrow> cerror option \<times> client" where
  "Hello v name c =
     (let c1 = (if name \<noteq> '''' then c\<lparr>c_name := name\<rparr> else c) in
      no_reply (checked ''hello'' (roundTrip v (no_frame\<lparr>f_op := OpHello, f_from := c_name c1\<rparr>) c1)))"

definition Put :: "cenv \<Rightarrow> string \<Rightarrow> string \<Rightarrow> bytes \<Rightarrow> client \<Rightarrow> cerror option \<times> client" where
  "Put v name text body c = no_reply (checked (''put '' @ name)
     (roundTrip v (no_frame\<lparr>f_op := OpPut, f_name := name, f_from := c_name c, f_text := text, f_body := body\<rparr>) c))"

definition Take :: "cenv \<Rightarrow> string \<Rightarrow> client \<Rightarrow> (cerror + frame) \<times> client" where
  "Take v name c = checked (''take '' @ name)
     (roundTrip v (no_frame\<lparr>f_op := OpTake, f_name := name, f_from := c_name c\<rparr>) c)"

text \<open>The lease goes over the wire in whole seconds, rounded toward zero.\<close>

definition Reserve :: "cenv \<Rightarrow> string \<Rightarrow> int \<Rightarrow> client \<Rightarrow> (cerror + frame) \<times> client" where
  "Reserve v name lease c = checked (''reserve '' @ name)
     (roundTrip v (no_frame\<lparr>f_op := OpReserve, f_name := name, f_from := c_name c,
        f_lease := sgn lease * (\<bar>lease\<bar> div ns_second)\<rparr>) c)"

definition Ack :: "cenv \<Rightarrow> string \<Rightarrow> client \<Rightarrow> cerror option \<times> client" where
  "Ack v d c = no_reply (checked ''ack'' (roundTrip v (no_frame\<lparr>f_op := OpAck, f_delivery := d\<rparr>) c))"

definition Nack :: "cenv \<Rightarrow> string \<Rightarrow> client \<Rightarrow> cerror option \<times> client" where
  "Nack v d c = no_reply (checked ''nack'' (roundTrip v (no_frame\<lparr>f_op := OpNack, f_delivery := d\<rparr>) c))"

definition Ready :: "cenv \<Rightarrow> string \<Rightarrow> client \<Rightarrow> (cerror + frame) \<times> client" where
  "Ready v service c = checked (''ready '' @ service)
     (roundTrip v (no_frame\<lparr>f_op := OpReady, f_name := service, f_from := c_name c\<rparr>) c)"

definition Rep :: "cenv \<Rightarrow> string \<Rightarrow> string \<Rightarrow> string \<Rightarrow> bytes \<Rightarrow> client \<Rightarrow> cerror option \<times> client" where
  "Rep v i name text body c = no_reply (checked ''rep''
     (roundTrip v (no_frame\<lparr>f_op := OpRep, f_id := i, f_name := name, f_from := c_name c, f_text := text,
        f_body := body\<rparr>) c))"

definition Pub :: "cenv \<Rightarrow> string \<Rightarrow> string \<Rightarrow> bytes \<Rightarrow> client \<Rightarrow> cerror option \<times> client" where
  "Pub v topic text body c = no_reply (checked (''pub '' @ topic)
     (roundTrip v (no_frame\<lparr>f_op := OpPub, f_name := topic, f_from := c_name c, f_text := text, f_body := body\<rparr>) c))"

definition Sub :: "cenv \<Rightarrow> string \<Rightarrow> client \<Rightarrow> cerror option \<times> client" where
  "Sub v prefix c = no_reply (checked (''sub '' @ prefix)
     (roundTrip v (no_frame\<lparr>f_op := OpSub, f_name := prefix, f_from := c_name c\<rparr>) c))"

definition Recv :: "cenv \<Rightarrow> client \<Rightarrow> (cerror + frame) \<times> client" where
  "Recv v c = readSkipPing v c"

definition Ping :: "cenv \<Rightarrow> client \<Rightarrow> cerror option \<times> client" where
  "Ping v c = (case roundTrip v (no_frame\<lparr>f_op := OpPing\<rparr>) c of
     (Inl e, c1) \<Rightarrow> (Some e, c1)
   | (Inr f, c1) \<Rightarrow> (if f_op f \<noteq> OpPong then Some (EOp (''ping: got '' @ f_op f @ '' '' @ f_error f)) else None, c1))"

subsection \<open>Request: retries with one correlation id\<close>

definition is_desync :: "cerror \<Rightarrow> bool" where
  "is_desync e \<longleftrightarrow> (case e of EDesync x \<Rightarrow> True | _ \<Rightarrow> False)"

text \<open>\<open>arr i\<close> are the bytes that arrive during attempt \<open>i\<close>; \<open>n\<close> attempts are left, \<open>i\<close> are done.\<close>

fun request_loop :: "cenv \<Rightarrow> (nat \<Rightarrow> bytes) \<Rightarrow> frame \<Rightarrow> nat \<Rightarrow> nat \<Rightarrow> cerror option \<Rightarrow> client \<Rightarrow> (cerror + frame) \<times> client" where
  "request_loop v arr req i 0 lst c = (Inl (EAbandoned i lst), c)"
| "request_loop v arr req i (Suc n) lst c =
     (case checked (''req '' @ f_name req) (roundTrip v req (arrive (arr i) c)) of
        (Inr f, c1) \<Rightarrow> (Inr f, c1)
      | (Inl e, c1) \<Rightarrow>
          if is_desync e then (Inl (EAbandoned (Suc i) (Some e)), c1)
          else request_loop v arr req (Suc i) n (Some e) c1)"

definition Request :: "cenv \<Rightarrow> (nat \<Rightarrow> bytes) \<Rightarrow> string \<Rightarrow> string \<Rightarrow> bytes \<Rightarrow> int \<Rightarrow> client \<Rightarrow> (cerror + frame) \<times> client" where
  "Request v arr name text body attempts c =
     (let n = (if attempts \<le> 0 then 3 else nat attempts) in
      case nextID v c of
        (i, c1) \<Rightarrow> request_loop v arr (no_frame\<lparr>f_op := OpReq, f_id := i, f_name := name,
            f_from := c_name c1, f_text := text, f_body := body\<rparr>) 0 n None c1)"

end
