(* ===== verification/Hub.thy ===== *)
theory Hub
  imports Bus_System Frame
begin

text \<open>
  The hub (\<open>internal/hub/hub.go\<close>): sessions, the table of pending requests, the dispatch of
  frames, the goroutines that deliver jobs, heartbeats and shutdown.

  A session object outlives its registration in \<open>h.sessions\<close>, because goroutines still hold it;
  so \<open>sess\<close> maps every session id ever given to its object, and \<open>registered\<close> is the set that
  \<open>h.sessions\<close> holds.  What was written to a connection is \<open>s_out\<close>.  The environment of a
  step - clock, fresh id, file system, order of a range, which writes succeed - is the record
  \<open>env\<close>.  \<^const>\<open>None\<close> is a fault of the bus, which \<open>Bus_System\<close> excludes.
\<close>

record pendingReq =
  p_sess :: nat
  p_client :: string
  p_expires :: gotime

record session =
  s_name :: string
  s_closed :: bool
  s_unsub :: "nat list"      \<comment> \<open>the cancel functions, by channel\<close>
  s_inflight :: "string list"
  s_repAck :: "string \<rightharpoonup> string"
  s_seen :: gotime
  s_out :: "frame list"

record hub =
  hbus :: bus
  heartbeat :: int
  liveness :: int
  ttl :: int
  sids :: nat
  registered :: "nat set"
  sess :: "nat \<rightharpoonup> session"
  pending :: "string \<rightharpoonup> pendingReq"

record env =
  e_now :: gotime
  e_nid :: string
  e_io :: bool
  e_io2 :: bool
  e_nack_io :: "string \<Rightarrow> bool"
  e_ord :: "string list"
  e_victim :: string
  e_write :: "nat \<Rightarrow> frame \<Rightarrow> bool"

datatype herr = HBus gerr | HMissingID | HWrite

definition DefaultHeartbeat :: int where "DefaultHeartbeat = 5 * ns_second"
definition DefaultLiveness :: int where "DefaultLiveness = 3"
definition DefaultPendingTTL :: int where "DefaultPendingTTL = 10 * ns_minute"

text \<open>\<open>time.Duration\<close> is an \<open>int64\<close>: products wrap.\<close>

definition wrap64 :: "int \<Rightarrow> int" where
  "wrap64 x = sint (word_of_int x :: 64 word)"

definition newHub :: "bus \<Rightarrow> hub" where
  "newHub b = \<lparr>hbus = b, heartbeat = DefaultHeartbeat, liveness = DefaultLiveness, ttl = 0, sids = 0,
     registered = {}, sess = Map.empty, pending = Map.empty\<rparr>"

definition upd_sess :: "nat \<Rightarrow> (session \<Rightarrow> session) \<Rightarrow> hub \<Rightarrow> hub" where
  "upd_sess sid f h = h\<lparr>sess := (sess h)(sid := map_option f (sess h sid))\<rparr>"

subsection \<open>Ending a session\<close>

fun unsub_all :: "nat list \<Rightarrow> bus \<Rightarrow> bus option" where
  "unsub_all [] b = Some b"
| "unsub_all (ch # chs) b = do { b1 \<leftarrow> unsub ch b; unsub_all chs b1 }"

fun nack_all :: "(string \<Rightarrow> bool) \<Rightarrow> string list \<Rightarrow> bus \<Rightarrow> bus option" where
  "nack_all io [] b = Some b"
| "nack_all io (i # is) b = do { r \<leftarrow> nack (io i) i b; nack_all io is (snd r) }"

definition clearPending :: "nat \<Rightarrow> hub \<Rightarrow> hub" where
  "clearPending sid h = h\<lparr>pending := (\<lambda>k. case pending h k of None \<Rightarrow> None
     | Some p \<Rightarrow> if p_sess p = sid then None else Some p)\<rparr>"

definition s_close :: "env \<Rightarrow> nat \<Rightarrow> hub \<Rightarrow> hub option" where
  "s_close e sid h = (case sess h sid of
     None \<Rightarrow> Some h
   | Some s \<Rightarrow>
       if s_closed s then Some h
       else let h1 = upd_sess sid (\<lambda>s. s\<lparr>s_closed := True, s_unsub := [], s_inflight := []\<rparr>) h in do {
         b1 \<leftarrow> unsub_all (s_unsub s) (hbus h1);
         b2 \<leftarrow> nack_all (e_nack_io e) (s_inflight s) b1;
         Some (clearPending sid (h1\<lparr>hbus := b2\<rparr>)) })"

subsection \<open>Writing a frame\<close>

definition reply :: "env \<Rightarrow> nat \<Rightarrow> frame \<Rightarrow> hub \<Rightarrow> (herr option \<times> hub) option" where
  "reply e sid f h = (case sess h sid of
     None \<Rightarrow> Some (Some (HBus ErrClosed), h)
   | Some s \<Rightarrow>
       if s_closed s then Some (Some (HBus ErrClosed), h)
       else if e_write e sid f then Some (None, upd_sess sid (\<lambda>s. s\<lparr>s_out := s_out s @ [f]\<rparr>) h)
       else do { h1 \<leftarrow> s_close e sid h; Some (Some HWrite, h1) })"

definition first :: "string \<Rightarrow> string \<Rightarrow> string" where
  "first a b = (if a \<noteq> '''' then a else b)"

definition msgFrame :: "string \<Rightarrow> msg \<Rightarrow> frame" where
  "msgFrame i m = no_frame\<lparr>f_op := OpMsg, f_id := first i (m_id m), f_name := m_name m,
     f_from := m_from m, f_body := m_body m, f_text := m_body m\<rparr>"

definition err_text :: "herr \<Rightarrow> string" where
  "err_text x = (case x of
     HBus ErrClosed \<Rightarrow> ''mailbox: closed'' | HBus ErrEmpty \<Rightarrow> ''mailbox: empty''
   | HBus ErrTooLarge \<Rightarrow> ''mailbox: payload too large'' | HBus ErrBadName \<Rightarrow> ''mailbox: empty name''
   | HBus ErrDropped \<Rightarrow> ''mailbox: queue full'' | HBus ErrNotFound \<Rightarrow> ''mailbox: delivery not found''
   | HBus ErrCtx \<Rightarrow> ''context canceled'' | HBus ErrIO \<Rightarrow> ''i/o error''
   | HMissingID \<Rightarrow> ''req: missing correlation id'' | HWrite \<Rightarrow> ''i/o error'')"

definition err_frame :: "string \<Rightarrow> herr \<Rightarrow> frame" where
  "err_frame i x = no_frame\<lparr>f_op := OpErr, f_id := i, f_error := err_text x\<rparr>"

subsection \<open>Small operations of a session\<close>

definition scopedID :: "nat \<Rightarrow> string \<Rightarrow> string" where
  "scopedID sid i = (if i = '''' then '''' else CHR ''s'' # dec_string sid @ CHR '':'' # i)"

definition s_from :: "nat \<Rightarrow> frame \<Rightarrow> hub \<Rightarrow> string" where
  "s_from sid f h = (if f_from f \<noteq> '''' then f_from f
     else case sess h sid of None \<Rightarrow> '''' | Some s \<Rightarrow> s_name s)"

definition touch :: "env \<Rightarrow> nat \<Rightarrow> hub \<Rightarrow> hub" where
  "touch e sid h = upd_sess sid (\<lambda>s. s\<lparr>s_seen := e_now e\<rparr>) h"

definition trackInflight :: "nat \<Rightarrow> string \<Rightarrow> hub \<Rightarrow> hub" where
  "trackInflight sid d h = upd_sess sid (\<lambda>s. s\<lparr>s_inflight := s_inflight s @ [d]\<rparr>) h"

definition dropInflight :: "nat \<Rightarrow> string \<Rightarrow> hub \<Rightarrow> hub" where
  "dropInflight sid d h = upd_sess sid (\<lambda>s. s\<lparr>s_inflight := filter (\<lambda>x. x \<noteq> d) (s_inflight s)\<rparr>) h"

definition claimInflight :: "nat \<Rightarrow> string \<Rightarrow> hub \<Rightarrow> bool \<times> hub" where
  "claimInflight sid d h = (case sess h sid of
     None \<Rightarrow> (False, h)
   | Some s \<Rightarrow> if s_closed s then (False, h) else (True, dropInflight sid d h))"

definition trackRepAck :: "nat \<Rightarrow> string \<Rightarrow> string \<Rightarrow> hub \<Rightarrow> hub" where
  "trackRepAck sid k d h = (if k = '''' then h
     else upd_sess sid (\<lambda>s. s\<lparr>s_repAck := (s_repAck s)(k \<mapsto> d)\<rparr>) h)"

definition dropRepAck :: "nat \<Rightarrow> string \<Rightarrow> hub \<Rightarrow> hub" where
  "dropRepAck sid k h = upd_sess sid (\<lambda>s. s\<lparr>s_repAck := (s_repAck s)(k := None)\<rparr>) h"

definition takeRepAck :: "nat \<Rightarrow> string \<Rightarrow> hub \<Rightarrow> string \<times> hub" where
  "takeRepAck sid k h =
     ((case sess h sid of None \<Rightarrow> '''' | Some s \<Rightarrow> (case s_repAck s k of None \<Rightarrow> '''' | Some d \<Rightarrow> d)),
      dropRepAck sid k h)"

definition pendingTTL :: "hub \<Rightarrow> int" where
  "pendingTTL h = (if 0 < ttl h then ttl h else DefaultPendingTTL)"

definition expirePendingLocked :: "gotime \<Rightarrow> hub \<Rightarrow> hub" where
  "expirePendingLocked now h = h\<lparr>pending := (\<lambda>k. case pending h k of None \<Rightarrow> None
     | Some p \<Rightarrow> if p_expires p \<noteq> 0 \<and> p_expires p < now then None else Some p)\<rparr>"

definition takeLease :: "hub \<Rightarrow> int" where
  "takeLease h =
     (let iv = (if heartbeat h \<le> 0 then DefaultHeartbeat else heartbeat h);
          live = (if liveness h \<le> 0 then DefaultLiveness else liveness h);
          d = wrap64 (wrap64 (iv * live) * 2)
      in if d < ns_minute then ns_minute else d)"

subsection \<open>Dispatch\<close>

text \<open>What \<open>handle\<close> returns: an error for the client, the goroutine it starts, the new state.\<close>

datatype spawn = NoSpawn | SpawnTake bool | SpawnReserve | SpawnPump nat

type_synonym hres = "(herr option \<times> spawn \<times> hub) option"

definition answer :: "env \<Rightarrow> nat \<Rightarrow> frame \<Rightarrow> hub \<Rightarrow> hres" where
  "answer e sid f h = do { r \<leftarrow> reply e sid f h; Some (fst r, NoSpawn, snd r) }"

definition ok_frame :: "frame \<Rightarrow> frame" where
  "ok_frame f = no_frame\<lparr>f_op := OpOK, f_id := f_id f\<rparr>"

definition handleHello :: "env \<Rightarrow> nat \<Rightarrow> frame \<Rightarrow> hub \<Rightarrow> hres" where
  "handleHello e sid f h =
     (let h1 = (if f_from f \<noteq> '''' then upd_sess sid (\<lambda>s. s\<lparr>s_name := f_from f\<rparr>) h else h) in
      answer e sid ((ok_frame f)\<lparr>f_from := (case sess h1 sid of None \<Rightarrow> '''' | Some s \<Rightarrow> s_name s)\<rparr>) h1)"

definition handlePut :: "env \<Rightarrow> nat \<Rightarrow> frame \<Rightarrow> hub \<Rightarrow> hres" where
  "handlePut e sid f h =
     (let m = \<lparr>m_id = scopedID sid (f_id f), m_name = '''', m_from = s_from sid f h,
               m_body = payload f, m_at = 0\<rparr> in do {
      r \<leftarrow> put (e_now e) (e_nid e) (e_io e) (f_name f) m (hbus h);
      let h1 = h\<lparr>hbus := snd r\<rparr>;
      case fst r of
        Some x \<Rightarrow> Some (Some (HBus x), NoSpawn, h1)
      | None \<Rightarrow> answer e sid ((ok_frame f)\<lparr>f_name := f_name f\<rparr>) h1 })"

definition handleAck :: "env \<Rightarrow> nat \<Rightarrow> frame \<Rightarrow> hub \<Rightarrow> hres" where
  "handleAck e sid f h = (case ack (e_io e) (f_delivery f) (hbus h) of
     (Some x, b) \<Rightarrow> Some (Some (HBus x), NoSpawn, h\<lparr>hbus := b\<rparr>)
   | (None, b) \<Rightarrow> answer e sid (ok_frame f) (dropInflight sid (f_delivery f) (h\<lparr>hbus := b\<rparr>)))"

definition handleNack :: "env \<Rightarrow> nat \<Rightarrow> frame \<Rightarrow> hub \<Rightarrow> hres" where
  "handleNack e sid f h = do {
     r \<leftarrow> nack (e_io e) (f_delivery f) (hbus h);
     case r of
       (Some x, b) \<Rightarrow> Some (Some (HBus x), NoSpawn, h\<lparr>hbus := b\<rparr>)
     | (None, b) \<Rightarrow> answer e sid (ok_frame f) (dropInflight sid (f_delivery f) (h\<lparr>hbus := b\<rparr>)) }"

definition handleReq :: "env \<Rightarrow> nat \<Rightarrow> frame \<Rightarrow> hub \<Rightarrow> hres" where
  "handleReq e sid f h =
     (if f_id f = '''' then Some (Some HMissingID, NoSpawn, h)
      else let key = scopedID sid (f_id f);
               h1 = expirePendingLocked (e_now e) h;
               h2 = h1\<lparr>pending := (pending h1)(key \<mapsto>
                      \<lparr>p_sess = sid, p_client = f_id f, p_expires = e_now e + pendingTTL h\<rparr>)\<rparr>;
               m = \<lparr>m_id = key, m_name = '''', m_from = s_from sid f h, m_body = payload f, m_at = 0\<rparr>
      in do {
        r \<leftarrow> put (e_now e) (e_nid e) (e_io e) (f_name f) m (hbus h2);
        let h3 = h2\<lparr>hbus := snd r\<rparr>;
        case fst r of
          Some x \<Rightarrow> Some (Some (HBus x), NoSpawn,
            (case pending h3 key of
               Some p \<Rightarrow> if p_sess p = sid then h3\<lparr>pending := (pending h3)(key := None)\<rparr> else h3
             | None \<Rightarrow> h3))
        | None \<Rightarrow> Some (None, NoSpawn, h3) })"

definition repAckPart :: "env \<Rightarrow> nat \<Rightarrow> string \<Rightarrow> hub \<Rightarrow> hub" where
  "repAckPart e sid i h = (case takeRepAck sid i h of (d, h1) \<Rightarrow>
     if d = '''' then h1
     else case claimInflight sid d h1 of
       (True, h2) \<Rightarrow> h2\<lparr>hbus := snd (ack (e_io e) d (hbus h2))\<rparr>
     | (False, h2) \<Rightarrow> h2)"

definition handleRep :: "env \<Rightarrow> nat \<Rightarrow> frame \<Rightarrow> hub \<Rightarrow> hres" where
  "handleRep e sid f h =
     (let h1 = repAckPart e sid (f_id f) h;
          dest = pending h1 (f_id f);
          h2 = h1\<lparr>pending := (pending h1)(f_id f := None)\<rparr>
      in do {
        r \<leftarrow> reply e sid (ok_frame f) h2;
        case r of
          (Some x, h3) \<Rightarrow> Some (Some x, NoSpawn, h3)
        | (None, h3) \<Rightarrow> (case dest of
             None \<Rightarrow> Some (None, NoSpawn, h3)
           | Some p \<Rightarrow> do {
               r2 \<leftarrow> reply e (p_sess p) (no_frame\<lparr>f_op := OpRep, f_id := p_client p, f_name := f_name f,
                      f_from := s_from sid f h3, f_body := f_body f, f_text := f_text f\<rparr>) h3;
               Some (None, NoSpawn, snd r2) }) })"

definition handlePub :: "env \<Rightarrow> nat \<Rightarrow> frame \<Rightarrow> hub \<Rightarrow> hres" where
  "handlePub e sid f h =
     (let m = \<lparr>m_id = f_id f, m_name = '''', m_from = s_from sid f h, m_body = payload f, m_at = 0\<rparr> in do {
      r \<leftarrow> pub (e_now e) (e_victim e) (f_name f) m (hbus h);
      let h1 = h\<lparr>hbus := snd r\<rparr>;
      case fst r of
        Some x \<Rightarrow> Some (Some (HBus x), NoSpawn, h1)
      | None \<Rightarrow> answer e sid ((ok_frame f)\<lparr>f_name := f_name f\<rparr>) h1 })"

definition handleSub :: "env \<Rightarrow> nat \<Rightarrow> frame \<Rightarrow> hub \<Rightarrow> hres" where
  "handleSub e sid f h = do {
     r \<leftarrow> sub (e_ord e) (f_name f) (hbus h);
     case r of
       ((Some x, ch), b) \<Rightarrow> Some (Some (HBus x), NoSpawn, h\<lparr>hbus := b\<rparr>)
     | ((None, ch), b) \<Rightarrow> do {
         let h1 = upd_sess sid (\<lambda>s. s\<lparr>s_unsub := s_unsub s @ [ch]\<rparr>) (h\<lparr>hbus := b\<rparr>);
         r2 \<leftarrow> reply e sid ((ok_frame f)\<lparr>f_name := f_name f\<rparr>) h1;
         case r2 of
           (Some x, h2) \<Rightarrow> do { b2 \<leftarrow> unsub ch (hbus h2); Some (Some x, NoSpawn, h2\<lparr>hbus := b2\<rparr>) }
         | (None, h2) \<Rightarrow> Some (None, SpawnPump ch, h2) } }"

definition handleUnsub :: "env \<Rightarrow> nat \<Rightarrow> frame \<Rightarrow> hub \<Rightarrow> hres" where
  "handleUnsub e sid f h = do {
     b \<leftarrow> unsub_all (case sess h sid of None \<Rightarrow> [] | Some s \<Rightarrow> s_unsub s) (hbus h);
     answer e sid (ok_frame f) (upd_sess sid (\<lambda>s. s\<lparr>s_unsub := []\<rparr>) (h\<lparr>hbus := b\<rparr>)) }"

definition handle :: "env \<Rightarrow> nat \<Rightarrow> frame \<Rightarrow> hub \<Rightarrow> hres" where
  "handle e sid f h =
     (if f_op f = OpHello then handleHello e sid f h
      else if f_op f = OpPing then answer e sid (no_frame\<lparr>f_op := OpPong, f_id := f_id f\<rparr>) h
      else if f_op f = OpPong then Some (None, NoSpawn, h)
      else if f_op f = OpPut then handlePut e sid f h
      else if f_op f = OpTake then Some (None, SpawnTake False, h)
      else if f_op f = OpReady then Some (None, SpawnTake True, h)
      else if f_op f = OpReserve then Some (None, SpawnReserve, h)
      else if f_op f = OpAck then handleAck e sid f h
      else if f_op f = OpNack then handleNack e sid f h
      else if f_op f = OpReq then handleReq e sid f h
      else if f_op f = OpRep then handleRep e sid f h
      else if f_op f = OpPub then handlePub e sid f h
      else if f_op f = OpSub then handleSub e sid f h
      else if f_op f = OpUnsub then handleUnsub e sid f h
      else answer e sid (no_frame\<lparr>f_op := OpErr, f_id := f_id f, f_error := ''unknown op '' @ f_op f\<rparr>) h)"

text \<open>One round of the read loop of \<open>run\<close>: an error of \<open>handle\<close> is reported to the client.\<close>

definition run_frame :: "env \<Rightarrow> nat \<Rightarrow> frame \<Rightarrow> hub \<Rightarrow> (spawn \<times> hub) option" where
  "run_frame e sid f h = do {
     r \<leftarrow> handle e sid f (touch e sid h);
     case r of
       (None, sp, h1) \<Rightarrow> Some (sp, h1)
     | (Some x, sp, h1) \<Rightarrow> do { r2 \<leftarrow> reply e sid (err_frame (f_id f) x) h1; Some (sp, snd r2) } }"

subsection \<open>Delivering jobs\<close>

text \<open>
  \<open>takeJob\<close> after \<open>Take\<close> has returned \<open>m\<close>, one critical section at a time: \<open>Hold\<close> (and
  \<open>Requeue\<close> when it fails), \<open>trackInflight\<close> and \<open>trackRepAck\<close>, the write, and what follows it.
\<close>

definition unix_seconds :: "gotime \<Rightarrow> int" where
  "unix_seconds t = t div ns_second - 62135596800"

definition jobFrame :: "bool \<Rightarrow> frame \<Rightarrow> msg \<Rightarrow> delivery \<Rightarrow> frame" where
  "jobFrame keep f m d =
     (let o1 = msgFrame (m_id m) m;
          o2 = (if f_id o1 = '''' then o1\<lparr>f_id := f_id f\<rparr> else o1)
      in if keep then o2\<lparr>f_delivery := d_id d, f_lease := unix_seconds (d_expires d)\<rparr> else o2)"

definition jobHold :: "env \<Rightarrow> nat \<Rightarrow> frame \<Rightarrow> msg \<Rightarrow> hub \<Rightarrow> (delivery option \<times> hub) option" where
  "jobHold e sid f m h = (case hold (e_now e) (e_nid e) (e_io e) m (takeLease h) (hbus h) of
     (Inr d, b) \<Rightarrow> Some (Some d, h\<lparr>hbus := b\<rparr>)
   | (Inl x, b) \<Rightarrow> do {
       r \<leftarrow> requeue (e_io2 e) m b;
       r2 \<leftarrow> reply e sid (err_frame (f_id f) (HBus x)) (h\<lparr>hbus := snd r\<rparr>);
       Some (None, snd r2) })"

definition jobTrack :: "nat \<Rightarrow> bool \<Rightarrow> frame \<Rightarrow> msg \<Rightarrow> delivery \<Rightarrow> hub \<Rightarrow> hub" where
  "jobTrack sid keep f m d h =
     (let h1 = trackInflight sid (d_id d) h in
      if keep then trackRepAck sid (f_id (jobFrame keep f m d)) (d_id d) h1 else h1)"

definition jobSend :: "env \<Rightarrow> nat \<Rightarrow> bool \<Rightarrow> frame \<Rightarrow> msg \<Rightarrow> delivery \<Rightarrow> hub \<Rightarrow> hub option" where
  "jobSend e sid keep f m d h = do {
     r \<leftarrow> reply e sid (jobFrame keep f m d) h;
     case r of
       (Some x, h1) \<Rightarrow>
         (case claimInflight sid (d_id d) (dropRepAck sid (f_id (jobFrame keep f m d)) h1) of
            (True, h2) \<Rightarrow> do { r2 \<leftarrow> nack (e_io e) (d_id d) (hbus h2); Some (h2\<lparr>hbus := snd r2\<rparr>) }
          | (False, h2) \<Rightarrow> Some h2)
     | (None, h1) \<Rightarrow>
         if keep then Some h1
         else (case claimInflight sid (d_id d) h1 of
            (True, h2) \<Rightarrow> Some (h2\<lparr>hbus := snd (ack (e_io e) (d_id d) (hbus h2))\<rparr>)
          | (False, h2) \<Rightarrow> Some h2) }"

definition takeJob :: "env \<Rightarrow> nat \<Rightarrow> bool \<Rightarrow> frame \<Rightarrow> msg \<Rightarrow> hub \<Rightarrow> hub option" where
  "takeJob e sid keep f m h = do {
     r \<leftarrow> jobHold e sid f m h;
     case r of
       (None, h1) \<Rightarrow> Some h1
     | (Some d, h1) \<Rightarrow> jobSend e sid keep f m d (jobTrack sid keep f m d h1) }"

text \<open>\<open>reserveJob\<close> after \<open>Reserve\<close> has returned \<open>d\<close>; \<open>reserveLease\<close> is the lease it asks for.\<close>

definition reserveLease :: "frame \<Rightarrow> int" where
  "reserveLease f = wrap64 (f_lease f * ns_second)"

definition reserveFrame :: "frame \<Rightarrow> delivery \<Rightarrow> frame" where
  "reserveFrame f d = (msgFrame (f_id f) (d_msg d))
     \<lparr>f_delivery := d_id d, f_lease := unix_seconds (d_expires d)\<rparr>"

definition reserveJob :: "env \<Rightarrow> nat \<Rightarrow> frame \<Rightarrow> delivery \<Rightarrow> hub \<Rightarrow> hub option" where
  "reserveJob e sid f d h = do {
     r \<leftarrow> reply e sid (reserveFrame f d) (trackInflight sid (d_id d) h);
     case r of
       (None, h1) \<Rightarrow> Some h1
     | (Some x, h1) \<Rightarrow> (case claimInflight sid (d_id d) h1 of
          (True, h2) \<Rightarrow> do { r2 \<leftarrow> nack (e_io e) (d_id d) (hbus h2); Some (h2\<lparr>hbus := snd r2\<rparr>) }
        | (False, h2) \<Rightarrow> Some h2) }"

text \<open>One receive of \<open>pumpSub\<close>: whether it goes on, and the new state.\<close>

definition pumpSub :: "env \<Rightarrow> nat \<Rightarrow> nat \<Rightarrow> hub \<Rightarrow> (bool \<times> hub) option" where
  "pumpSub e sid ch h = (case ch_recv ch (schan (hbus h)) of
     (Got m, st) \<Rightarrow> do {
       r \<leftarrow> reply e sid (msgFrame '''' m) (h\<lparr>hbus := (hbus h)\<lparr>schan := st\<rparr>\<rparr>);
       Some (fst r = None, snd r) }
   | (Drained, st) \<Rightarrow> Some (False, h)
   | (Blocks, st) \<Rightarrow> Some (True, h))"

subsection \<open>Heartbeats, new sessions, shutdown\<close>

definition beat :: "env \<Rightarrow> nat \<Rightarrow> hub \<Rightarrow> (bool \<times> hub) option" where
  "beat e sid h =
     (let iv = heartbeat h;
          live = (if liveness h \<le> 0 then DefaultLiveness else liveness h);
          death = wrap64 (iv * live)
      in if iv \<le> 0 then Some (False, h)
         else case sess h sid of
           None \<Rightarrow> Some (False, h)
         | Some s \<Rightarrow>
             if s_closed s then Some (False, h)
             else let idle = (if s_seen s = 0 then 0 else e_now e - s_seen s) in
               if death \<le> idle then do { h1 \<leftarrow> s_close e sid h; Some (False, h1) }
               else if iv \<le> idle then do {
                 r \<leftarrow> reply e sid (no_frame\<lparr>f_op := OpPing\<rparr>) h;
                 if fst r \<noteq> None then do { h1 \<leftarrow> s_close e sid (snd r); Some (False, h1) }
                 else Some (True, snd r) }
               else Some (True, h))"

definition newSession :: "env \<Rightarrow> string \<Rightarrow> hub \<Rightarrow> nat \<times> hub" where
  "newSession e remote h =
     (let sid = Suc (sids h) in
      (sid, h\<lparr>sids := sid, registered := insert sid (registered h),
              sess := (sess h)(sid \<mapsto> \<lparr>s_name = remote, s_closed = False, s_unsub = [], s_inflight = [],
                s_repAck = Map.empty, s_seen = e_now e, s_out = []\<rparr>)\<rparr>))"

text \<open>What runs when \<open>ServeConn\<close> returns.\<close>

definition endSession :: "env \<Rightarrow> nat \<Rightarrow> hub \<Rightarrow> hub option" where
  "endSession e sid h = do {
     h1 \<leftarrow> s_close e sid h;
     Some (h1\<lparr>registered := registered h1 - {sid}\<rparr>) }"

fun close_sessions :: "env \<Rightarrow> nat list \<Rightarrow> hub \<Rightarrow> hub option" where
  "close_sessions e [] h = Some h"
| "close_sessions e (s # ss) h = do { h1 \<leftarrow> s_close e s h; close_sessions e ss h1 }"

text \<open>\<open>ord\<close> lists the registered sessions and \<open>bord\<close> the mailboxes, as Go ranges over them.\<close>

definition hubClose :: "env \<Rightarrow> string list \<Rightarrow> nat list \<Rightarrow> hub \<Rightarrow> hub option" where
  "hubClose e bord ord h = do {
     b \<leftarrow> closeBus bord (hbus h);
     close_sessions e ord (h\<lparr>hbus := b, registered := {}\<rparr>) }"

end

