(* ===== verification/Hub_Inv.thy ===== *)
theory Hub_Inv
  imports Hub
begin

text \<open>
  What the hub relies on of the bus, as the interface \<open>lease_store\<close>, and the lemmas about
  sessions: ending one gives back every job it holds, and no handler faults or breaks the
  invariant of the bus.
\<close>

subsection \<open>The lease interface\<close>

locale lease_store =
  fixes ok :: "'b \<Rightarrow> bool"
    and jobs_of :: "'b \<Rightarrow> 'm multiset"
    and lease :: "'b \<Rightarrow> string \<Rightarrow> 'd option"
    and giveback :: "bool \<Rightarrow> string \<Rightarrow> 'b \<Rightarrow> ('r \<times> 'b) option"
  assumes known: "ok b \<Longrightarrow> lease b i \<noteq> None \<Longrightarrow> \<exists>r b'. giveback io i b = Some (r, b') \<and> ok b' \<and>
      jobs_of b' = jobs_of b \<and> lease b' = (lease b)(i := None)"
    and unknown: "lease b i = None \<Longrightarrow> \<exists>r. giveback io i b = Some (r, b)"
begin

fun giveback_all :: "(string \<Rightarrow> bool) \<Rightarrow> string list \<Rightarrow> 'b \<Rightarrow> 'b option" where
  "giveback_all io [] b = Some b"
| "giveback_all io (i # is) b = (case giveback (io i) i b of
     None \<Rightarrow> None | Some (r, b1) \<Rightarrow> giveback_all io is b1)"

lemma giveback_all_spec:
  "ok b \<Longrightarrow> \<exists>b'. giveback_all io is b = Some b' \<and> ok b' \<and> jobs_of b' = jobs_of b \<and>
     lease b' = (\<lambda>j. if j \<in> set is then None else lease b j)"
proof (induction "is" arbitrary: b)
  case Nil
  then show ?case by simp
next
  case (Cons i js)
  obtain r b1 where b1: "giveback (io i) i b = Some (r, b1)" "ok b1" "jobs_of b1 = jobs_of b"
    "lease b1 = (lease b)(i := None)"
  proof (cases "lease b i")
    case None
    then have "(lease b)(i := None) = lease b" by (simp add: fun_upd_idem)
    then show ?thesis using unknown [OF None, of "io i"] Cons.prems that by auto
  next
    case (Some d)
    then show ?thesis using known [OF Cons.prems, of i "io i"] that by auto
  qed
  obtain b' where "giveback_all io js b1 = Some b'" "ok b'" "jobs_of b' = jobs_of b1"
    "lease b' = (\<lambda>j. if j \<in> set js then None else lease b1 j)"
    using Cons.IH [OF b1(2)] by blast
  then show ?case using b1 by (intro exI [of _ b']) (auto simp: fun_eq_iff)
qed

end

text \<open>The state of the bus the hub needs: both invariants, and the fields \<open>Nack\<close> never changes.\<close>

definition bus_ok :: "bus \<Rightarrow> bool" where
  "bus_ok b \<longleftrightarrow> bus_inv b \<and> pubsub_inv b"

lemma bus_okD: "bus_ok b \<Longrightarrow> bus_inv b" "bus_ok b \<Longrightarrow> pubsub_inv b"
  by (simp_all add: bus_ok_def)

lemma moves_ok: "moves b i u b' \<Longrightarrow> pubsub_inv b \<Longrightarrow> bus_ok b'"
  using moves_inv moves_pubsub by (auto simp: bus_ok_def)

interpretation leases: lease_store bus_ok jobs inflight nack
proof unfold_locales
  fix b :: bus and i :: string and io :: bool
  assume ok: "bus_ok b" and "inflight b i \<noteq> None"
  then obtain d where d: "inflight b i = Some d" by auto
  obtain r b' where "nack io i b = Some (r, b')" and mv: "moves b {#} {#} b'"
    and "inflight b' = (inflight b)(i := None)"
    by (rule nack_moves [OF bus_okD(1) [OF ok] d, of io])
  moreover have "bus_ok b'" by (rule moves_ok [OF mv bus_okD(2) [OF ok]])
  ultimately show "\<exists>r b'. nack io i b = Some (r, b') \<and> bus_ok b' \<and>
      jobs b' = jobs b \<and> inflight b' = (inflight b)(i := None)"
    by (auto simp: moves_def)
next
  fix b :: bus and i :: string and io :: bool
  assume "inflight b i = None"
  then show "\<exists>r. nack io i b = Some (r, b)" by (simp add: nack_def)
qed

lemma nack_all_eq: "nack_all io is b = leases.giveback_all io is b"
  by (induction "is" arbitrary: b) (auto simp: bind_eq_Some_conv split: option.split)

lemma nack_all_spec:
  "bus_ok b \<Longrightarrow> \<exists>b'. nack_all io is b = Some b' \<and> bus_ok b' \<and> jobs b' = jobs b \<and>
     inflight b' = (\<lambda>j. if j \<in> set is then None else inflight b j)"
  unfolding nack_all_eq by (rule leases.giveback_all_spec)

lemma unsub_all_spec:
  "bus_ok b \<Longrightarrow> \<exists>b'. unsub_all chs b = Some b' \<and> bus_ok b' \<and> jobs b' = jobs b \<and>
     inflight b' = inflight b \<and> (\<forall>s\<in>set (subs b'). s \<in> set (subs b) \<and> sch s \<notin> set chs)"
proof (induction chs arbitrary: b)
  case Nil
  then show ?case by auto
next
  case (Cons ch chs)
  have sok: "subs_ok b" using Cons.prems by (simp add: bus_ok_def pubsub_inv_def)
  obtain b1 where b1: "unsub ch b = Some b1" "bus_inv b1" "pubsub_inv b1" "jobs b1 = jobs b"
    by (rule unsub_ok [OF bus_okD [OF Cons.prems], of ch])
  have f: "inflight b1 = inflight b" "subs b1 = filter (\<lambda>s. sch s \<noteq> ch) (subs b)"
    using unsub_result [OF sok, of ch] b1(1) by auto
  obtain b' where "unsub_all chs b1 = Some b'" "bus_ok b'" "jobs b' = jobs b1"
    "inflight b' = inflight b1" "\<forall>s\<in>set (subs b'). s \<in> set (subs b1) \<and> sch s \<notin> set chs"
    using Cons.IH [of b1] b1 by (auto simp: bus_ok_def)
  then show ?case using b1 f by (intro exI [of _ b']) auto
qed

subsection \<open>Sessions\<close>

lemma upd_sess_fields [simp]:
  "hbus (upd_sess sid f h) = hbus h" "pending (upd_sess sid f h) = pending h"
  "sids (upd_sess sid f h) = sids h" "registered (upd_sess sid f h) = registered h"
  "heartbeat (upd_sess sid f h) = heartbeat h" "liveness (upd_sess sid f h) = liveness h"
  "ttl (upd_sess sid f h) = ttl h"
  by (simp_all add: upd_sess_def)

lemma sess_upd [simp]:
  "sess (upd_sess sid f h) x = (if x = sid then map_option f (sess h sid) else sess h x)"
  by (simp add: upd_sess_def)

lemma clearPending_fields [simp]:
  "hbus (clearPending sid h) = hbus h" "sess (clearPending sid h) = sess h"
  "sids (clearPending sid h) = sids h" "registered (clearPending sid h) = registered h"
  by (simp_all add: clearPending_def)

definition shut_sess :: "session \<Rightarrow> session" where
  "shut_sess s = s\<lparr>s_closed := True, s_unsub := [], s_inflight := []\<rparr>"

lemma s_close_open:
  assumes ok: "bus_ok (hbus h)" and s: "sess h sid = Some s" and op: "\<not> s_closed s"
  obtains h' where "s_close e sid h = Some h'" and "bus_ok (hbus h')" and "jobs (hbus h') = jobs (hbus h)"
    and "inflight (hbus h') = (\<lambda>j. if j \<in> set (s_inflight s) then None else inflight (hbus h) j)"
    and "sess h' = (sess h)(sid \<mapsto> shut_sess s)"
    and "pending h' = (\<lambda>k. case pending h k of None \<Rightarrow> None
           | Some p \<Rightarrow> if p_sess p = sid then None else Some p)"
    and "\<forall>x\<in>set (subs (hbus h')). sch x \<notin> set (s_unsub s)"
    and "sids h' = sids h" and "registered h' = registered h"
proof -
  let ?h1 = "upd_sess sid (\<lambda>s. s\<lparr>s_closed := True, s_unsub := [], s_inflight := []\<rparr>) h"
  obtain b1 where b1: "unsub_all (s_unsub s) (hbus h) = Some b1" "bus_ok b1" "jobs b1 = jobs (hbus h)"
    "inflight b1 = inflight (hbus h)" "\<forall>x\<in>set (subs b1). sch x \<notin> set (s_unsub s)"
    using unsub_all_spec [OF ok, of "s_unsub s"] by auto
  obtain b2 where b2: "nack_all (e_nack_io e) (s_inflight s) b1 = Some b2" "bus_ok b2" "jobs b2 = jobs b1"
    "inflight b2 = (\<lambda>j. if j \<in> set (s_inflight s) then None else inflight b1 j)"
    using nack_all_spec [OF b1(2), of "e_nack_io e" "s_inflight s"] by auto
  have sb: "subs b2 = subs b1" if "nack_all io is b1 = Some b2" for io "is"
    using that b1(2)
  proof (induction "is" arbitrary: b1)
    case Nil
    then show ?case by simp
  next
    case (Cons i js)
    then obtain r c where c: "nack (io i) i b1 = Some (r, c)" "nack_all io js c = Some b2"
      by (auto simp: bind_eq_Some_conv)
    have "subs c = subs b1 \<and> bus_ok c"
    proof (cases "inflight b1 i")
      case None
      then show ?thesis using c Cons.prems by (simp add: nack_def)
    next
      case (Some d)
      obtain r' c' where n: "nack (io i) i b1 = Some (r', c')" and mv: "moves b1 {#} {#} c'"
        by (rule nack_moves [OF bus_okD(1) [OF Cons.prems(2)] Some, of "io i"])
      then show ?thesis
        using c moves_ok [OF mv bus_okD(2) [OF Cons.prems(2)]] by (auto simp: moves_def same_frame_def)
    qed
    then show ?case using Cons.IH [of c] c by simp
  qed
  have eq: "s_close e sid h = Some (clearPending sid (?h1\<lparr>hbus := b2\<rparr>))"
    using s op b1 b2 by (simp add: s_close_def)
  have ss: "sess (clearPending sid (?h1\<lparr>hbus := b2\<rparr>)) = (sess h)(sid \<mapsto> shut_sess s)"
    using s by (auto simp: fun_eq_iff shut_sess_def upd_sess_def)
  show ?thesis
    by (rule that [OF eq]) (use b1 b2 sb [OF b2(1)] ss in \<open>simp_all add: clearPending_def fun_eq_iff\<close>)
qed

lemma s_close_ok:
  assumes ok: "bus_ok (hbus h)"
  obtains h' where "s_close e sid h = Some h'" and "bus_ok (hbus h')" and "jobs (hbus h') = jobs (hbus h)"
    and "\<And>s. sess h' sid = Some s \<Longrightarrow> s_closed s" and "\<And>x. x \<noteq> sid \<Longrightarrow> sess h' x = sess h x"
    and "\<And>i. inflight (hbus h) i = None \<Longrightarrow> inflight (hbus h') i = None"
    and "sids h' = sids h"
proof (cases "\<exists>s. sess h sid = Some s \<and> \<not> s_closed s")
  case True
  then obtain s where s: "sess h sid = Some s" "\<not> s_closed s" by blast
  obtain h' where h': "s_close e sid h = Some h'" "bus_ok (hbus h')" "jobs (hbus h') = jobs (hbus h)"
    "inflight (hbus h') = (\<lambda>j. if j \<in> set (s_inflight s) then None else inflight (hbus h) j)"
    "sess h' = (sess h)(sid \<mapsto> shut_sess s)" "sids h' = sids h"
    by (rule s_close_open [OF ok s, of e])
  show ?thesis by (rule that [OF h'(1,2,3)]) (use h' in \<open>auto simp: shut_sess_def\<close>)
next
  case False
  then have "s_close e sid h = Some h" by (auto simp: s_close_def split: option.split)
  then show ?thesis using ok False by (intro that [of h]) auto
qed

lemma reply_ok:
  assumes ok: "bus_ok (hbus h)"
  obtains r h' where "reply e sid f h = Some (r, h')" and "bus_ok (hbus h')"
    and "jobs (hbus h') = jobs (hbus h)" and "sids h' = sids h"
proof (cases "\<exists>s. sess h sid = Some s \<and> \<not> s_closed s")
  case False
  then have "\<exists>r. reply e sid f h = Some (r, h)" by (auto simp: reply_def split: option.split)
  then show ?thesis using ok that by blast
next
  case True
  then obtain s where s: "sess h sid = Some s" "\<not> s_closed s" by blast
  show ?thesis
  proof (cases "e_write e sid f")
    case True
    let ?h = "upd_sess sid (\<lambda>s. s\<lparr>s_out := s_out s @ [f]\<rparr>) h"
    have "reply e sid f h = Some (None, ?h)" using s True by (simp add: reply_def)
    then show ?thesis using ok by (intro that [of None ?h]) simp_all
  next
    case False
    obtain h1 where h1: "s_close e sid h = Some h1" "bus_ok (hbus h1)" "jobs (hbus h1) = jobs (hbus h)"
      "sids h1 = sids h"
      by (rule s_close_ok [OF ok, of e sid])
    then have "reply e sid f h = Some (Some HWrite, h1)" using s False by (simp add: reply_def)
    then show ?thesis using h1 that by blast
  qed
qed

end
