(* ===== verification/Hub_Props.thy ===== *)
theory Hub_Props
  imports Hub_Inv Bus_Props
begin

text \<open>
  Properties of the hub: no frame can make it fault, ending a session gives everything back,
  replies reach the client that asked, jobs are acknowledged only after they were written, ids
  of different sessions are different, leases and pending requests are bounded.
\<close>

subsection \<open>The bus operations keep \<open>bus_ok\<close>\<close>

lemma put_bus_ok:
  assumes "bus_ok b"
  obtains r b' where "put now nid io n m b = Some (r, b')" and "bus_ok b'"
proof -
  obtain r b' where p: "put now nid io n m b = Some (r, b')"
    and mv: "moves b (if r = None \<and> \<not> indexedLocked n (m_id (stamp now nid n m)) (dedup b)
                  then {#stamp now nid n m#} else {#}) {#} b'"
    by (rule put_moves [OF bus_okD(1) [OF assms]]) blast
  show ?thesis using that [OF p moves_ok [OF mv bus_okD(2) [OF assms]]] .
qed

lemma ack_bus_ok:
  assumes "bus_ok b"
  shows "bus_ok (snd (ack io i b))"
proof (cases "inflight b i")
  case None
  then show ?thesis using assms by (simp add: ack_def)
next
  case (Some d)
  show ?thesis by (rule moves_ok [OF ack_moves(1) [OF bus_okD(1) [OF assms] Some] bus_okD(2) [OF assms]])
qed

lemma nack_bus_ok:
  assumes "bus_ok b"
  obtains r b' where "nack io i b = Some (r, b')" and "bus_ok b'" and "jobs b' = jobs b"
proof (cases "inflight b i")
  case None
  then show ?thesis using assms that by (simp add: nack_def)
next
  case (Some d)
  obtain r b' where n: "nack io i b = Some (r, b')" and mv: "moves b {#} {#} b'"
    by (rule nack_moves [OF bus_okD(1) [OF assms] Some, of io])
  show ?thesis
    by (rule that [OF n moves_ok [OF mv bus_okD(2) [OF assms]]]) (use mv in \<open>simp add: moves_def\<close>)
qed

lemma answer_ok:
  assumes "bus_ok (hbus h)"
  obtains x sp h' where "answer e sid f h = Some (x, sp, h')" and "bus_ok (hbus h')"
proof -
  obtain r h' where "reply e sid f h = Some (r, h')" "bus_ok (hbus h')" by (rule reply_ok [OF assms])
  then show ?thesis using that by (simp add: answer_def)
qed

lemma repAck_ok: "bus_ok (hbus h) \<Longrightarrow> bus_ok (hbus (repAckPart e sid i h))"
  by (auto simp: repAckPart_def takeRepAck_def dropRepAck_def claimInflight_def dropInflight_def
      intro: ack_bus_ok split: prod.splits bool.splits option.splits)

lemma handle_ok:
  assumes ok: "bus_ok (hbus h)" and v: "dom (lastv (hbus h)) \<noteq> {} \<longrightarrow> e_victim e \<in> dom (lastv (hbus h))"
  obtains x sp h' where "handle e sid f h = Some (x, sp, h')" and "bus_ok (hbus h')"
proof -
  have A: "\<exists>x sp h'. answer e sid g k = Some (x, sp, h') \<and> bus_ok (hbus h')" if "bus_ok (hbus k)" for g k
    by (rule answer_ok [OF that, of e sid g]) blast
  have hello: "\<exists>x sp h'. handleHello e sid f h = Some (x, sp, h') \<and> bus_ok (hbus h')"
    unfolding handleHello_def Let_def by (rule A) (use ok in simp)
  have put: "\<exists>x sp h'. handlePut e sid f h = Some (x, sp, h') \<and> bus_ok (hbus h')"
  proof -
    obtain r b' where "put (e_now e) (e_nid e) (e_io e) (f_name f) \<lparr>m_id = scopedID sid (f_id f),
        m_name = '''', m_from = s_from sid f h, m_body = payload f, m_at = 0\<rparr> (hbus h) = Some (r, b')"
      and "bus_ok b'" by (rule put_bus_ok [OF ok])
    then show ?thesis using A by (cases r) (simp_all add: handlePut_def Let_def)
  qed
  have ack: "\<exists>x sp h'. handleAck e sid f h = Some (x, sp, h') \<and> bus_ok (hbus h')"
  proof -
    obtain r b' where a: "ack (e_io e) (f_delivery f) (hbus h) = (r, b')" by fastforce
    then have "bus_ok b'" using ack_bus_ok [OF ok, of "e_io e" "f_delivery f"] by simp
    then show ?thesis using A a by (cases r) (simp_all add: handleAck_def dropInflight_def)
  qed
  have nack: "\<exists>x sp h'. handleNack e sid f h = Some (x, sp, h') \<and> bus_ok (hbus h')"
  proof -
    obtain r b' where "nack (e_io e) (f_delivery f) (hbus h) = Some (r, b')" "bus_ok b'"
      by (rule nack_bus_ok [OF ok])
    then show ?thesis using A by (cases r) (simp_all add: handleNack_def dropInflight_def)
  qed
  have req: "\<exists>x sp h'. handleReq e sid f h = Some (x, sp, h') \<and> bus_ok (hbus h')"
  proof (cases "f_id f = []")
    case True
    then show ?thesis using ok by (simp add: handleReq_def)
  next
    case False
    obtain r b' where "put (e_now e) (e_nid e) (e_io e) (f_name f) \<lparr>m_id = scopedID sid (f_id f),
        m_name = '''', m_from = s_from sid f h, m_body = payload f, m_at = 0\<rparr> (hbus h) = Some (r, b')"
      and "bus_ok b'" by (rule put_bus_ok [OF ok])
    then show ?thesis using False
      by (cases r) (simp_all add: handleReq_def Let_def expirePendingLocked_def)
  qed
  have rep: "\<exists>x sp h'. handleRep e sid f h = Some (x, sp, h') \<and> bus_ok (hbus h')"
  proof -
    let ?h1 = "repAckPart e sid (f_id f) h"
    let ?h2 = "?h1\<lparr>pending := (pending ?h1)(f_id f := None)\<rparr>"
    have "bus_ok (hbus ?h2)" using repAck_ok [OF ok] by simp
    then obtain r h3 where r: "reply e sid (ok_frame f) ?h2 = Some (r, h3)" and k: "bus_ok (hbus h3)"
      by (rule reply_ok)
    show ?thesis
    proof (cases "r = None \<and> pending ?h1 (f_id f) \<noteq> None")
      case False
      then show ?thesis using r k by (cases r) (auto simp: handleRep_def Let_def split: option.split)
    next
      case True
      then obtain p where p: "pending ?h1 (f_id f) = Some p" by auto
      obtain r2 h4 where "reply e (p_sess p) (no_frame\<lparr>f_op := OpRep, f_id := p_client p,
          f_name := f_name f, f_from := s_from sid f h3, f_body := f_body f, f_text := f_text f\<rparr>) h3
          = Some (r2, h4)" and "bus_ok (hbus h4)"
        by (rule reply_ok [OF k])
      then show ?thesis using r p True by (simp add: handleRep_def Let_def)
    qed
  qed
  have pub: "\<exists>x sp h'. handlePub e sid f h = Some (x, sp, h') \<and> bus_ok (hbus h')"
  proof -
    obtain r b' where "pub (e_now e) (e_victim e) (f_name f) \<lparr>m_id = f_id f, m_name = '''',
        m_from = s_from sid f h, m_body = payload f, m_at = 0\<rparr> (hbus h) = Some (r, b')"
      and "bus_inv b'" and "pubsub_inv b'"
      by (rule pub_ok [OF bus_okD [OF ok] v])
    then show ?thesis using A by (cases r) (simp_all add: handlePub_def Let_def bus_ok_def)
  qed
  have sub: "\<exists>x sp h'. handleSub e sid f h = Some (x, sp, h') \<and> bus_ok (hbus h')"
  proof -
    obtain r ch b' where s: "sub (e_ord e) (f_name f) (hbus h) = Some ((r, ch), b')"
      and b': "bus_inv b'" "pubsub_inv b'"
      by (rule sub_ok [OF bus_okD [OF ok], of "e_ord e" "f_name f"])
    let ?h1 = "upd_sess sid (\<lambda>s. s\<lparr>s_unsub := s_unsub s @ [ch]\<rparr>) (h\<lparr>hbus := b'\<rparr>)"
    have "bus_ok (hbus ?h1)" using b' by (simp add: bus_ok_def)
    then obtain r2 h2 where r2: "reply e sid ((ok_frame f)\<lparr>f_name := f_name f\<rparr>) ?h1 = Some (r2, h2)"
      and k: "bus_ok (hbus h2)" by (rule reply_ok)
    obtain b2 where "unsub ch (hbus h2) = Some b2" "bus_inv b2" "pubsub_inv b2"
      by (rule unsub_ok [OF bus_okD [OF k], of ch])
    then show ?thesis using s b' r2 k
      by (cases r; cases r2) (simp_all add: handleSub_def Let_def bus_ok_def)
  qed
  have unsub: "\<exists>x sp h'. handleUnsub e sid f h = Some (x, sp, h') \<and> bus_ok (hbus h')"
  proof -
    let ?chs = "case sess h sid of None \<Rightarrow> [] | Some s \<Rightarrow> s_unsub s"
    obtain b' where "unsub_all ?chs (hbus h) = Some b'" "bus_ok b'"
      using unsub_all_spec [OF ok, of ?chs] by blast
    then show ?thesis using A by (simp add: handleUnsub_def)
  qed
  have "\<exists>x sp h'. handle e sid f h = Some (x, sp, h') \<and> bus_ok (hbus h')"
    unfolding handle_def using hello put ack nack req rep pub sub unsub A [OF ok] ok by simp
  then show ?thesis using that by blast
qed

subsection \<open>No frame makes the hub fault\<close>

text \<open>Whatever frame arrives - any operation, known or not, any name, id,
  delivery or body - in whatever state the session is and whichever writes and file system calls
  fail, the hub handles it without a panic and without blocking under a mutex, and the bus
  invariant still holds.\<close>

theorem run_frame_total:
  assumes "bus_ok (hbus h)" and "dom (lastv (hbus h)) \<noteq> {} \<longrightarrow> e_victim e \<in> dom (lastv (hbus h))"
  shows "\<exists>sp h'. run_frame e sid f h = Some (sp, h') \<and> bus_ok (hbus h')"
proof -
  have t: "hbus (touch e sid h) = hbus h" by (simp add: touch_def)
  obtain x sp h1 where h: "handle e sid f (touch e sid h) = Some (x, sp, h1)" and k: "bus_ok (hbus h1)"
    by (rule handle_ok [of "touch e sid h" e sid f]) (use assms t in simp_all)
  show ?thesis
  proof (cases x)
    case None
    then show ?thesis using h k by (simp add: run_frame_def)
  next
    case (Some y)
    obtain r2 h2 where "reply e sid (err_frame (f_id f) y) h1 = Some (r2, h2)" "bus_ok (hbus h2)"
      by (rule reply_ok [OF k])
    then show ?thesis using h Some by (simp add: run_frame_def)
  qed
qed

definition env0 :: env where
  "env0 = \<lparr>e_now = 5, e_nid = ''L'', e_io = True, e_io2 = True, e_nack_io = (\<lambda>_. True), e_ord = [],
     e_victim = '''', e_write = (\<lambda>_ _. True)\<rparr>"

definition hub0 :: hub where
  "hub0 = snd (newSession env0 ''peer'' (newHub bus_a))"

lemma bus_a_ok: "bus_ok bus_a"
  using bus_a_inv
  by (simp add: bus_ok_def pubsub_inv_def subs_ok_def cache_ok_def MaxCachedTopics_def)

lemma hub0_fields [simp]:
  "hbus hub0 = bus_a" "sids hub0 = 1" "pending hub0 = Map.empty" "registered hub0 = {1}"
  "heartbeat hub0 = 5000000000" "liveness hub0 = 3" "ttl hub0 = 0"
  "sess hub0 = [1 \<mapsto> \<lparr>s_name = ''peer'', s_closed = False, s_unsub = [], s_inflight = [],
     s_repAck = Map.empty, s_seen = 5, s_out = []\<rparr>]"
  by (simp_all add: hub0_def newSession_def newHub_def env0_def DefaultHeartbeat_def ns_second_def
      DefaultLiveness_def Let_def)

lemma env0_fields [simp]:
  "e_now env0 = 5" "e_nid env0 = ''L''" "e_io env0 = True" "e_io2 env0 = True" "e_write env0 sid f = True"
  "e_nack_io env0 i = True" "e_ord env0 = []"
  by (simp_all add: env0_def)

theorem run_frame_total_witness:
  "\<exists>sp h'. run_frame env0 1 (no_frame\<lparr>f_op := ''bogus''\<rparr>) hub0 = Some (sp, h') \<and> bus_ok (hbus h')"
  by (rule run_frame_total) (simp_all add: bus_a_ok)

subsection \<open>Ending a session\<close>

text \<open>C16 (session end). Closing a session gives back every delivery it had in flight - none of
  them stays leased, every other lease is untouched and no job is lost or duplicated - removes its
  subscriptions and its pending requests, and doing it again changes nothing.\<close>

theorem session_end:
  assumes ok: "bus_ok (hbus h)" and s: "sess h sid = Some s" and op: "\<not> s_closed s"
    and c: "s_close e sid h = Some h'"
  shows "(\<forall>i. inflight (hbus h') i = (if i \<in> set (s_inflight s) then None else inflight (hbus h) i)) \<and>
    jobs (hbus h') = jobs (hbus h) \<and> (\<forall>k p. pending h' k = Some p \<longrightarrow> p_sess p \<noteq> sid \<and> pending h k = Some p) \<and>
    (\<forall>x\<in>set (subs (hbus h')). sch x \<notin> set (s_unsub s)) \<and> s_close e' sid h' = Some h'"
proof -
  obtain h1 where h1: "s_close e sid h = Some h1" "jobs (hbus h1) = jobs (hbus h)"
    "inflight (hbus h1) = (\<lambda>j. if j \<in> set (s_inflight s) then None else inflight (hbus h) j)"
    "sess h1 = (sess h)(sid \<mapsto> shut_sess s)"
    "pending h1 = (\<lambda>k. case pending h k of None \<Rightarrow> None
           | Some p \<Rightarrow> if p_sess p = sid then None else Some p)"
    "\<forall>x\<in>set (subs (hbus h1)). sch x \<notin> set (s_unsub s)"
    by (rule s_close_open [OF ok s op, of e])
  have "s_close e' sid h1 = Some h1" using h1(4) by (simp add: s_close_def shut_sess_def)
  moreover have "p_sess p \<noteq> sid \<and> pending h k = Some p" if "pending h1 k = Some p" for k p
    using that h1(5) by (auto split: option.splits if_splits)
  ultimately show ?thesis using h1 c by simp
qed

definition hub_l :: hub where
  "hub_l = upd_sess 1 (\<lambda>s. s\<lparr>s_inflight := [''L'']\<rparr>) (hub0\<lparr>hbus := bus_l\<rparr>)"

lemma bus_l_ok: "bus_ok bus_l"
  using bus_l_inv bus_a_ok by (simp add: bus_ok_def bus_l_def pubsub_inv_def subs_ok_def cache_ok_def)

theorem session_end_witness:
  "\<exists>h'. s_close env0 1 hub_l = Some h' \<and> inflight (hbus hub_l) ''L'' \<noteq> None \<and>
     inflight (hbus h') ''L'' = None \<and> jobs (hbus h') = jobs (hbus hub_l)"
proof -
  have ok: "bus_ok (hbus hub_l)" by (simp add: hub_l_def bus_l_ok)
  have s: "sess hub_l 1 = Some \<lparr>s_name = ''peer'', s_closed = False, s_unsub = [], s_inflight = [''L''],
     s_repAck = Map.empty, s_seen = 5, s_out = []\<rparr>" by (simp add: hub_l_def)
  obtain h' where c: "s_close env0 1 hub_l = Some h'" by (rule s_close_ok [OF ok, of env0 1]) blast
  from session_end [OF ok s _ c] c show ?thesis by (simp add: hub_l_def bus_l_def)
qed

subsection \<open>Correlation ids\<close>

lemma digits_no_colon: "CHR '':'' \<notin> set (dec_string n)"
  using dec_string_digits [of n] by (auto simp: is_digit_def)

text \<open>The mailbox ids the hub makes from session number and client id are
  different for different pairs, and never empty for a non-empty client id: two clients that pick
  the same id, or ids that contain colons and digits, cannot have each other's jobs
  deduplicated.\<close>

theorem scopedID_separates:
  assumes "i \<noteq> []"
  shows "scopedID a i \<noteq> [] \<and> (scopedID a i = scopedID b j \<longleftrightarrow> a = b \<and> i = j)"
proof -
  have "dec_string a @ CHR '':'' # i = dec_string b @ CHR '':'' # j \<longleftrightarrow> a = b \<and> i = j"
    using append_sep_inject [of "dec_string a" "CHR '':''" i "dec_string b" j] digits_no_colon by auto
  then show ?thesis using assms by (auto simp: scopedID_def)
qed

theorem scopedID_separates_witness:
  "scopedID 1 ''1:x'' \<noteq> [] \<and> (scopedID 1 ''1:x'' = scopedID 11 ''x'' \<longleftrightarrow> 1 = (11::nat) \<and> ''1:x'' = ''x'')"
  by (rule scopedID_separates) simp

subsection \<open>Requests and replies\<close>

lemma reply_write:
  assumes "sess h sid = Some s" and "\<not> s_closed s" and "e_write e sid f"
  shows "reply e sid f h = Some (None, upd_sess sid (\<lambda>s. s\<lparr>s_out := s_out s @ [f]\<rparr>) h)"
  using assms by (simp add: reply_def)

lemma repAckPart_frame:
  assumes s: "sess h sid = Some s" and op: "\<not> s_closed s"
  shows "pending (repAckPart e sid i h) = pending h"
    and "\<exists>s'. sess (repAckPart e sid i h) = (sess h)(sid \<mapsto> s') \<and> \<not> s_closed s' \<and>
           s_out s' = s_out s \<and> s_name s' = s_name s"
proof -
  let ?h1 = "dropRepAck sid i h"
  let ?s1 = "s\<lparr>s_repAck := (s_repAck s)(i := None)\<rparr>"
  obtain d where d: "takeRepAck sid i h = (d, ?h1)" by (simp add: takeRepAck_def)
  have s1: "sess ?h1 = (sess h)(sid \<mapsto> ?s1)" "pending ?h1 = pending h" "\<not> s_closed ?s1"
    using s op by (simp_all add: dropRepAck_def fun_eq_iff)
  let ?s2 = "?s1\<lparr>s_inflight := filter (\<lambda>x. x \<noteq> d) (s_inflight s)\<rparr>"
  have c: "claimInflight sid d ?h1 = (True, dropInflight sid d ?h1)"
    using s1 by (simp add: claimInflight_def)
  have s2: "sess (dropInflight sid d ?h1) = (sess h)(sid \<mapsto> ?s2)" "pending (dropInflight sid d ?h1) = pending h"
    using s1 by (simp_all add: dropInflight_def fun_eq_iff)
  have "repAckPart e sid i h = (if d = [] then ?h1 else (dropInflight sid d ?h1)
      \<lparr>hbus := snd (ack (e_io e) d (hbus (dropInflight sid d ?h1)))\<rparr>)"
    by (simp add: repAckPart_def d c)
  then show "pending (repAckPart e sid i h) = pending h"
    and "\<exists>s'. sess (repAckPart e sid i h) = (sess h)(sid \<mapsto> s') \<and> \<not> s_closed s' \<and>
           s_out s' = s_out s \<and> s_name s' = s_name s"
    using s1 s2 op by (auto intro: exI [of _ ?s1] exI [of _ ?s2])
qed

text \<open>A rep whose id is in the pending table is written to the session that
  made the request, with the id that client had chosen and the worker's body and text, the worker
  gets its ok, and the slot is used up, so that no second rep can be routed to it.\<close>

theorem rep_routed:
  assumes w: "sess h sid = Some s" "\<not> s_closed s" and c: "sess h (p_sess p) = Some t" "\<not> s_closed t"
    and ne: "p_sess p \<noteq> sid" and p: "pending h (f_id f) = Some p" and op: "f_op f = OpRep"
    and wr: "\<And>x g. e_write e x g"
  shows "\<exists>h' s' t' r. handle e sid f h = Some (None, NoSpawn, h') \<and> pending h' (f_id f) = None \<and>
    sess h' sid = Some s' \<and> s_out s' = s_out s @ [ok_frame f] \<and>
    sess h' (p_sess p) = Some t' \<and> s_out t' = s_out t @ [r] \<and>
    f_op r = OpRep \<and> f_id r = p_client p \<and> f_body r = f_body f \<and> f_text r = f_text f \<and> f_name r = f_name f"
proof -
  let ?h1 = "repAckPart e sid (f_id f) h"
  let ?h2 = "?h1\<lparr>pending := (pending ?h1)(f_id f := None)\<rparr>"
  obtain s1 where s1: "sess ?h1 = (sess h)(sid \<mapsto> s1)" "\<not> s_closed s1" "s_out s1 = s_out s"
    using repAckPart_frame(2) [OF w, of e "f_id f"] by blast
  have pe: "pending ?h1 = pending h" by (rule repAckPart_frame(1) [OF w])
  let ?h3 = "upd_sess sid (\<lambda>s. s\<lparr>s_out := s_out s @ [ok_frame f]\<rparr>) ?h2"
  have r1: "reply e sid (ok_frame f) ?h2 = Some (None, ?h3)"
    by (rule reply_write [of _ _ s1]) (use s1 wr in simp_all)
  let ?r = "no_frame\<lparr>f_op := OpRep, f_id := p_client p, f_name := f_name f,
      f_from := s_from sid f ?h3, f_body := f_body f, f_text := f_text f\<rparr>"
  let ?h4 = "upd_sess (p_sess p) (\<lambda>s. s\<lparr>s_out := s_out s @ [?r]\<rparr>) ?h3"
  have r2: "reply e (p_sess p) ?r ?h3 = Some (None, ?h4)"
    by (rule reply_write [of _ _ t]) (use s1 c ne wr in simp_all)
  have "handleRep e sid f h = Some (None, NoSpawn, ?h4)"
    unfolding handleRep_def Let_def using r1 r2 pe p by simp
  moreover have "handle e sid f h = handleRep e sid f h"
    by (simp add: handle_def op op_defs)
  moreover have "sess ?h4 sid = Some (s1\<lparr>s_out := s_out s1 @ [ok_frame f]\<rparr>)" using s1(1) ne by simp
  moreover have "sess ?h4 (p_sess p) = Some (t\<lparr>s_out := s_out t @ [?r]\<rparr>)" using s1(1) ne c by simp
  moreover have "pending ?h4 (f_id f) = None" by simp
  ultimately show ?thesis using s1(3)
    by (intro exI [of _ ?h4] exI [of _ "s1\<lparr>s_out := s_out s1 @ [ok_frame f]\<rparr>"]
        exI [of _ "t\<lparr>s_out := s_out t @ [?r]\<rparr>"] exI [of _ ?r]) (simp add: no_frame_def)
qed

definition hub2 :: hub where
  "hub2 = (snd (newSession env0 ''worker'' hub0))
     \<lparr>pending := [''s1:q'' \<mapsto> \<lparr>p_sess = 1, p_client = ''q'', p_expires = 100\<rparr>]\<rparr>"

theorem rep_routed_witness:
  "\<exists>h' t' r. handle env0 2 (no_frame\<lparr>f_op := OpRep, f_id := ''s1:q'', f_text := ''yes''\<rparr>) hub2
      = Some (None, NoSpawn, h') \<and> sess h' 1 = Some t' \<and> s_out t' = [r] \<and>
     f_id r = ''q'' \<and> f_text r = ''yes'' \<and> pending h' ''s1:q'' = None"
  using rep_routed [of hub2 2 "\<lparr>s_name = ''worker'', s_closed = False, s_unsub = [], s_inflight = [],
      s_repAck = Map.empty, s_seen = 5, s_out = []\<rparr>" "\<lparr>p_sess = 1, p_client = ''q'', p_expires = 100\<rparr>"
      "\<lparr>s_name = ''peer'', s_closed = False, s_unsub = [], s_inflight = [],
      s_repAck = Map.empty, s_seen = 5, s_out = []\<rparr>"
      "no_frame\<lparr>f_op := OpRep, f_id := ''s1:q'', f_text := ''yes''\<rparr>" env0]
  by (auto simp: hub2_def newSession_def Let_def)

text \<open>After a req every slot of the pending table is still alive - the
  expired ones are swept - and a req that the bus refuses leaves no slot behind.\<close>

theorem req_pending:
  assumes r: "handleReq e sid f h = Some (x, sp, h')" and i: "f_id f \<noteq> []" and now: "0 \<le> e_now e"
  shows "(\<forall>k p. pending h' k = Some p \<longrightarrow> p_expires p = 0 \<or> e_now e \<le> p_expires p) \<and>
    (if x = None then pending h' (scopedID sid (f_id f)) =
         Some \<lparr>p_sess = sid, p_client = f_id f, p_expires = e_now e + pendingTTL h\<rparr>
     else pending h' (scopedID sid (f_id f)) = None)"
proof -
  have t: "0 < pendingTTL h"
    by (simp add: pendingTTL_def DefaultPendingTTL_def ns_minute_def ns_second_def)
  let ?k = "scopedID sid (f_id f)"
  let ?p = "\<lparr>p_sess = sid, p_client = f_id f, p_expires = e_now e + pendingTTL h\<rparr>"
  let ?pe = "(pending (expirePendingLocked (e_now e) h))(?k \<mapsto> ?p)"
  have old: "p_expires p = 0 \<or> e_now e \<le> p_expires p"
    if "pending (expirePendingLocked (e_now e) h) k = Some p" for k p
    using that by (auto simp: expirePendingLocked_def split: option.splits if_splits)
  have "pending h' = (if x = None then ?pe else ?pe(?k := None))"
    using r i by (auto simp: handleReq_def Let_def bind_eq_Some_conv fun_eq_iff split: option.splits)
  then show ?thesis using old t by (auto split: if_splits)
qed

theorem req_pending_witness:
  "\<exists>x sp h'. handleReq env0 1 (no_frame\<lparr>f_id := ''q'', f_name := ''work''\<rparr>) hub0 = Some (x, sp, h') \<and>
     (if x = None then pending h' ''s1:q'' = Some \<lparr>p_sess = 1, p_client = ''q'',
        p_expires = 600000000005\<rparr> else pending h' ''s1:q'' = None)"
proof -
  let ?f = "no_frame\<lparr>f_id := ''q'', f_name := ''work''\<rparr>"
  let ?m = "\<lparr>m_id = scopedID 1 (f_id ?f), m_name = '''', m_from = s_from 1 ?f hub0, m_body = payload ?f,
    m_at = 0\<rparr>"
  obtain r b' where "put (e_now env0) (e_nid env0) (e_io env0) (f_name ?f) ?m (hbus hub0) = Some (r, b')"
    by (rule put_bus_ok [of "hbus hub0"]) (simp_all add: bus_a_ok)
  then obtain x sp h' where r: "handleReq env0 1 ?f hub0 = Some (x, sp, h')"
    by (cases r) (simp_all add: handleReq_def Let_def expirePendingLocked_def)
  have "scopedID 1 ''q'' = ''s1:q''" by (simp add: scopedID_def dec_string.simps char_of_def bit_Suc_0_iff)
  with req_pending [OF r] r show ?thesis
    by (cases x) (simp_all add: pendingTTL_def DefaultPendingTTL_def ns_minute_def ns_second_def)
qed

subsection \<open>Delivering jobs\<close>

lemma claim_cases:
  "sess h sid = Some s \<Longrightarrow> \<not> s_closed s \<Longrightarrow> claimInflight sid d h = (True, dropInflight sid d h)"
  "sess h sid = Some s \<Longrightarrow> s_closed s \<Longrightarrow> claimInflight sid d h = (False, h)"
  by (simp_all add: claimInflight_def)

lemma sess_drop:
  "sess h sid = Some s \<Longrightarrow>
   sess (dropInflight sid d h) sid = Some (s\<lparr>s_inflight := filter (\<lambda>x. x \<noteq> d) (s_inflight s)\<rparr>)"
  by (simp add: dropInflight_def)

lemma jobFrame_id: "f_id (jobFrame keep f m d) = (if m_id m \<noteq> '''' then m_id m else f_id f)"
  by (simp add: jobFrame_def msgFrame_def first_def no_frame_def Let_def)

lemma jobTrack_sess:
  assumes "sess h sid = Some s"
  shows "\<exists>ra. sess (jobTrack sid keep f m d h) =
      (sess h)(sid \<mapsto> s\<lparr>s_inflight := s_inflight s @ [d_id d], s_repAck := ra\<rparr>) \<and>
      (keep \<and> f_id (jobFrame keep f m d) \<noteq> '''' \<longrightarrow> ra (f_id (jobFrame keep f m d)) = Some (d_id d))"
    and "hbus (jobTrack sid keep f m d h) = hbus h"
proof -
  let ?k = "f_id (jobFrame keep f m d)"
  let ?ra = "if keep \<and> ?k \<noteq> '''' then (s_repAck s)(?k \<mapsto> d_id d) else s_repAck s"
  have "sess (jobTrack sid keep f m d h) =
      (sess h)(sid \<mapsto> s\<lparr>s_inflight := s_inflight s @ [d_id d], s_repAck := ?ra\<rparr>)"
    using assms by (auto simp: jobTrack_def trackInflight_def trackRepAck_def Let_def fun_eq_iff)
  then show "\<exists>ra. sess (jobTrack sid keep f m d h) =
      (sess h)(sid \<mapsto> s\<lparr>s_inflight := s_inflight s @ [d_id d], s_repAck := ra\<rparr>) \<and>
      (keep \<and> ?k \<noteq> '''' \<longrightarrow> ra ?k = Some (d_id d))"
    by (intro exI [of _ ?ra]) auto
  show "hbus (jobTrack sid keep f m d h) = hbus h"
    by (simp add: jobTrack_def trackInflight_def trackRepAck_def Let_def)
qed

lemma claim_bus: "claimInflight sid i h = (c, h') \<Longrightarrow> hbus h' = hbus h"
  by (auto simp: claimInflight_def dropInflight_def split: option.splits if_splits)

lemma dropRepAck_bus [simp]: "hbus (dropRepAck sid k h) = hbus h"
  by (simp add: dropRepAck_def)

lemma jobSend_ok:
  assumes "bus_ok (hbus h)"
  shows "\<exists>h'. jobSend e sid keep f m d h = Some h' \<and> bus_ok (hbus h')"
proof -
  obtain r h1 where r: "reply e sid (jobFrame keep f m d) h = Some (r, h1)" and k: "bus_ok (hbus h1)"
    by (rule reply_ok [OF assms])
  show ?thesis
  proof (cases r)
    case None
    obtain c h2 where c: "claimInflight sid (d_id d) h1 = (c, h2)" by fastforce
    then show ?thesis
      using None r k claim_bus [OF c] ack_bus_ok [of "hbus h2" "e_io e" "d_id d"]
      by (cases c) (auto simp: jobSend_def)
  next
    case (Some x)
    let ?h1 = "dropRepAck sid (f_id (jobFrame keep f m d)) h1"
    obtain c h2 where c: "claimInflight sid (d_id d) ?h1 = (c, h2)" by fastforce
    have k2: "bus_ok (hbus h2)" using claim_bus [OF c] k by simp
    obtain r2 b where "nack (e_io e) (d_id d) (hbus h2) = Some (r2, b)" "bus_ok b"
      by (rule nack_bus_ok [OF k2])
    then show ?thesis using Some r c k2 by (cases c) (simp_all add: jobSend_def)
  qed
qed

lemma jobHold_ok:
  assumes ok: "bus_ok (hbus h)" and f: "inflight (hbus h) (e_nid e) = None"
  shows "\<exists>r h'. jobHold e sid f m h = Some (r, h') \<and> bus_ok (hbus h')"
proof -
  obtain r b where h: "hold (e_now e) (e_nid e) (e_io e) m (takeLease h) (hbus h) = (r, b)" by fastforce
  note hm = hold_moves [OF bus_okD(1) [OF ok] f, where m = m and now = "e_now e" and io = "e_io e"
      and lease = "takeLease h"]
  show ?thesis
  proof (cases r)
    case (Inr d)
    then have mv: "moves (hbus h) {#m#} {#} b" using hm h by simp
    show ?thesis using h Inr moves_ok [OF mv bus_okD(2) [OF ok]] by (simp add: jobHold_def)
  next
    case (Inl x)
    then have mv: "moves (hbus h) {#} {#} b" using hm h by simp
    have okb: "bus_ok b" by (rule moves_ok [OF mv bus_okD(2) [OF ok]])
    obtain r2 b2 where rq: "requeue (e_io2 e) m b = Some (r2, b2)" and ok2: "bus_ok b2"
    proof (cases "closed b \<or> m_name m = []")
      case True
      then have "\<exists>e. requeue (e_io2 e') m b = Some (Some e, b)" for e' by (auto simp: requeue_def)
      then show ?thesis using okb that by blast
    next
      case False
      obtain r2 b2 where rq: "requeue (e_io2 e) m b = Some (r2, b2)" and mv2: "moves b {#m#} {#} b2"
        by (rule requeue_moves [OF bus_okD(1) [OF okb], of m "e_io2 e"]) (use False in auto)
      show ?thesis by (rule that [OF rq moves_ok [OF mv2 bus_okD(2) [OF okb]]])
    qed
    obtain r3 h3 where "reply e sid (err_frame (f_id f) (HBus x)) (h\<lparr>hbus := b2\<rparr>) = Some (r3, h3)"
      "bus_ok (hbus h3)"
      by (rule reply_ok [of "h\<lparr>hbus := b2\<rparr>"]) (simp_all add: ok2)
    then show ?thesis using h Inl rq by (simp add: jobHold_def)
  qed
qed

lemma jobTrack_bus [simp]: "hbus (jobTrack sid keep f m d h) = hbus h"
  by (simp add: jobTrack_def trackInflight_def trackRepAck_def Let_def)

lemma takeJob_ok:
  assumes ok: "bus_ok (hbus h)" and f: "inflight (hbus h) (e_nid e) = None"
  shows "\<exists>h'. takeJob e sid keep fr m h = Some h' \<and> bus_ok (hbus h')"
proof -
  obtain r h1 where r: "jobHold e sid fr m h = Some (r, h1)" and k: "bus_ok (hbus h1)"
    using jobHold_ok [OF ok f] by blast
  show ?thesis
  proof (cases r)
    case None
    then show ?thesis using r k by (simp add: takeJob_def)
  next
    case (Some d)
    then show ?thesis
      using r jobSend_ok [of "jobTrack sid keep fr m d h1" e sid keep fr m d] k
      by (simp add: takeJob_def)
  qed
qed

lemma takeJob_full:
  assumes ok: "bus_ok (hbus h)" and live: "\<not> closed (hbus h)" and n: "m_name m \<noteq> []"
    and s: "sess h sid = Some s" "\<not> s_closed s"
    and fresh: "inflight (hbus h) (e_nid e) = None" "e_nid e \<notin> set (s_inflight s)" and io: "e_io e"
    and t: "takeJob e sid keep f m h = Some h'"
  shows "\<exists>out s' d. sess h' sid = Some s' \<and> f_op out = OpMsg \<and> f_body out = m_body m \<and> f_text out = m_body m \<and> d_msg d = m \<and>
    (if e_write e sid out then s_out s' = s_out s @ [out] \<and>
       (if keep then jobs (hbus h') = add_mset m (jobs (hbus h)) \<and> f_delivery out = e_nid e \<and>
            inflight (hbus h') (e_nid e) = Some d \<and> e_nid e \<in> set (s_inflight s') \<and>
            (f_id out \<noteq> [] \<longrightarrow> s_repAck s' (f_id out) = Some (e_nid e))
        else jobs (hbus h') = jobs (hbus h) \<and> inflight (hbus h') (e_nid e) = None \<and>
            e_nid e \<notin> set (s_inflight s'))
     else s_closed s' \<and> jobs (hbus h') = add_mset m (jobs (hbus h)) \<and>
        inflight (hbus h') (e_nid e) = None) \<and>
    bus_ok (hbus h') \<and> (e_write e sid out \<longrightarrow> \<not> s_closed s') \<and> out = jobFrame keep f m d \<and>
    d = \<lparr>d_id = e_nid e, d_msg = m, d_expires = e_now e + lease_or_default (takeLease h)\<rparr>"
proof -
  let ?i = "e_nid e"
  let ?d = "\<lparr>d_id = ?i, d_msg = m, d_expires = e_now e + lease_or_default (takeLease h)\<rparr>"
  let ?b = "index_add m ((hbus h)\<lparr>inflight := (inflight (hbus h))(?i \<mapsto> ?d)\<rparr>)"
  note inv = bus_okD(1) [OF ok]
  obtain b ds where hd: "hold (e_now e) ?i (e_io e) m (takeLease h) (hbus h) = (Inr ?d, b)"
    and b: "b = ?b\<lparr>disk := ds\<rparr>"
  proof -
    obtain ds where "persistLocked True ?b = (None, ?b\<lparr>disk := ds\<rparr>)"
      using persist_io [of ?b] persist_shape [of True ?b] by (metis prod.collapse)
    then show ?thesis
      using live n io by (intro that [of "?b\<lparr>disk := ds\<rparr>" ds]) (simp_all add: hold_def Let_def)
  qed
  have mv: "moves (hbus h) {#m#} {#} b"
    using hold_moves [OF inv fresh(1), where m = m and now = "e_now e" and io = "e_io e" and lease = "takeLease h"] hd
    by simp
  have okb: "bus_ok b" by (rule moves_ok [OF mv bus_okD(2) [OF ok]])
  have jb: "jobs b = add_mset m (jobs (hbus h))" using mv by (simp add: moves_def)
  have il: "inflight b = (inflight (hbus h))(?i \<mapsto> ?d)" by (simp add: b)
  let ?h1 = "h\<lparr>hbus := b\<rparr>"
  let ?out = "jobFrame keep f m ?d"
  have okh: "bus_ok (hbus h')" using takeJob_ok [OF ok fresh(1), of sid keep f m] t by simp
  let ?h2 = "jobTrack sid keep f m ?d ?h1"
  have tj: "jobSend e sid keep f m ?d ?h2 = Some h'" using t hd by (simp add: takeJob_def jobHold_def)
  obtain ra where ra: "sess ?h2 = (sess h)(sid \<mapsto> s\<lparr>s_inflight := s_inflight s @ [?i], s_repAck := ra\<rparr>)"
      "keep \<and> f_id ?out \<noteq> '''' \<longrightarrow> ra (f_id ?out) = Some ?i"
    using jobTrack_sess(1) [of ?h1 sid s keep f m ?d] s by auto
  have hb: "hbus ?h2 = b" using jobTrack_sess(2) [of ?h1 sid s keep f m ?d] s by simp
  let ?s2 = "s\<lparr>s_inflight := s_inflight s @ [?i], s_repAck := ra\<rparr>"
  have s2: "sess ?h2 sid = Some ?s2" "\<not> s_closed ?s2" using ra(1) s by simp_all
  have outs: "f_op ?out = OpMsg" "f_body ?out = m_body m" "f_text ?out = m_body m" "keep \<longrightarrow> f_delivery ?out = ?i"
    by (simp_all add: jobFrame_def msgFrame_def no_frame_def Let_def)
  have fl: "filter (\<lambda>x. x \<noteq> ?i) (s_inflight s) = s_inflight s" using fresh(2) by (induction "s_inflight s") (auto simp: filter_id_conv)
  show ?thesis
  proof (cases "e_write e sid ?out")
    case True
    let ?h3 = "upd_sess sid (\<lambda>s. s\<lparr>s_out := s_out s @ [?out]\<rparr>) ?h2"
    have r: "reply e sid ?out ?h2 = Some (None, ?h3)" by (rule reply_write [OF s2 True])
    have s3: "sess ?h3 sid = Some (?s2\<lparr>s_out := s_out s @ [?out]\<rparr>)" using s2(1) by simp
    show ?thesis
    proof (cases keep)
      case keep: True
      then have "h' = ?h3" using tj r by (simp add: jobSend_def)
      then show ?thesis using s3 outs True keep jb il hb ra(2) okh s(2)
        by (intro exI [of _ ?out] exI [of _ "?s2\<lparr>s_out := s_out s @ [?out]\<rparr>"] exI [of _ ?d]) simp
    next
      case False
      let ?h4 = "dropInflight sid ?i ?h3"
      have c: "claimInflight sid ?i ?h3 = (True, ?h4)" by (rule claim_cases(1) [OF s3]) (simp add: s)
      have "h' = ?h4\<lparr>hbus := snd (ack (e_io e) ?i (hbus ?h4))\<rparr>" using tj r c False by (simp add: jobSend_def)
      moreover have "hbus ?h4 = b" by (simp add: dropInflight_def hb)
      ultimately have h': "h' = ?h4\<lparr>hbus := snd (ack (e_io e) ?i b)\<rparr>" by simp
      have ib: "inflight b ?i = Some ?d" by (simp add: il)
      note am = ack_moves [OF bus_okD(1) [OF okb] ib, of "e_io e"]
      have "jobs (hbus h') = jobs (hbus h)" using am(1) jb by (simp add: h' moves_def)
      moreover have "inflight (hbus h') ?i = None" using am(2) by (simp add: h')
      moreover have "sess h' sid = Some (?s2\<lparr>s_out := s_out s @ [?out], s_inflight := s_inflight s\<rparr>)"
        using sess_drop [OF s3, of ?i] fl by (simp add: h')
      ultimately show ?thesis using outs True False fresh(2) okh s(2)
        by (intro exI [of _ ?out] exI [of _ "?s2\<lparr>s_out := s_out s @ [?out], s_inflight := s_inflight s\<rparr>"]
            exI [of _ ?d]) simp
    qed
  next
    case False
    have ok2: "bus_ok (hbus ?h2)" using okb hb by simp
    obtain h3 where h3: "s_close e sid ?h2 = Some h3" "bus_ok (hbus h3)" "jobs (hbus h3) = jobs (hbus ?h2)"
      "inflight (hbus h3) = (\<lambda>j. if j \<in> set (s_inflight ?s2) then None else inflight (hbus ?h2) j)"
      "sess h3 = (sess ?h2)(sid \<mapsto> shut_sess ?s2)"
      by (rule s_close_open [OF ok2 s2, of e])
    let ?h4 = "dropRepAck sid (f_id ?out) h3"
    have r: "reply e sid ?out ?h2 = Some (Some HWrite, h3)" using s2 False h3(1) by (simp add: reply_def)
    have s4: "sess ?h4 sid = Some ((shut_sess ?s2)\<lparr>s_repAck := (s_repAck (shut_sess ?s2))(f_id ?out := None)\<rparr>)"
      using h3(5) by (simp add: dropRepAck_def)
    have "claimInflight sid ?i ?h4 = (False, ?h4)" by (rule claim_cases(2) [OF s4]) (simp add: shut_sess_def)
    then have h': "h' = ?h4" using tj r by (simp add: jobSend_def)
    have "hbus ?h4 = hbus h3" by (simp add: dropRepAck_def)
    then show ?thesis using s4 outs False h3 jb hb okh
      by (intro exI [of _ ?out] exI [of _ "(shut_sess ?s2)\<lparr>s_repAck := (s_repAck (shut_sess ?s2))(f_id ?out := None)\<rparr>"]
          exI [of _ ?d]) (simp add: h' shut_sess_def)
  qed
qed

lemma takeJob_cases:
  assumes ok: "bus_ok (hbus h)" and live: "\<not> closed (hbus h)" and n: "m_name m \<noteq> []"
    and s: "sess h sid = Some s" "\<not> s_closed s"
    and fresh: "inflight (hbus h) (e_nid e) = None" "e_nid e \<notin> set (s_inflight s)" and io: "e_io e"
    and t: "takeJob e sid keep f m h = Some h'"
  shows "\<exists>out s' d. sess h' sid = Some s' \<and> f_op out = OpMsg \<and> f_body out = m_body m \<and> f_text out = m_body m \<and> d_msg d = m \<and>
    (if e_write e sid out then s_out s' = s_out s @ [out] \<and>
       (if keep then jobs (hbus h') = add_mset m (jobs (hbus h)) \<and> f_delivery out = e_nid e \<and>
            inflight (hbus h') (e_nid e) = Some d \<and> e_nid e \<in> set (s_inflight s') \<and>
            (f_id out \<noteq> [] \<longrightarrow> s_repAck s' (f_id out) = Some (e_nid e))
        else jobs (hbus h') = jobs (hbus h) \<and> inflight (hbus h') (e_nid e) = None \<and>
            e_nid e \<notin> set (s_inflight s'))
     else s_closed s' \<and> jobs (hbus h') = add_mset m (jobs (hbus h)) \<and>
        inflight (hbus h') (e_nid e) = None)"
  using takeJob_full [OF assms] by (elim exE conjE) (intro exI conjI; assumption)

text \<open>C15 (delivery of a job). \<open>takeJob\<close> on an open session, for a message just taken: when the
  frame is written, a plain take acknowledges the job after the write, and a ready keeps the
  delivery leased, recorded in the session and tied to the message id for the rep; when the write
  fails, the session is closed and the job is back on the bus, once, with no lease left.\<close>

theorem takeJob_outcome:
  assumes ok: "bus_ok (hbus h)" and live: "\<not> closed (hbus h)" and n: "m_name m \<noteq> []"
    and s: "sess h sid = Some s" "\<not> s_closed s"
    and fresh: "inflight (hbus h) (e_nid e) = None" "e_nid e \<notin> set (s_inflight s)" and io: "e_io e"
    and t: "takeJob e sid keep f m h = Some h'"
  shows "\<exists>out s' d. sess h' sid = Some s' \<and> f_op out = OpMsg \<and> f_body out = m_body m \<and> f_text out = m_body m \<and> d_msg d = m \<and>
    (if e_write e sid out then s_out s' = s_out s @ [out] \<and>
       (if keep then jobs (hbus h') = add_mset m (jobs (hbus h)) \<and> f_delivery out = e_nid e \<and>
            inflight (hbus h') (e_nid e) = Some d \<and> e_nid e \<in> set (s_inflight s') \<and>
            (f_id out \<noteq> [] \<longrightarrow> s_repAck s' (f_id out) = Some (e_nid e))
        else jobs (hbus h') = jobs (hbus h) \<and> inflight (hbus h') (e_nid e) = None \<and>
            e_nid e \<notin> set (s_inflight s'))
     else s_closed s' \<and> jobs (hbus h') = add_mset m (jobs (hbus h)) \<and>
        inflight (hbus h') (e_nid e) = None)"
  by (rule takeJob_cases [OF assms])

theorem takeJob_outcome_witness:
  "\<exists>h' out s'. takeJob env0 1 False (no_frame\<lparr>f_id := ''r''\<rparr>) job_b hub0 = Some h' \<and>
     sess h' 1 = Some s' \<and> s_out s' = [out] \<and> f_body out = ''y'' \<and> jobs (hbus h') = jobs bus_a"
proof -
  have ok: "bus_ok (hbus hub0)" by (simp add: bus_a_ok)
  obtain h' where t: "takeJob env0 1 False (no_frame\<lparr>f_id := ''r''\<rparr>) job_b hub0 = Some h'"
    using takeJob_ok [OF ok, of env0 1 False "no_frame\<lparr>f_id := ''r''\<rparr>" job_b] by auto
  from takeJob_outcome [OF ok _ _ _ _ _ _ _ t] t show ?thesis by (auto simp: job_b_def)
qed

text \<open>When a session is closed after \<open>Hold\<close> and before \<open>trackInflight\<close>,
  nobody gives the delivery back: the write fails, \<open>claimInflight\<close> refuses because the session
  is closed, and \<open>close\<close> has already run without seeing this delivery, so it stays leased until
  it expires - although the comment on \<open>claimInflight\<close> says that \<open>close\<close> will nack it.\<close>

theorem orphaned_lease:
  assumes s: "sess h sid = Some s" "s_closed s" and d: "inflight (hbus h) (d_id d) = Some d"
  shows "\<exists>h'. jobSend e sid keep f m d (jobTrack sid keep f m d h) = Some h' \<and>
    inflight (hbus h') (d_id d) = Some d \<and> s_close e' sid h' = Some h'"
proof -
  let ?h1 = "jobTrack sid keep f m d h"
  obtain ra where ra: "sess ?h1 sid = Some (s\<lparr>s_inflight := s_inflight s @ [d_id d], s_repAck := ra\<rparr>)"
    using jobTrack_sess(1) [OF s(1), of keep f m d] by (elim exE conjE) simp
  let ?k = "f_id (jobFrame keep f m d)"
  have r: "reply e sid (jobFrame keep f m d) ?h1 = Some (Some (HBus ErrClosed), ?h1)"
    using ra s(2) by (simp add: reply_def)
  let ?h2 = "dropRepAck sid ?k ?h1"
  have s2: "sess ?h2 sid = Some (s\<lparr>s_inflight := s_inflight s @ [d_id d], s_repAck := ra(?k := None)\<rparr>)"
    using ra by (simp add: dropRepAck_def)
  have "claimInflight sid (d_id d) ?h2 = (False, ?h2)" by (rule claim_cases(2) [OF s2]) (simp add: s)
  then have "jobSend e sid keep f m d ?h1 = Some ?h2" using r by (simp add: jobSend_def)
  moreover have "s_close e' sid ?h2 = Some ?h2" using s2 s(2) by (simp add: s_close_def)
  ultimately show ?thesis using d by simp
qed

theorem orphaned_lease_witness:
  "\<exists>h'. jobSend env0 1 True no_frame job_b \<lparr>d_id = ''L'', d_msg = job_b, d_expires = 10\<rparr>
      (jobTrack 1 True no_frame job_b \<lparr>d_id = ''L'', d_msg = job_b, d_expires = 10\<rparr>
        (upd_sess 1 shut_sess (hub0\<lparr>hbus := bus_l\<rparr>))) = Some h' \<and> inflight (hbus h') ''L'' \<noteq> None"
  using orphaned_lease [of "upd_sess 1 shut_sess (hub0\<lparr>hbus := bus_l\<rparr>)" 1
      "shut_sess \<lparr>s_name = ''peer'', s_closed = False, s_unsub = [], s_inflight = [],
      s_repAck = Map.empty, s_seen = 5, s_out = []\<rparr>" "\<lparr>d_id = ''L'', d_msg = job_b, d_expires = 10\<rparr>"
      env0 True no_frame job_b env0]
  by (auto simp: shut_sess_def bus_l_def)

subsection \<open>Leases and heartbeats\<close>

lemma wrap64_small: "0 \<le> x \<Longrightarrow> x < 2 ^ 63 \<Longrightarrow> wrap64 x = x"
  by (simp add: wrap64_def signed_of_int signed_take_bit_int_eq_self)

text \<open>The lease a job is held with is never under a minute and, as long as the
  product fits an \<open>int64\<close>, at least twice the silence after which the heartbeat declares the
  session dead: a dead worker is noticed before its lease runs out.\<close>

theorem takeLease_bound:
  assumes "heartbeat h * liveness h * 2 < 2 ^ 63"
  shows "ns_minute \<le> takeLease h \<and>
    (0 < heartbeat h \<and> 0 < liveness h \<longrightarrow> 2 * (heartbeat h * liveness h) \<le> takeLease h)"
proof -
  have "wrap64 (wrap64 (heartbeat h * liveness h) * 2) = 2 * (heartbeat h * liveness h)"
    if "0 < heartbeat h" "0 < liveness h"
  proof -
    have "0 < heartbeat h * liveness h" using that by simp
    then show ?thesis using assms wrap64_small [of "heartbeat h * liveness h"] wrap64_small [of "heartbeat h * liveness h * 2"] by simp
  qed
  then show ?thesis by (auto simp: takeLease_def Let_def)
qed

theorem takeLease_bound_witness: "ns_minute \<le> takeLease hub0 \<and>
    (0 < heartbeat hub0 \<and> 0 < liveness hub0 \<longrightarrow> 2 * (heartbeat hub0 * liveness hub0) \<le> takeLease hub0)"
  by (rule takeLease_bound) simp

text \<open>The lease a client asks for in seconds is converted exactly up to
  9223372036 seconds; one second more wraps to a negative duration, which \<open>Hold\<close> turns into the
  default of one minute.\<close>

theorem reserveLease_range:
  assumes "0 < f_lease f"
  shows "(f_lease f \<le> 9223372036 \<longrightarrow> lease_or_default (reserveLease f) = f_lease f * 1000000000) \<and>
    (f_lease f = 9223372037 \<longrightarrow> lease_or_default (reserveLease f) = ns_minute)"
proof -
  have w: "wrap64 x = x" if "0 \<le> x" "x < 2 ^ 63" for x
    using that by (simp add: wrap64_def signed_of_int signed_take_bit_int_eq_self)
  have "wrap64 9223372037000000000 = - 9223372036709551616"
    by (simp add: wrap64_def)
  then show ?thesis
    using assms w [of "f_lease f * 1000000000"]
    by (auto simp: reserveLease_def lease_or_default_def ns_second_def)
qed

theorem reserveLease_range_witness:
  "lease_or_default (reserveLease (no_frame\<lparr>f_lease := 30\<rparr>)) = 30000000000"
  using reserveLease_range [of "no_frame\<lparr>f_lease := 30\<rparr>"] by simp

end
