(* ===== verification/Wire_Props.thy ===== *)
theory Wire_Props
  imports Wire Hub_Props
begin

text \<open>
  Properties of the session protocol: the round trip of a stream of frames, the byte count that
  tells a clean boundary from a broken stream, two writers on one connection, and the job that
  the mailbox accepts but no frame can carry.
\<close>

subsection \<open>What a written frame looks like to a reader\<close>

text \<open>The bytes of a frame, when its write succeeds.\<close>

definition wire_bytes :: "frame \<Rightarrow> bytes" where
  "wire_bytes f = concat (snd (write_frame True True f))"

text \<open>Frames whose integers fit the fields of the Go struct and whose version this code speaks.\<close>

definition good_frame :: "frame \<Rightarrow> bool" where
  "good_frame f \<longleftrightarrow> (f_v f = 0 \<or> f_v f = Version) \<and> int64 (f_lease f) \<and> fst (write_frame True True f) = None"

lemma marshal_cons: "\<exists>s. marshal f = CHR ''{'' # s"
  by (simp add: marshal_def json_object_def)

lemma marshal_ne [simp]: "marshal f \<noteq> []"
  using marshal_cons [of f] by auto

lemma write_ok:
  assumes "good_frame f"
  shows "wire_bytes f = header (length (marshal (with_version f))) @ marshal (with_version f)"
    and "length (marshal (with_version f)) \<le> MaxBody"
  using assms by (auto simp: good_frame_def wire_bytes_def write_frame_def Let_def split: if_splits)

lemma carried_version: "carried (with_version f) = carried f" "f_v (carried f) = f_v (with_version f)"
  by (simp_all add: carried_def with_version_def Version_def)

lemma read_written:
  assumes "good_frame f"
  shows "read_counted (wire_bytes f @ rest) = (Inr (carried f), length (wire_bytes f))"
proof -
  let ?g = "with_version f"
  have v: "f_v ?g = Version" using assms by (auto simp: good_frame_def with_version_def)
  have "int64 (f_v ?g)" "int64 (f_lease ?g)" "f_v ?g \<noteq> 0"
    using assms v by (simp_all add: good_frame_def with_version_def int64_def Version_def)
  then have "unmarshal (marshal ?g) = Some (carried f)"
    using unmarshal_marshal [of ?g] carried_version(1) by simp
  then show ?thesis
    using write_ok [OF assms] carried_version(2) [of f] v by (simp add: read_header)
qed

lemma wire_bytes_length: "good_frame f \<Longrightarrow> 8 < length (wire_bytes f)"
  using write_ok(1) [of f] by simp

text \<open>\<open>n\<close> calls of \<open>Read\<close> on a stream: the frames and what is left, or the first error.\<close>

fun read_frames :: "nat \<Rightarrow> bytes \<Rightarrow> wire_error + frame list \<times> bytes" where
  "read_frames 0 s = Inr ([], s)"
| "read_frames (Suc n) s = (case read_counted s of
     (Inl e, k) \<Rightarrow> Inl e
   | (Inr f, k) \<Rightarrow> (case read_frames n (drop k s) of
       Inl e \<Rightarrow> Inl e
     | Inr (fs, r) \<Rightarrow> Inr (f # fs, r)))"

definition utf8_frame :: "frame \<Rightarrow> bool" where
  "utf8_frame f \<longleftrightarrow> (\<forall>s \<in> {f_op f, f_id f, f_name f, f_from f, f_text f, f_error f, f_delivery f}. valid_utf8 s)"

lemma carried_utf8: "utf8_frame f \<Longrightarrow> carried f = with_version f"
  by (simp add: carried_def utf8_frame_def to_valid_id with_version_def)

text \<open>C27 (round trip). Any sequence of frames written to a connection, whatever bytes their strings
  and bodies hold, is read back frame by frame and in order, with nothing left over and whatever
  follows untouched: bodies byte for byte, strings with invalid UTF-8 replaced, so frames of
  valid UTF-8 arrive unchanged but for the version that \<open>Write\<close> fills in.\<close>

theorem wire_roundtrip:
  assumes "\<forall>f\<in>set fs. good_frame f"
  shows "read_frames (length fs) (concat (map wire_bytes fs) @ rest) = Inr (map carried fs, rest) \<and>
    (\<forall>f\<in>set fs. f_body (carried f) = f_body f \<and> (utf8_frame f \<longrightarrow> carried f = with_version f))"
proof
  show "read_frames (length fs) (concat (map wire_bytes fs) @ rest) = Inr (map carried fs, rest)"
    using assms by (induction fs) (simp_all add: read_written)
  show "\<forall>f\<in>set fs. f_body (carried f) = f_body f \<and> (utf8_frame f \<longrightarrow> carried f = with_version f)"
    by (simp add: carried_utf8) (simp add: carried_def with_version_def)
qed

definition put_hi :: frame where
  "put_hi = no_frame\<lparr>f_op := OpPut, f_name := ''q'', f_text := ''hi''\<rparr>"

lemma put_hi_marshal: "marshal (with_version put_hi) = ''{'' @ [dquote] @ ''v'' @ [dquote] @ '':1,'' @
    [dquote] @ ''op'' @ [dquote, CHR '':'', dquote] @ ''put'' @ [dquote] @ '','' @
    [dquote] @ ''name'' @ [dquote, CHR '':'', dquote] @ ''q'' @ [dquote] @ '','' @
    [dquote] @ ''text'' @ [dquote, CHR '':'', dquote] @ ''hi'' @ [dquote] @ ''}''"
  by (simp add: put_hi_def with_version_def Version_def no_frame_def marshal_def json_object_def
      frame_fields_def str_field_def quote_str_def OpPut_def dec_int_def dec_string.simps [of "Suc 0"]
      esc_ascii_def bsl_def dquote_def byte_eq)

lemma put_hi_good: "good_frame put_hi"
proof -
  have "fst (write_frame True True put_hi) = None"
    using put_hi_marshal by (simp add: write_frame_def Let_def MaxBody_def)
  then show ?thesis by (simp add: good_frame_def int64_def) (simp add: put_hi_def no_frame_def)
qed

theorem wire_roundtrip_witness:
  "read_frames 2 (wire_bytes put_hi @ wire_bytes put_hi @ ''ZM'') =
     Inr ([put_hi\<lparr>f_v := 1\<rparr>, put_hi\<lparr>f_v := 1\<rparr>], ''ZM'')"
proof -
  have "utf8_frame put_hi" by (simp add: utf8_frame_def put_hi_def no_frame_def OpPut_def)
  then have "carried put_hi = put_hi\<lparr>f_v := 1\<rparr>"
    using carried_utf8 [of put_hi] by (simp add: with_version_def put_hi_def no_frame_def Version_def)
  then show ?thesis
    using wire_roundtrip [of "[put_hi, put_hi]" "''ZM''"] put_hi_good by (simp add: numeral_2_eq_2)
qed

subsection \<open>The count of consumed bytes\<close>

lemma read_count_le: "snd (read_counted s) \<le> length s"
  by (auto simp: read_counted_def Let_def split: option.splits)

lemma read_count_zero: "snd (read_counted s) = 0 \<longleftrightarrow> s = []"
  by (auto simp: read_counted_def Let_def split: option.splits)

lemma read_interrupted:
  assumes "good_frame f" and "k < length (wire_bytes f)"
  shows "read_counted (take k (wire_bytes f)) = (Inl Stopped, k)"
proof (cases "k < 8")
  case True
  then show ?thesis using assms(2) by (simp add: read_counted_def)
next
  case False
  let ?r = "marshal (with_version f)"
  have "take k (wire_bytes f) = header (length ?r) @ take (k - 8) ?r"
    using write_ok(1) [OF assms(1)] False by simp
  moreover have "k - 8 < length ?r" using assms(2) write_ok(1) [OF assms(1)] False by simp
  ultimately show ?thesis using write_ok(2) [OF assms(1)] False by (simp add: read_header)
qed

text \<open>When a stream stops after \<open>k\<close> bytes of a frame, \<open>ReadCounted\<close> reports
  exactly these \<open>k\<close> bytes as consumed; the count is zero only when nothing had arrived, which is
  the only case in which the next read starts at a frame boundary; and it never exceeds what
  arrived.\<close>

theorem interrupted_read:
  assumes "good_frame f" and "k < length (wire_bytes f)"
  shows "read_counted (take k (wire_bytes f)) = (Inl Stopped, k) \<and>
    (snd (read_counted s) = 0 \<longleftrightarrow> s = []) \<and> snd (read_counted s) \<le> length s"
  using read_interrupted [OF assms] read_count_zero read_count_le by simp

theorem interrupted_read_witness:
  "read_counted (take 9 (wire_bytes put_hi)) = (Inl Stopped, 9)"
  using interrupted_read [of put_hi 9 "[]"] put_hi_good wire_bytes_length [of put_hi]
  by (simp add: write_ok(1) put_hi_marshal)

subsection \<open>Two writers on one connection\<close>

text \<open>JSON that starts with the first letter of \<open>Magic\<close> is rejected.\<close>

lemma unmarshal_magic: "unmarshal (CHR ''Z'' # s) = None"
proof -
  have "number (CHR ''Z'' # s) = None"
    by (simp add: number_def int_part_def digits_def is_digit_def)
  then have "parse_json d (Val (CHR ''Z'' # s)) = None" for d
    by (simp add: parse_json.simps(1) Let_def is_ws_def dquote_def)
  then show ?thesis by (simp add: unmarshal_def json_of_bytes_def)
qed

lemma header_cons: "\<exists>t. header n = CHR ''Z'' # t"
  by (simp add: header_def Magic_def)

text \<open>\<open>Write\<close> sends header and body in two calls and \<open>reply\<close> holds no lock
  while it writes, so two goroutines of one session can send both headers before the bodies. For
  any two frames the reader then fails on the first one after having consumed bytes of it: the
  session is broken, although each frame alone would have been read.\<close>

theorem interleaved_writes:
  assumes f: "good_frame f" and g: "good_frame g"
    and wf: "snd (write_frame True True f) = [hf, bf]" and wg: "snd (write_frame True True g) = [hg, bg]"
  shows "read_counted (hf @ hg @ bf @ bg) = (Inl JsonError, length hf + length bf) \<and>
    read_counted (hf @ bf @ hg @ bg) = (Inr (carried f), length hf + length bf)"
proof
  let ?n = "length (marshal (with_version f))"
  have b: "hf = header ?n" "bf = marshal (with_version f)"
    using wf by (auto simp: write_frame_def Let_def split: if_splits)
  have hg: "hg = header (length (marshal (with_version g)))"
    using wg by (auto simp: write_frame_def Let_def split: if_splits)
  obtain t where "hg = CHR ''Z'' # t" using header_cons hg by metis
  moreover obtain k where "?n = Suc k" using marshal_ne [of "with_version f"] by (cases ?n) auto
  ultimately have "unmarshal (take ?n (hg @ bf @ bg)) = None" by (simp add: unmarshal_magic)
  then show "read_counted (hf @ hg @ bf @ bg) = (Inl JsonError, length hf + length bf)"
    using write_ok(2) [OF f] b by (simp add: read_header)
  have "wire_bytes f = hf @ bf" using write_ok(1) [OF f] b by simp
  then show "read_counted (hf @ bf @ hg @ bg) = (Inr (carried f), length hf + length bf)"
    using read_written [OF f, of "hg @ bg"] by simp
qed

theorem interleaved_writes_witness:
  "\<exists>h b. fst (read_counted (h @ h @ b @ b)) = Inl JsonError \<and> fst (read_counted (h @ b @ h @ b)) = Inr (carried put_hi)"
proof -
  obtain h b where w: "snd (write_frame True True put_hi) = [h, b]"
    using put_hi_good by (auto simp: good_frame_def write_frame_def Let_def split: if_splits)
  from interleaved_writes [OF put_hi_good put_hi_good w w] show ?thesis
    by (intro exI [of _ h] exI [of _ b]) simp
qed

subsection \<open>Short frames fit\<close>

lemma esc_str_bound: "length (esc_str s) \<le> 6 * length s"
proof (induction s rule: esc_str.induct)
  case (2 c cs)
  have a: "length (esc_ascii c) \<le> 6" by (simp add: esc_ascii_def)
  have r: "length (esc_rune u) \<le> 6" if "length u \<le> 6" for u using that by (simp add: esc_rune_def)
  have l: "lead_size c cs \<le> 4" by (simp add: lead_size_def)
  consider "lead_size c cs = 0" | "lead_size c cs = 1" | "2 \<le> lead_size c cs" by linarith
  then show ?case
  proof cases
    case 3
    have "length (esc_rune (take (lead_size c cs) (c # cs))) \<le> 6" using l by (intro r) simp
    then show ?thesis using 3 "2.IH"(3) by simp
  qed (use "2.IH" a in auto)
qed simp

lemma quote_str_bound: "length (quote_str s) \<le> 2 + 6 * length s"
  using esc_str_bound [of s] by (simp add: quote_str_def)

lemma to_valid_bound: "length (to_valid s) \<le> 3 * length s"
proof (induction s rule: to_valid.induct)
  case (2 c cs)
  consider "lead_size c cs = 0" | "0 < lead_size c cs" by linarith
  then show ?case
  proof cases
    case 1
    then show ?thesis using "2.IH"(1) by (simp add: fffd_def)
  next
    case 2
    then show ?thesis using "2.IH"(2) lead_size_le [of c cs] by simp
  qed
qed simp

text \<open>Replies that carry an operation, an id, a name and an error text.\<close>

lemma short_reply_good:
  assumes "length (f_op f) + length (f_id f) + length (f_name f) + length (f_from f) + length (f_error f) \<le> 4000"
    and "f_v f = 0" "f_lease f = 0" "f_text f = ''''" "f_body f = []" "f_delivery f = ''''"
  shows "good_frame f"
proof -
  have "length (marshal (with_version f)) \<le> 110 + 6 * (length (f_op f) + length (f_id f) + length (f_name f) + length (f_from f) + length (f_error f))"
    using assms(2-) quote_str_bound [of "f_op f"] quote_str_bound [of "f_id f"] quote_str_bound [of "f_name f"]
      quote_str_bound [of "f_error f"] quote_str_bound [of "f_from f"]
    by (simp add: with_version_def Version_def marshal_def json_object_def frame_fields_def str_field_def
        dec_int_def dec_string.simps [of "Suc 0"] split del: if_split)
       (auto split: if_splits)
  then have "length (marshal (with_version f)) \<le> MaxBody" using assms(1) by (simp add: MaxBody_def)
  then show ?thesis using assms(2,3) by (simp add: good_frame_def write_frame_def Let_def int64_def)
qed

subsection \<open>A job too large to deliver\<close>

lemma esc_str_length: "length s \<le> length (esc_str s)"
proof (induction s rule: esc_str.induct)
  case (2 c cs)
  have a: "1 \<le> length (esc_ascii c)" by (simp add: esc_ascii_def)
  have r: "length u \<le> length (esc_rune u)" for u by (simp add: esc_rune_def)
  have t: "length (take (lead_size c cs) (c # cs)) = lead_size c cs" using lead_size_le [of c cs] by simp
  consider "lead_size c cs = 0" | "lead_size c cs = 1" | "2 \<le> lead_size c cs" by linarith
  then show ?case
  proof cases
    case 3
    then have "length cs - (lead_size c cs - 1) \<le> length (esc_str (drop (lead_size c cs - 1) cs))"
      using "2.IH"(3) by simp
    then show ?thesis using 3 r [of "take (lead_size c cs) (c # cs)"] t lead_size_le [of c cs] by simp
  qed (use "2.IH" a in auto)
qed simp

lemma json_members_length: "sum_list (map (\<lambda>(k, t). length t) ms) \<le> length (json_members ms)"
  by (induction ms rule: json_members.induct) auto

lemma marshal_length:
  assumes "f_body f \<noteq> []" and "f_text f \<noteq> []"
  shows "length (f_text f) + length (b64_enc (f_body f)) < length (marshal f)"
proof -
  have "length (f_text f) + length (b64_enc (f_body f)) \<le> sum_list (map (\<lambda>(k, t). length t) (frame_fields f))"
    using assms esc_str_length [of "f_text f"]
    by (simp add: frame_fields_def str_field_def quote_str_def)
  then show ?thesis using json_members_length [of "frame_fields f"] by (simp add: marshal_def json_object_def)
qed

text \<open>A frame that carries a body as text and as base64 does not fit beyond 898779 bytes.\<close>

lemma frame_too_big:
  assumes "3 * MaxBody < 7 * length b" and "f_body f = b" and "f_text f = b"
  shows "fst (write_frame ok1 ok2 f) = Some ErrTooBig"
proof -
  let ?g = "with_version f"
  have b: "f_body ?g = b" "f_text ?g = b" using assms by (simp_all add: with_version_def)
  have "length b + length (b64_enc b) < length (marshal ?g)"
    using marshal_length [of ?g] b assms(1) by (cases b) auto
  then have "MaxBody < length (marshal ?g)" using b64_enc_length [of b] assms(1) by linarith
  then show ?thesis by (simp add: write_frame_def Let_def)
qed

lemma jobFrame_text: "f_body (jobFrame keep f m d) = m_body m" "f_text (jobFrame keep f m d) = m_body m"
  by (simp_all add: jobFrame_def msgFrame_def Let_def)

text \<open>The environment of a hub whose connections take only frames that \<open>Write\<close> accepts.\<close>

definition wire_env :: "env \<Rightarrow> bool" where
  "wire_env e \<longleftrightarrow> (\<forall>sid f. e_write e sid f \<longrightarrow> fst (write_frame True True f) = None)"

lemma poison_reply:
  assumes "wire_env e" and "3 * MaxBody < 7 * length (m_body m)"
    and "f_body out = m_body m" and "f_text out = m_body m"
  shows "\<not> e_write e sid out"
  using assms frame_too_big [of "m_body m" out True True] by (auto simp: wire_env_def)

text \<open>C29 (a poisonous job). A fresh bus accepts a body of up to 1 MiB, but a job whose body has more
  than 898779 bytes fits no delivery frame, because \<open>msgFrame\<close> sends the body twice and \<open>Write\<close>
  refuses more than 2 MiB: whoever takes it is disconnected, and the job is back on the bus for
  the next consumer.\<close>

theorem poison_job:
  assumes big: "3 * MaxBody < 7 * length (m_body m)" and fits: "int (length (m_body m)) \<le> DefaultMaxBody"
    and e: "wire_env e" and ok: "bus_ok (hbus h)" "\<not> closed (hbus h)" and n: "m_name m \<noteq> []"
    and s: "sess h sid = Some s" "\<not> s_closed s"
    and fresh: "inflight (hbus h) (e_nid e) = None" "e_nid e \<notin> set (s_inflight s)" and io: "e_io e"
    and t: "takeJob e sid keep f m h = Some h'"
  shows "(\<exists>b. put now nid True (m_name m) m newBus = Some (None, b)) \<and>
    (\<exists>s'. sess h' sid = Some s' \<and> s_closed s' \<and> jobs (hbus h') = add_mset m (jobs (hbus h)) \<and>
      inflight (hbus h') (e_nid e) = None)"
proof
  show "\<exists>b. put now nid True (m_name m) m newBus = Some (None, b)"
    using fits n by (simp add: put_def putLocked_def Let_def newBus_def newWithLimits_def persistLocked_def
        indexedLocked_def boxLocked_def waiters_of_def q_of_def box_of_def stamp_def index_add_def set_q_def
        DefaultMaxBody_def DefaultMaxQueue_def)
  from takeJob_cases [OF ok n s fresh io t]
  obtain out s' where o: "sess h' sid = Some s'" "f_body out = m_body m" "f_text out = m_body m"
    "\<not> e_write e sid out \<longrightarrow> s_closed s' \<and> jobs (hbus h') = add_mset m (jobs (hbus h)) \<and>
        inflight (hbus h') (e_nid e) = None"
    by auto
  then show "\<exists>s'. sess h' sid = Some s' \<and> s_closed s' \<and> jobs (hbus h') = add_mset m (jobs (hbus h)) \<and>
      inflight (hbus h') (e_nid e) = None"
    using poison_reply [OF e big o(2,3)] by blast
qed

definition env1 :: env where
  "env1 = env0\<lparr>e_write := (\<lambda>_ f. fst (write_frame True True f) = None)\<rparr>"

definition job_big :: msg where
  "job_big = \<lparr>m_id = ''p'', m_name = ''work'', m_from = [], m_body = replicate 900000 (CHR ''x''), m_at = 1\<rparr>"

lemma job_big_size: "length (m_body job_big) = 900000" "m_name job_big \<noteq> []"
  by (simp_all add: job_big_def)

theorem poison_job_witness:
  "\<exists>h' s'. takeJob env1 1 False no_frame job_big hub0 = Some h' \<and> sess h' 1 = Some s' \<and> s_closed s' \<and>
     jobs (hbus h') = add_mset job_big (jobs bus_a)"
proof -
  have ok: "bus_ok (hbus hub0)" by (simp add: bus_a_ok)
  have e: "wire_env env1" "e_io env1" "e_nid env1 = ''L''" by (simp_all add: wire_env_def env1_def env0_def)
  obtain h' where t: "takeJob env1 1 False no_frame job_big hub0 = Some h'"
    using takeJob_ok [OF ok, of env1 1 False no_frame job_big] by auto
  let ?s = "\<lparr>s_name = ''peer'', s_closed = False, s_unsub = [], s_inflight = [],
     s_repAck = Map.empty, s_seen = 5, s_out = []\<rparr> :: session"
  have s: "sess hub0 1 = Some ?s" "\<not> s_closed ?s" "e_nid env1 \<notin> set (s_inflight ?s)" by simp_all
  have b: "\<not> closed (hbus hub0)" "inflight (hbus hub0) (e_nid env1) = None" by simp_all
  have "3 * MaxBody < 7 * length (m_body job_big)" "int (length (m_body job_big)) \<le> DefaultMaxBody"
    by (simp_all add: job_big_size MaxBody_def DefaultMaxBody_def)
  note p = poison_job [OF this e(1) ok b(1) job_big_size(2) s(1,2) b(2) s(3) e(2) t]
  from p [where now = 0 and nid = "[]"] t show ?thesis by auto
qed

end
