(* ===== verification/Client_Props.thy ===== *)
theory Client_Props
  imports Client Wire_Props
begin

text \<open>
  Properties of the client: pings are transparent, a broken stream is noticed and stays noticed,
  retries are bounded and keep one correlation id, ids do not collide, and what a late reply does
  to the next call.
\<close>

subsection \<open>Reading\<close>

lemma rsp_error:
  "read_counted (c_rest c) = (Inl e, n) \<Longrightarrow> readSkipPing v c =
     (if 0 < n then (Inl (EDesync (Some e)), c\<lparr>c_rest := drop n (c_rest c), c_desync := True\<rparr>)
      else (Inl (EWire e), c\<lparr>c_rest := drop n (c_rest c)\<rparr>))"
  by (simp add: readSkipPing.simps [of v c] Let_def)

lemma rsp_frame:
  assumes "good_frame f" and "f_op (carried f) \<noteq> OpPing" and "c_rest c = wire_bytes f @ r"
  shows "readSkipPing v c = (Inr (carried f), c\<lparr>c_rest := r\<rparr>)"
  using assms read_written [OF assms(1), of r] by (simp add: readSkipPing.simps [of v c] Let_def)

definition pong_of :: "frame \<Rightarrow> frame" where
  "pong_of f = no_frame\<lparr>f_op := OpPong, f_id := f_id (carried f)\<rparr>"

definition pong_entry :: "cenv \<Rightarrow> frame \<Rightarrow> frame \<times> wire_error option" where
  "pong_entry v f = (pong_of f, fst (write_frame (fst (v_write v (pong_of f))) (snd (v_write v (pong_of f))) (pong_of f)))"

lemma rsp_ping:
  assumes "good_frame f" and "f_op (carried f) = OpPing" and "c_rest c = wire_bytes f @ r"
  shows "readSkipPing v c = readSkipPing v (c\<lparr>c_rest := r, c_wrote := c_wrote c @ [pong_entry v f]\<rparr>)"
  using assms read_written [OF assms(1), of r]
  by (simp add: readSkipPing.simps [of v c] Let_def send_frame_def pong_entry_def pong_of_def)

lemma rsp_pings:
  assumes "\<forall>p\<in>set ps. good_frame p \<and> f_op (carried p) = OpPing"
    and "c_rest c = concat (map wire_bytes ps) @ r"
  shows "readSkipPing v c = readSkipPing v (c\<lparr>c_rest := r, c_wrote := c_wrote c @ map (pong_entry v) ps\<rparr>)"
  using assms
proof (induction ps arbitrary: c)
  case Nil
  then have "c\<lparr>c_rest := r\<rparr> = c" by simp
  then show ?case by simp
next
  case (Cons p ps)
  have "readSkipPing v c = readSkipPing v (c\<lparr>c_rest := concat (map wire_bytes ps) @ r,
      c_wrote := c_wrote c @ [pong_entry v p]\<rparr>)"
    by (rule rsp_ping) (use Cons.prems in simp_all)
  then show ?case using Cons.prems(1) by (subst (asm) Cons.IH) simp_all
qed

text \<open>However many pings the hub sent before the reply, a read
  returns the reply, leaves what follows it unread, and has answered every ping, in order and
  with its id.\<close>

theorem client_pings:
  assumes "\<forall>p\<in>set ps. good_frame p \<and> f_op (carried p) = OpPing"
    and "good_frame f" and "f_op (carried f) \<noteq> OpPing"
    and "c_rest c = concat (map wire_bytes ps) @ wire_bytes f @ r"
  shows "readSkipPing v c =
    (Inr (carried f), c\<lparr>c_rest := r, c_wrote := c_wrote c @ map (pong_entry v) ps\<rparr>)"
  using rsp_pings [OF assms(1,4), of v]
    rsp_frame [OF assms(2,3), of "c\<lparr>c_rest := wire_bytes f @ r, c_wrote := c_wrote c @ map (pong_entry v) ps\<rparr>" r v]
  by simp

text \<open>Small frames that the hub sends; their JSON is short, so their writes succeed.\<close>

definition small_frame :: "string \<Rightarrow> string \<Rightarrow> frame" where
  "small_frame op i = no_frame\<lparr>f_op := op, f_id := i\<rparr>"

lemma small_good:
  assumes "length op + length i \<le> 1000"
  shows "good_frame (small_frame op i)"
  by (rule short_reply_good) (use assms in \<open>simp_all add: small_frame_def no_frame_def\<close>)

lemma op_valid [simp]: "to_valid OpPing = OpPing" "to_valid OpOK = OpOK" "to_valid OpErr = OpErr"
  "to_valid OpPong = OpPong" "to_valid OpMsg = OpMsg" "to_valid OpPut = OpPut" "to_valid OpRep = OpRep"
  by (simp_all add: op_defs)

lemma op_lengths [simp]: "length OpPing = 4" "length OpOK = 2" "length OpErr = 3"
  by (simp_all add: op_defs)

lemma op_distinct [simp]: "OpOK \<noteq> OpPing" "OpErr \<noteq> OpPing" "OpOK \<noteq> OpErr" "OpMsg \<noteq> OpPing" "OpMsg \<noteq> OpErr"
  "OpPut \<noteq> OpHello" "OpPut \<noteq> OpPing" "OpPut \<noteq> OpPong"
  by (simp_all add: op_defs)

lemma carried_op [simp]: "f_op (carried (small_frame op i)) = to_valid op"
  "f_id (carried (small_frame op i)) = to_valid i"
  by (simp_all add: carried_def small_frame_def)

definition cenv0 :: cenv where
  "cenv0 = \<lparr>v_rand = Some [CHR 0x01, CHR 0x02, CHR 0x03, CHR 0x04, CHR 0x05, CHR 0x06, CHR 0x07, CHR 0x08],
     v_nano = 0, v_write = (\<lambda>_. (True, True))\<rparr>"

theorem client_pings_witness:
  "\<exists>c. readSkipPing cenv0 (new_client\<lparr>c_rest := wire_bytes (small_frame OpPing ''a'') @
       wire_bytes (small_frame OpPing ''b'') @ wire_bytes (small_frame OpOK ''c'') @ ''Z''\<rparr>) =
     (Inr (carried (small_frame OpOK ''c'')), c) \<and> c_rest c = ''Z'' \<and>
     map (\<lambda>(f, e). f_id f) (c_wrote c) = [''a'', ''b'']"
proof -
  let ?ps = "[small_frame OpPing ''a'', small_frame OpPing ''b'']" and ?f = "small_frame OpOK ''c''"
  let ?c = "new_client\<lparr>c_rest := wire_bytes (small_frame OpPing ''a'') @
       wire_bytes (small_frame OpPing ''b'') @ wire_bytes ?f @ ''Z''\<rparr>"
  have p: "\<forall>p\<in>set ?ps. good_frame p \<and> f_op (carried p) = OpPing" by (simp add: small_good)
  have f: "good_frame ?f" "f_op (carried ?f) \<noteq> OpPing" by (simp_all add: small_good)
  have r: "c_rest ?c = concat (map wire_bytes ?ps) @ wire_bytes ?f @ ''Z''" by simp
  from client_pings [OF p f r, of cenv0] show ?thesis
    by (simp add: pong_entry_def pong_of_def new_client_def)
qed

lemma rsp_bound:
  "length (c_wrote (snd (readSkipPing v c))) * 9 + length (c_rest (snd (readSkipPing v c))) \<le>
     length (c_wrote c) * 9 + length (c_rest c)"
proof (induction v c rule: readSkipPing.induct)
  case (1 v c)
  obtain r n where r: "read_counted (c_rest c) = (r, n)" by (cases "read_counted (c_rest c)")
  show ?case
  proof (cases r)
    case (Inl e)
    then show ?thesis using r by (simp add: rsp_error)
  next
    case (Inr f)
    let ?c1 = "c\<lparr>c_rest := drop n (c_rest c)\<rparr>"
    have n: "9 \<le> n \<and> n \<le> length (c_rest c)"
      using r Inr by (auto simp: read_counted_def Let_def split: if_splits option.splits)
    show ?thesis
    proof (cases "f_op f = OpPing")
      case True
      let ?c2 = "snd (send_frame v (no_frame\<lparr>f_op := OpPong, f_id := f_id f\<rparr>) ?c1)"
      have e: "readSkipPing v c = readSkipPing v ?c2"
        using r Inr True by (simp add: readSkipPing.simps [of v c] Let_def)
      have "length (c_wrote ?c2) = Suc (length (c_wrote c))" "c_rest ?c2 = drop n (c_rest c)"
        by (simp_all add: send_frame_def Let_def)
      then show ?thesis
      proof -
        assume l: "length (c_wrote ?c2) = Suc (length (c_wrote c))" "c_rest ?c2 = drop n (c_rest c)"
        have "length (c_rest ?c2) + n = length (c_rest c)" using l(2) n by simp
        then show ?thesis
          using "1.IH" [OF r [symmetric] Inr refl True] n l(1) unfolding e by linarith
      qed
    next
      case False
      then have "readSkipPing v c = (Inr f, ?c1)"
        using r Inr by (simp add: readSkipPing.simps [of v c] Let_def)
      then show ?thesis by simp
    qed
  qed
qed

lemma rsp_kind:
  "case readSkipPing v c of
     (Inr f, c') \<Rightarrow> f_op f \<noteq> OpPing \<and> c_desync c' = c_desync c
   | (Inl e, c') \<Rightarrow> (is_desync e \<longleftrightarrow> c_desync c') \<or> c_desync c"
proof (induction v c rule: readSkipPing.induct)
  case (1 v c)
  obtain r n where r: "read_counted (c_rest c) = (r, n)" by (cases "read_counted (c_rest c)")
  show ?case
  proof (cases r)
    case (Inl e)
    then show ?thesis using r by (simp add: rsp_error is_desync_def)
  next
    case (Inr f)
    let ?c1 = "c\<lparr>c_rest := drop n (c_rest c)\<rparr>"
    let ?c2 = "snd (send_frame v (no_frame\<lparr>f_op := OpPong, f_id := f_id f\<rparr>) ?c1)"
    have d: "c_desync ?c2 = c_desync c" by (simp add: send_frame_def Let_def)
    show ?thesis
    proof (cases "f_op f = OpPing")
      case True
      then have e: "readSkipPing v c = readSkipPing v ?c2"
        using r Inr by (simp add: readSkipPing.simps [of v c] Let_def)
      show ?thesis using "1.IH" [OF r [symmetric] Inr refl True] unfolding d e .
    next
      case False
      then show ?thesis using r Inr by (simp add: readSkipPing.simps [of v c] Let_def)
    qed
  qed
qed


subsection \<open>A broken stream\<close>

lemma roundTrip_desync: "c_desync c \<Longrightarrow> roundTrip v req c = (Inl (EDesync None), c)"
  by (simp add: roundTrip_def)

text \<open>When reading stops inside a frame, the call returns
  \<open>ErrDesync\<close> and marks the session; from then on every call returns \<open>ErrDesync\<close> at once and
  neither writes nor reads. When nothing had arrived the session is not marked and the next
  frame is read whole.\<close>

theorem client_desync:
  assumes f: "good_frame f" "f_op (carried f) \<noteq> OpPing" and k: "0 < k" "k < length (wire_bytes f)"
    and c: "c_rest c = take k (wire_bytes f)" and d: "c_rest d = []"
  shows "\<exists>c'. readSkipPing v c = (Inl (EDesync (Some Stopped)), c') \<and> c_desync c' \<and>
      roundTrip v req (arrive s c') = (Inl (EDesync None), arrive s c') \<and>
      readSkipPing v d = (Inl (EWire Stopped), d) \<and>
      readSkipPing v (arrive (wire_bytes f) d) = (Inr (carried f), d)"
proof -
  have "read_counted (c_rest c) = (Inl Stopped, k)" using read_interrupted [OF f(1) k(2)] c by simp
  then have e: "readSkipPing v c = (Inl (EDesync (Some Stopped)), c\<lparr>c_rest := drop k (c_rest c), c_desync := True\<rparr>)"
    using k by (simp add: rsp_error)
  have "roundTrip v req (arrive s (c\<lparr>c_rest := drop k (c_rest c), c_desync := True\<rparr>)) =
    (Inl (EDesync None), arrive s (c\<lparr>c_rest := drop k (c_rest c), c_desync := True\<rparr>))"
    by (rule roundTrip_desync) (simp add: arrive_def)
  moreover have "readSkipPing v d = (Inl (EWire Stopped), d)"
    using rsp_error [of d Stopped 0 v] d by (simp add: read_counted_def)
  moreover have "readSkipPing v (arrive (wire_bytes f) d) = (Inr (carried f), d)"
  proof -
    have "c_rest (arrive (wire_bytes f) d) = wire_bytes f @ []" using d by (simp add: arrive_def)
    from rsp_frame [OF f this, of v] show ?thesis using d by (simp add: arrive_def)
  qed
  ultimately show ?thesis using e by (intro exI [of _ "c\<lparr>c_rest := drop k (c_rest c), c_desync := True\<rparr>"]) simp
qed

theorem client_desync_witness:
  "\<exists>c'. readSkipPing cenv0 (new_client\<lparr>c_rest := take 9 (wire_bytes (small_frame OpOK ''c''))\<rparr>) =
     (Inl (EDesync (Some Stopped)), c') \<and> c_desync c'"
proof -
  let ?f = "small_frame OpOK ''c''"
  have f: "good_frame ?f" "f_op (carried ?f) \<noteq> OpPing" by (simp_all add: small_good)
  have "1 < length (marshal (with_version ?f))"
    by (simp add: small_frame_def with_version_def no_frame_def marshal_def json_object_def)
  then have k: "0 < (9::nat)" "9 < length (wire_bytes ?f)" using write_ok(1) [OF f(1)] by simp_all
  have "c_rest (new_client\<lparr>c_rest := take 9 (wire_bytes ?f)\<rparr>) = take 9 (wire_bytes ?f)" by simp
  from client_desync [OF f k this, of new_client cenv0 no_frame "[]"] show ?thesis
    by (auto simp: new_client_def)
qed

subsection \<open>A late reply\<close>

lemma send_ok:
  assumes "v_write v f = (True, True)" and "good_frame f"
  shows "send_frame v f c = (None, c\<lparr>c_wrote := c_wrote c @ [(f, None)]\<rparr>)"
  using assms by (simp add: send_frame_def good_frame_def)

text \<open>A call whose request goes out returns whatever frame is next.\<close>

lemma roundTrip_next:
  assumes "\<not> c_desync c" and "f_id req \<noteq> ''''" and "v_write v req = (True, True)" and "good_frame req"
    and "good_frame f" and "f_op (carried f) \<noteq> OpPing" and "c_rest c = wire_bytes f @ r"
  shows "roundTrip v req c = (Inr (carried f), c\<lparr>c_rest := r, c_wrote := c_wrote c @ [(req, None)]\<rparr>)"
proof -
  have "req\<lparr>f_id := f_id req\<rparr> = req" by simp
  then show ?thesis
    using assms rsp_frame [OF assms(5,6), of "c\<lparr>c_wrote := c_wrote c @ [(req, None)]\<rparr>" r v]
    by (simp add: roundTrip_def send_ok)
qed

lemma roundTrip_timeout:
  assumes "\<not> c_desync c" and "f_id req \<noteq> ''''" and "v_write v req = (True, True)" and "good_frame req"
    and "c_rest c = []"
  shows "roundTrip v req c = (Inl (EWire Stopped), c\<lparr>c_wrote := c_wrote c @ [(req, None)]\<rparr>)"
proof -
  have "req\<lparr>f_id := f_id req\<rparr> = req" by simp
  moreover have "read_counted [] = (Inl Stopped, 0)" by (simp add: read_counted_def)
  ultimately show ?thesis
    using assms rsp_error [of "c\<lparr>c_wrote := c_wrote c @ [(req, None)]\<rparr>" Stopped 0 v]
    by (simp add: roundTrip_def send_ok)
qed

text \<open>A call without an id of its own gets a fresh one and returns the next frame.\<close>

lemma roundTrip_fresh:
  assumes "\<not> c_desync c" and "f_id req = ''''" and i: "nextID v c = (i, c1)"
    and w: "v_write v (req\<lparr>f_id := i\<rparr>) = (True, True)" "good_frame (req\<lparr>f_id := i\<rparr>)"
    and a: "good_frame ans" "f_op (carried ans) \<noteq> OpPing" and r: "c_rest c = []"
  shows "roundTrip v req (arrive (wire_bytes ans) c) =
    (Inr (carried ans), c1\<lparr>c_wrote := c_wrote c @ [(req\<lparr>f_id := i\<rparr>, None)]\<rparr>)"
proof -
  have n: "nextID v (arrive (wire_bytes ans) c) = (i, arrive (wire_bytes ans) c1)"
    using i by (auto simp: nextID_def Let_def arrive_def)
  have c1: "c_rest c1 = []" "c_wrote c1 = c_wrote c" using i r by (auto simp: nextID_def Let_def)
  let ?c2 = "(arrive (wire_bytes ans) c1)\<lparr>c_wrote := c_wrote c1 @ [(req\<lparr>f_id := i\<rparr>, None)]\<rparr>"
  have "send_frame v (req\<lparr>f_id := i\<rparr>) (arrive (wire_bytes ans) c1) = (None, ?c2)"
    using send_ok [of v "req\<lparr>f_id := i\<rparr>" "arrive (wire_bytes ans) c1"] w by (simp add: arrive_def)
  moreover have "c_rest ?c2 = wire_bytes ans @ []" using c1 by (simp add: arrive_def)
  note rsp_frame [OF a this, of v]
  moreover have "\<not> c_desync (arrive (wire_bytes ans) c)" using assms(1) by (simp add: arrive_def)
  moreover have "?c2\<lparr>c_rest := []\<rparr> = c1\<lparr>c_wrote := c_wrote c @ [(req\<lparr>f_id := i\<rparr>, None)]\<rparr>"
    using c1 by (simp add: arrive_def)
  ultimately show ?thesis using n assms(2) by (simp add: roundTrip_def)
qed

text \<open>C31 (a late reply is taken for the next one). After a call timed out at a frame boundary its
  reply may still arrive; the next call, whatever it asks, returns that frame although its id is
  the id of the other request, and its own reply is left for the call after it: nothing compares
  the ids of request and reply.\<close>

theorem late_reply:
  assumes c: "\<not> c_desync c" "c_rest c = []"
    and r1: "f_id req1 \<noteq> ''''" "v_write v req1 = (True, True)" "good_frame req1"
    and r2: "f_id req2 \<noteq> ''''" "v_write v req2 = (True, True)" "good_frame req2"
    and a1: "good_frame ans1" "f_op (carried ans1) \<noteq> OpPing" and a2: "good_frame ans2"
  shows "\<exists>c1 c2. roundTrip v req1 c = (Inl (EWire Stopped), c1) \<and>
    roundTrip v req2 (arrive (wire_bytes ans1 @ wire_bytes ans2) c1) = (Inr (carried ans1), c2) \<and>
    c_rest c2 = wire_bytes ans2"
proof -
  let ?c1 = "c\<lparr>c_wrote := c_wrote c @ [(req1, None)]\<rparr>"
  have 1: "roundTrip v req1 c = (Inl (EWire Stopped), ?c1)" by (rule roundTrip_timeout [OF c(1) r1 c(2)])
  have "\<not> c_desync (arrive (wire_bytes ans1 @ wire_bytes ans2) ?c1)" using c by (simp add: arrive_def)
  moreover have "c_rest (arrive (wire_bytes ans1 @ wire_bytes ans2) ?c1) = wire_bytes ans1 @ wire_bytes ans2"
    using c by (simp add: arrive_def)
  ultimately have "roundTrip v req2 (arrive (wire_bytes ans1 @ wire_bytes ans2) ?c1) =
    (Inr (carried ans1), (arrive (wire_bytes ans1 @ wire_bytes ans2) ?c1)\<lparr>c_rest := wire_bytes ans2,
       c_wrote := c_wrote (arrive (wire_bytes ans1 @ wire_bytes ans2) ?c1) @ [(req2, None)]\<rparr>)"
    by (rule roundTrip_next [OF _ r2 a1])
  with 1 show ?thesis by simp
qed

theorem late_reply_witness:
  "\<exists>c1 c2. roundTrip cenv0 (small_frame OpPing ''a'') new_client = (Inl (EWire Stopped), c1) \<and>
     roundTrip cenv0 (small_frame OpPing ''b'')
       (arrive (wire_bytes (small_frame OpOK ''a'') @ wire_bytes (small_frame OpErr ''b'')) c1) =
       (Inr (carried (small_frame OpOK ''a'')), c2)"
proof -
  have c: "\<not> c_desync new_client" "c_rest new_client = []" by (simp_all add: new_client_def)
  have r: "f_id (small_frame OpPing i) = i" "v_write cenv0 (small_frame OpPing i) = (True, True)" for i
    by (simp_all add: small_frame_def cenv0_def)
  have n: "f_id (small_frame OpPing ''a'') \<noteq> ''''" "f_id (small_frame OpPing ''b'') \<noteq> ''''"
    by (simp_all add: r(1))
  have g: "good_frame (small_frame OpPing ''a'')" "good_frame (small_frame OpPing ''b'')"
    "good_frame (small_frame OpOK ''a'')" "good_frame (small_frame OpErr ''b'')"
    by (simp_all add: small_good)
  have a: "f_op (carried (small_frame OpOK ''a'')) \<noteq> OpPing" by simp
  from late_reply [OF c n(1) r(2) g(1) n(2) r(2) g(2,3) a g(4)] show ?thesis by blast
qed

subsection \<open>Requests and their retries\<close>

definition sent_reqs :: "client \<Rightarrow> frame list" where
  "sent_reqs c = map fst (filter (\<lambda>(f, e). f_op f = OpReq) (c_wrote c))"

lemma req_not_pong [simp]: "OpPong \<noteq> OpReq"
  by (simp add: op_defs)

lemma sent_reqs_read: "sent_reqs (snd (readSkipPing v c)) = sent_reqs c"
proof (induction v c rule: readSkipPing.induct)
  case (1 v c)
  obtain r n where r: "read_counted (c_rest c) = (r, n)" by (cases "read_counted (c_rest c)")
  show ?case
  proof (cases r)
    case (Inl e)
    then show ?thesis using r by (simp add: rsp_error sent_reqs_def)
  next
    case (Inr f)
    let ?c1 = "c\<lparr>c_rest := drop n (c_rest c)\<rparr>"
    let ?c2 = "snd (send_frame v (no_frame\<lparr>f_op := OpPong, f_id := f_id f\<rparr>) ?c1)"
    show ?thesis
    proof (cases "f_op f = OpPing")
      case True
      then have e: "readSkipPing v c = readSkipPing v ?c2"
        using r Inr by (simp add: readSkipPing.simps [of v c] Let_def)
      have "sent_reqs ?c2 = sent_reqs c" by (simp add: send_frame_def Let_def sent_reqs_def)
      then show ?thesis unfolding e using "1.IH" [OF r [symmetric] Inr refl True] by simp
    next
      case False
      then show ?thesis using r Inr by (simp add: readSkipPing.simps [of v c] Let_def sent_reqs_def)
    qed
  qed
qed

lemma roundTrip_req:
  assumes "f_id req \<noteq> ''''" and "f_op req = OpReq"
  shows "sent_reqs (snd (roundTrip v req c)) = sent_reqs c @ (if c_desync c then [] else [req])"
proof (cases "c_desync c")
  case False
  have r: "req\<lparr>f_id := f_id req\<rparr> = req" by simp
  obtain e c2 where s: "send_frame v req c = (e, c2)" by (cases "send_frame v req c")
  then have "sent_reqs c2 = sent_reqs c @ [req]"
    using assms by (auto simp: send_frame_def Let_def sent_reqs_def)
  then show ?thesis
    using assms False s r sent_reqs_read [of v c2] by (cases e) (simp_all add: roundTrip_def)
qed (simp add: roundTrip_def)

lemma checked_cases:
  "snd (checked l r) = snd r"
  "(case fst (checked l r) of Inr f \<Rightarrow> f_op f \<noteq> OpErr | Inl e \<Rightarrow> True)"
  by (cases r; cases "fst r"; simp add: checked_def)+

text \<open>The loop writes the same request at most once per attempt.\<close>

lemma request_loop_spec:
  assumes "f_id req \<noteq> ''''" and "f_op req = OpReq"
  shows "\<exists>k \<le> n. sent_reqs (snd (request_loop v arr req i n lst c)) = sent_reqs c @ replicate k req \<and>
    (c_desync c \<or> n = 0 \<or> 0 < k) \<and>
    (case fst (request_loop v arr req i n lst c) of
       Inr f \<Rightarrow> f_op f \<noteq> OpErr
     | Inl e \<Rightarrow> (\<exists>j x. e = EAbandoned j x \<and> j \<le> i + n))"
proof (induction n arbitrary: i lst c)
  case 0
  then show ?case by simp
next
  case (Suc n)
  let ?c = "arrive (arr i) c"
  obtain r c1 where r: "checked (''req '' @ f_name req) (roundTrip v req ?c) = (r, c1)"
    by (cases "checked (''req '' @ f_name req) (roundTrip v req ?c)")
  have d: "c_desync ?c = c_desync c" "sent_reqs ?c = sent_reqs c" by (simp_all add: arrive_def sent_reqs_def)
  have s1: "sent_reqs c1 = sent_reqs c @ (if c_desync c then [] else [req])"
    using checked_cases(1) [of "''req '' @ f_name req" "roundTrip v req ?c"] roundTrip_req [OF assms, of v ?c] r d
    by simp
  let ?k = "if c_desync c then 0 else 1 :: nat"
  have one: "replicate ?k req = (if c_desync c then [] else [req])" by simp
  show ?case
  proof (cases r)
    case (Inr f)
    then have "f_op f \<noteq> OpErr" using checked_cases(2) [of "''req '' @ f_name req" "roundTrip v req ?c"] r by simp
    then show ?thesis using r Inr s1 one by (intro exI [of _ ?k]) simp
  next
    case (Inl e)
    show ?thesis
    proof (cases "is_desync e")
      case True
      then show ?thesis using r Inl s1 one by (intro exI [of _ ?k]) simp
    next
      case False
      from Suc.IH [of "Suc i" "Some e" c1] obtain k where k: "k \<le> n"
        "sent_reqs (snd (request_loop v arr req (Suc i) n (Some e) c1)) = sent_reqs c1 @ replicate k req"
        "case fst (request_loop v arr req (Suc i) n (Some e) c1) of Inr f \<Rightarrow> f_op f \<noteq> OpErr
          | Inl e \<Rightarrow> \<exists>j x. e = EAbandoned j x \<and> j \<le> i + Suc n"
        unfolding add_Suc_shift by blast
      have "request_loop v arr req i (Suc n) lst c = request_loop v arr req (Suc i) n (Some e) c1"
        using r Inl False by simp
      then show ?thesis using k s1 by (intro exI [of _ "?k + k"]) (auto simp: replicate_add)
    qed
  qed
qed

lemma nextID_dash: "\<exists>p. fst (nextID v c) = p @ ''-'' @ dec_string (unat (c_seq c + 1))"
  by (simp add: nextID_def Let_def)

text \<open>C32 (requests). \<open>Request\<close> writes the request at most once per attempt - three times when the
  caller names no number - and at least once on a session that is not broken, every time the
  same frame with the same correlation id, which is fresh; it returns a frame that is not an
  error, or \<open>ErrAbandoned\<close> with the number of attempts.\<close>

theorem request_bounded:
  shows "\<exists>r c' k req N. Request v arr name text body a c = (r, c') \<and>
    N = (if a \<le> 0 then 3 else nat a) \<and> k \<le> N \<and> (c_desync c \<or> 0 < k) \<and>
    sent_reqs c' = sent_reqs c @ replicate k req \<and> f_id req = fst (nextID v c) \<and>
    f_name req = name \<and> f_text req = text \<and> f_body req = body \<and>
    (case r of Inr f \<Rightarrow> f_op f \<noteq> OpErr | Inl e \<Rightarrow> (\<exists>j x. e = EAbandoned j x \<and> j \<le> N))"
proof -
  obtain i c1 where n: "nextID v c = (i, c1)" by (cases "nextID v c")
  define N where "N = (if a \<le> 0 then 3 else nat a)"
  let ?req = "no_frame\<lparr>f_op := OpReq, f_id := i, f_name := name, f_from := c_name c1, f_text := text, f_body := body\<rparr>"
  have "i \<noteq> ''''" using nextID_dash [of v c] n by auto
  then have q: "f_id ?req \<noteq> ''''" "f_op ?req = OpReq" by simp_all
  have c1: "c_desync c1 = c_desync c" "sent_reqs c1 = sent_reqs c"
    using n by (auto simp: nextID_def Let_def sent_reqs_def)
  have e: "Request v arr name text body a c = request_loop v arr ?req 0 N None c1"
    using n by (simp add: Request_def Let_def N_def)
  have pos: "0 < N" by (simp add: N_def)
  from request_loop_spec [OF q, of N v arr 0 None c1] obtain k where k: "k \<le> N"
    "sent_reqs (snd (request_loop v arr ?req 0 N None c1)) = sent_reqs c1 @ replicate k ?req"
    "c_desync c1 \<or> N = 0 \<or> 0 < k"
    "case fst (request_loop v arr ?req 0 N None c1) of Inr f \<Rightarrow> f_op f \<noteq> OpErr
      | Inl e \<Rightarrow> \<exists>j x. e = EAbandoned j x \<and> j \<le> N" unfolding add_0_left by blast
  obtain r c' where r: "request_loop v arr ?req 0 N None c1 = (r, c')"
    by (cases "request_loop v arr ?req 0 N None c1")
  show ?thesis
    by (rule exI [of _ r], rule exI [of _ c'], rule exI [of _ k], rule exI [of _ ?req], rule exI [of _ N])
      (use k pos c1 e r n N_def in simp)
qed

subsection \<open>Correlation ids\<close>

fun next_ids :: "cenv \<Rightarrow> nat \<Rightarrow> client \<Rightarrow> string list" where
  "next_ids v 0 c = []"
| "next_ids v (Suc n) c = (case nextID v c of (i, c1) \<Rightarrow> i # next_ids v n c1)"

definition id_prefix :: "cenv \<Rightarrow> client \<Rightarrow> string" where
  "id_prefix v c = (case c_prefix c of Some p \<Rightarrow> p
     | None \<Rightarrow> (case v_rand v of Some x \<Rightarrow> hex_string x | None \<Rightarrow> dec_string (v_nano v)))"

lemma next_ids_eq:
  "next_ids v n c = map (\<lambda>k. id_prefix v c @ ''-'' @ dec_string (unat (c_seq c + of_nat (Suc k)))) [0..<n]"
proof (induction n arbitrary: c)
  case (Suc n)
  let ?c1 = "snd (nextID v c)"
  have "id_prefix v ?c1 = id_prefix v c" "c_seq ?c1 = c_seq c + 1"
    by (simp_all add: nextID_def Let_def id_prefix_def)
  then have "next_ids v n ?c1 =
    map (\<lambda>k. id_prefix v c @ ''-'' @ dec_string (unat (c_seq c + of_nat (Suc (Suc k))))) [0..<n]"
    using Suc.IH [of ?c1] by (simp add: add.assoc)
  moreover have "fst (nextID v c) = id_prefix v c @ ''-'' @ dec_string (unat (c_seq c + 1))"
    by (simp add: nextID_def Let_def id_prefix_def)
  moreover have "[0..<Suc n] = 0 # map Suc [0..<n]" by (simp add: upt_conv_Cons map_Suc_upt)
  ultimately show ?case by (cases "nextID v c") (simp add: comp_def del: upt_Suc)
qed simp

lemma ord_div [simp]: "ord c div 16 < 16"
  using ord_less [of c] by (simp add: less_mult_imp_div_less del: ord_less)

lemma hexd_inj: "m < 16 \<Longrightarrow> n < 16 \<Longrightarrow> hexd m = hexd n \<longleftrightarrow> m = n"
  by (metis unhex_hexd option.inject)

lemma hex_string_inj: "hex_string x = hex_string y \<longleftrightarrow> x = y"
proof (induction x arbitrary: y)
  case Nil
  then show ?case by (cases y) auto
next
  case (Cons a x)
  show ?case
  proof (cases y)
    case (Cons b z)
    have "hex_string (a # x) = hex_string (b # z) \<longleftrightarrow>
      ord a div 16 = ord b div 16 \<and> ord a mod 16 = ord b mod 16 \<and> x = z"
      using Cons.IH [of z] by (simp add: hexd_inj)
    moreover have "ord a div 16 = ord b div 16 \<and> ord a mod 16 = ord b mod 16 \<longleftrightarrow> a = b"
      by (metis div_mult_mod_eq of_char_eq_iff)
    ultimately show ?thesis unfolding Cons by blast
  qed simp
qed

lemma dash_split:
  assumes "p @ ''-'' @ dec_string m = q @ ''-'' @ dec_string n"
    and "CHR ''-'' \<notin> set p" and "CHR ''-'' \<notin> set q"
  shows "p = q \<and> m = n"
  using append_sep_inject [of p "CHR ''-''" "dec_string m" q "dec_string n"] assms by simp

lemma hex_no_dash: "CHR ''-'' \<notin> set (hex_string x)"
proof -
  have "unhex (CHR ''-'') = None" by (simp add: unhex_def)
  then have n: "CHR ''-'' \<noteq> hexd n" if "n < 16" for n
    using unhex_hexd [OF that] by (metis option.distinct(1))
  show ?thesis
  proof (induction x)
    case (Cons a x)
    then show ?case using n [of "ord a div 16"] n [of "ord a mod 16"] by simp
  qed simp
qed

text \<open>The ids of one client repeat only after \<open>2 ^ 64\<close> calls, and two clients
  that drew different random bytes never produce the same id: a retry is recognised by its id
  and nothing else is.\<close>

theorem ids_unique:
  assumes "n < 2 ^ 64" and "c_prefix c = None" and "c_prefix d = None"
    and "v_rand v = Some x" and "v_rand w = Some y" and "x \<noteq> y"
  shows "distinct (next_ids v n c) \<and> set (next_ids v n c) \<inter> set (next_ids w m d) = {}"
proof
  have p: "id_prefix v c = hex_string x" "id_prefix w d = hex_string y"
    using assms by (simp_all add: id_prefix_def)
  have "inj_on (\<lambda>k. id_prefix v c @ ''-'' @ dec_string (unat (c_seq c + of_nat (Suc k)))) {0..<n}"
  proof (rule inj_onI)
    fix i j assume ij: "i \<in> {0..<n}" "j \<in> {0..<n}"
      and "id_prefix v c @ ''-'' @ dec_string (unat (c_seq c + of_nat (Suc i))) =
        id_prefix v c @ ''-'' @ dec_string (unat (c_seq c + of_nat (Suc j)))"
    then have "unat (c_seq c + of_nat (Suc i)) = unat (c_seq c + of_nat (Suc j))"
      by (simp only: same_append_eq dec_string_inject)
    then have "c_seq c + of_nat (Suc i) = c_seq c + of_nat (Suc j)" by (simp only: word_unat_eq_iff)
    then have "(of_nat (Suc i) :: 64 word) = of_nat (Suc j)" by (simp only: add_left_cancel)
    then have "unat (of_nat (Suc i) :: 64 word) = unat (of_nat (Suc j) :: 64 word)" by simp
    moreover have "Suc i < 2 ^ 64" "Suc j < 2 ^ 64" using ij assms(1) by auto
    ultimately show "i = j" by (simp only: unat_of_nat len_num1 len_bit0 mod_less) (simp add: take_bit_nat_eq_self)
  qed
  then show "distinct (next_ids v n c)" by (simp only: next_ids_eq distinct_map) simp
  show "set (next_ids v n c) \<inter> set (next_ids w m d) = {}"
  proof (rule ccontr)
    assume "set (next_ids v n c) \<inter> set (next_ids w m d) \<noteq> {}"
    then obtain i j where "hex_string x @ ''-'' @ dec_string i = hex_string y @ ''-'' @ dec_string j"
      by (auto simp: next_ids_eq p)
    from dash_split [OF this hex_no_dash hex_no_dash] show False using assms(6) by (simp add: hex_string_inj)
  qed
qed

theorem ids_unique_witness:
  "next_ids cenv0 2 new_client = [''0102030405060708-1'', ''0102030405060708-2''] \<and>
   distinct (next_ids cenv0 2 new_client)"
proof
  show "next_ids cenv0 2 new_client = [''0102030405060708-1'', ''0102030405060708-2'']"
  proof -
    have "(2::nat) = Suc (Suc 0)" by simp
    moreover have "unat (1 + 1 :: 64 word) = 2" "unat (1 :: 64 word) = 1" by simp_all
    ultimately show ?thesis
      by (simp only: next_ids.simps) (simp add: nextID_def Let_def cenv0_def new_client_def hexd_def
          dec_string.simps [of 2] dec_string.simps [of "Suc 0"] byte_eq)
  qed
  have "distinct (next_ids cenv0 2 new_client) \<and> set (next_ids cenv0 2 new_client) \<inter>
      set (next_ids (cenv0\<lparr>v_rand := Some []\<rparr>) 2 new_client) = {}"
    by (rule ids_unique [where x = "the (v_rand cenv0)" and y = "[]"]) (simp_all add: cenv0_def new_client_def)
  then show "distinct (next_ids cenv0 2 new_client)" by simp
qed

end
