(* ===== verification/End_To_End.thy ===== *)
theory End_To_End
  imports Client_Props
begin

text \<open>
  The client and the hub together, over the bytes of one connection: a call of the client, the
  frame the hub reads, the handler, the frame it writes back, and what the call returns.
\<close>

text \<open>One round of the read loop of \<open>run\<close> on the bytes that arrived; a read error ends the session.\<close>

definition serve_bytes :: "env \<Rightarrow> nat \<Rightarrow> bytes \<Rightarrow> hub \<Rightarrow> (spawn \<times> hub) option" where
  "serve_bytes e sid s h = (case fst (read_counted s) of
     Inr f \<Rightarrow> run_frame e sid f h
   | Inl x \<Rightarrow> map_option (\<lambda>h. (NoSpawn, h)) (endSession e sid h))"

text \<open>A connection that takes every frame \<open>Write\<close> accepts.\<close>

definition open_conn :: "env \<Rightarrow> nat \<Rightarrow> bool" where
  "open_conn e sid \<longleftrightarrow> (\<forall>f. e_write e sid f \<longleftrightarrow> fst (write_frame True True f) = None)"

subsection \<open>One call\<close>

lemma err_text_ascii: "to_valid (err_text (HBus x)) = err_text (HBus x)" "length (err_text (HBus x)) \<le> 30"
  by (cases x; simp add: err_text_def)+

lemma reply_open:
  assumes "open_conn e sid" and "sess h sid = Some s" and "\<not> s_closed s" and "good_frame f"
  shows "reply e sid f h = Some (None, upd_sess sid (\<lambda>s. s\<lparr>s_out := s_out s @ [f]\<rparr>) h)"
  by (rule reply_write [OF assms(2,3)]) (use assms in \<open>simp add: open_conn_def good_frame_def\<close>)

text \<open>The hub's side of a put: the message it makes, and the one frame it answers with.\<close>

definition client_msg :: "nat \<Rightarrow> frame \<Rightarrow> hub \<Rightarrow> msg" where
  "client_msg sid f h = \<lparr>m_id = scopedID sid (f_id f), m_name = '''', m_from = s_from sid f h,
     m_body = payload f, m_at = 0\<rparr>"

definition put_answer :: "frame \<Rightarrow> gerr option \<Rightarrow> frame" where
  "put_answer f r = (case r of None \<Rightarrow> (ok_frame f)\<lparr>f_name := f_name f\<rparr> | Some x \<Rightarrow> err_frame (f_id f) (HBus x))"

lemma put_answer_good:
  assumes "length (f_id f) + length (f_name f) \<le> 3900"
  shows "good_frame (put_answer f r)"
proof (cases r)
  case None
  then show ?thesis using assms
    by (intro short_reply_good) (simp_all add: put_answer_def ok_frame_def no_frame_def)
next
  case (Some x)
  then show ?thesis using assms err_text_ascii(2) [of x]
    by (intro short_reply_good) (simp_all add: put_answer_def err_frame_def no_frame_def)
qed

lemma hub_put:
  assumes conn: "open_conn e sid" and ok: "bus_ok (hbus h)" and s: "sess h sid = Some s" "\<not> s_closed s"
    and op: "f_op f = OpPut" and short: "length (f_id f) + length (f_name f) \<le> 3900"
  shows "\<exists>r h' s'. run_frame e sid f h = Some (NoSpawn, h') \<and>
    put (e_now e) (e_nid e) (e_io e) (f_name f) (client_msg sid f h) (hbus h) = Some (r, hbus h') \<and>
    sess h' sid = Some s' \<and> s_out s' = s_out s @ [put_answer f r]"
proof -
  let ?h0 = "touch e sid h" and ?s0 = "s\<lparr>s_seen := e_now e\<rparr>"
  have s0: "sess ?h0 sid = Some ?s0" "\<not> s_closed ?s0" "hbus ?h0 = hbus h"
    using s by (simp_all add: touch_def upd_sess_def)
  have from_h: "s_from sid f ?h0 = s_from sid f h" using s s0 by (simp add: s_from_def)
  obtain r b where p: "put (e_now e) (e_nid e) (e_io e) (f_name f) (client_msg sid f h) (hbus h) = Some (r, b)"
    by (rule put_moves [OF bus_okD(1) [OF ok]])
  let ?h1 = "?h0\<lparr>hbus := b\<rparr>" and ?out = "put_answer f r"
  have s1: "sess ?h1 sid = Some ?s0" using s0 by simp
  let ?h2 = "upd_sess sid (\<lambda>s. s\<lparr>s_out := s_out s @ [?out]\<rparr>) ?h1"
  have rp: "reply e sid ?out ?h1 = Some (None, ?h2)"
    by (rule reply_open [OF conn s1 s0(2) put_answer_good [OF short]])
  have hd: "handle e sid f ?h0 = handlePut e sid f ?h0" by (simp add: handle_def op op_defs)
  have "run_frame e sid f h = Some (NoSpawn, ?h2)"
  proof (cases r)
    case None
    then have "handlePut e sid f ?h0 = Some (None, NoSpawn, ?h2)"
      using p rp s0(3) from_h by (simp add: handlePut_def Let_def client_msg_def put_answer_def answer_def)
    then show ?thesis using hd by (simp add: run_frame_def)
  next
    case (Some x)
    then have "handlePut e sid f ?h0 = Some (Some (HBus x), NoSpawn, ?h1)"
      using p s0(3) from_h by (simp add: handlePut_def Let_def client_msg_def)
    then show ?thesis using hd rp Some by (simp add: run_frame_def put_answer_def)
  qed
  moreover have "sess ?h2 sid = Some (?s0\<lparr>s_out := s_out s @ [?out]\<rparr>)" using s1 by (simp add: upd_sess_def)
  ultimately show ?thesis using p
    by (intro exI [of _ r] exI [of _ ?h2] exI [of _ "?s0\<lparr>s_out := s_out s @ [?out]\<rparr>"]) simp
qed

definition put_frame :: "string \<Rightarrow> string \<Rightarrow> string \<Rightarrow> string \<Rightarrow> bytes \<Rightarrow> frame" where
  "put_frame i name from_name text body =
     no_frame\<lparr>f_op := OpPut, f_id := i, f_name := name, f_from := from_name, f_text := text, f_body := body\<rparr>"

lemma put_answer_carried:
  "f_op (carried (put_answer f r)) = (if r = None then OpOK else OpErr)"
  "r = Some x \<Longrightarrow> f_error (carried (put_answer f r)) = err_text (HBus x)"
  by (cases r; simp add: put_answer_def carried_def ok_frame_def err_frame_def err_text_ascii)+

lemma put_result:
  assumes i: "nextID v c = (i, c1)" and c: "\<not> c_desync c" "c_rest c = []"
    and w: "v_write v (put_frame i name (c_name c) text body) = (True, True)"
    and g: "good_frame (put_frame i name (c_name c) text body)" and a: "good_frame (put_answer f r)"
  shows "fst (Put v name text body (arrive (wire_bytes (put_answer f r)) c)) =
    (case r of None \<Rightarrow> None | Some x \<Rightarrow> Some (EOp (''put '' @ name @ '': '' @ err_text (HBus x))))"
proof -
  let ?req = "no_frame\<lparr>f_op := OpPut, f_name := name, f_from := c_name c, f_text := text, f_body := body\<rparr>"
  have q: "?req\<lparr>f_id := i\<rparr> = put_frame i name (c_name c) text body" by (simp add: put_frame_def)
  have np: "f_op (carried (put_answer f r)) \<noteq> OpPing" by (simp add: put_answer_carried(1))
  have e: "f_id ?req = ''''" by (simp add: no_frame_def)
  have "fst (roundTrip v ?req (arrive (wire_bytes (put_answer f r)) c)) = Inr (carried (put_answer f r))"
    by (subst roundTrip_fresh [OF c(1) e i _ _ a np c(2)]) (use w g q in simp_all)
  then obtain c2 where "roundTrip v ?req (arrive (wire_bytes (put_answer f r)) c) = (Inr (carried (put_answer f r)), c2)"
    by (metis prod.collapse)
  moreover have "c_name (arrive (wire_bytes (put_answer f r)) c) = c_name c" by (simp add: arrive_def)
  ultimately show ?thesis
    by (cases r) (simp_all add: Put_def checked_def no_reply_def put_answer_carried)
qed

text \<open>C24 (a put, end to end). A \<open>Put\<close> of the client on an open session returns nil exactly when the
  bus of the hub accepted the message, and otherwise the error of the bus; the message is the
  body byte for byte, or the text with invalid UTF-8 replaced when there is no body; and the hub
  answers with exactly one frame.\<close>

theorem put_end_to_end:
  assumes i: "nextID v c = (i, c1)" and c: "\<not> c_desync c" "c_rest c = []"
    and w: "v_write v (put_frame i name (c_name c) text body) = (True, True)"
    and g: "good_frame (put_frame i name (c_name c) text body)" and short: "length i + length name \<le> 1300"
    and h: "open_conn e sid" "bus_ok (hbus h)" "sess h sid = Some s" "\<not> s_closed s"
  shows "\<exists>r h' s' out m. serve_bytes e sid (wire_bytes (put_frame i name (c_name c) text body)) h = Some (NoSpawn, h') \<and>
    put (e_now e) (e_nid e) (e_io e) (to_valid name) m (hbus h) = Some (r, hbus h') \<and>
    m_body m = (if body \<noteq> [] then body else to_valid text) \<and>
    sess h' sid = Some s' \<and> s_out s' = s_out s @ [out] \<and>
    fst (Put v name text body (arrive (wire_bytes out) c)) =
      (case r of None \<Rightarrow> None | Some x \<Rightarrow> Some (EOp (''put '' @ name @ '': '' @ err_text (HBus x))))"
proof -
  let ?f = "put_frame i name (c_name c) text body" and ?g = "carried (put_frame i name (c_name c) text body)"
  have fs: "f_op ?g = OpPut" "f_id ?g = to_valid i" "f_name ?g = to_valid name" "f_body ?g = body" "f_text ?g = to_valid text"
    by (simp_all add: carried_def put_frame_def with_version_def)
  have l: "length (f_id ?g) + length (f_name ?g) \<le> 3900"
    using short to_valid_bound [of i] to_valid_bound [of name] fs by simp
  from hub_put [OF h(1,2,3,4) fs(1) l] obtain r h' s' where
    r: "run_frame e sid ?g h = Some (NoSpawn, h')"
      "put (e_now e) (e_nid e) (e_io e) (f_name ?g) (client_msg sid ?g h) (hbus h) = Some (r, hbus h')"
      "sess h' sid = Some s'" "s_out s' = s_out s @ [put_answer ?g r]" by blast
  have "serve_bytes e sid (wire_bytes ?f) h = Some (NoSpawn, h')"
    using read_written [OF g, of "[]"] r(1) by (simp add: serve_bytes_def)
  moreover have "m_body (client_msg sid ?g h) = (if body \<noteq> [] then body else to_valid text)"
    by (simp add: client_msg_def payload_def carried_def put_frame_def with_version_def)
  moreover note put_result [OF i c w g put_answer_good [OF l], of r]
  ultimately show ?thesis using r fs(3)
    by (intro exI [of _ r] exI [of _ h'] exI [of _ s'] exI [of _ "put_answer ?g r"] exI [of _ "client_msg sid ?g h"]) simp
qed

theorem put_end_to_end_witness:
  "\<exists>h' out. serve_bytes env1 1 (wire_bytes (put_frame ''0102030405060708-1'' ''work'' '''' ''hi'' [])) hub0 = Some (NoSpawn, h') \<and>
     fst (Put cenv0 ''work'' ''hi'' [] (arrive (wire_bytes out) new_client)) = None"
proof -
  let ?i = "''0102030405060708-1''" and ?s = "\<lparr>s_name = ''peer'', s_closed = False, s_unsub = [], s_inflight = [],
     s_repAck = Map.empty, s_seen = 5, s_out = []\<rparr> :: session"
  obtain c1 where i: "nextID cenv0 new_client = (?i, c1)"
    by (simp add: nextID_def Let_def cenv0_def new_client_def hexd_def dec_string.simps [of "Suc 0"] byte_eq)
  have c: "\<not> c_desync new_client" "c_rest new_client = []" "c_name new_client = ''''" by (simp_all add: new_client_def)
  have w: "v_write cenv0 (put_frame ?i ''work'' (c_name new_client) ''hi'' []) = (True, True)" by (simp add: cenv0_def)
  have g: "good_frame (put_frame ?i ''work'' (c_name new_client) ''hi'' [])"
  proof -
    have "length (marshal (with_version (put_frame ?i ''work'' '''' ''hi'' []))) \<le> MaxBody"
      by (simp add: put_frame_def with_version_def Version_def no_frame_def marshal_def json_object_def
          frame_fields_def str_field_def quote_str_def OpPut_def dec_int_def dec_string.simps [of "Suc 0"]
          esc_ascii_def bsl_def dquote_def MaxBody_def)
    then show ?thesis using c(3)
      by (simp add: good_frame_def write_frame_def Let_def int64_def) (simp add: put_frame_def no_frame_def)
  qed
  have o: "open_conn env1 1" by (simp add: open_conn_def env1_def)
  have b: "bus_ok (hbus hub0)" by (simp add: bus_a_ok)
  have s: "sess hub0 1 = Some ?s" "\<not> s_closed ?s" by simp_all
  have l: "length ?i + length ''work'' \<le> 1300" by simp
  from put_end_to_end [OF i c(1,2) w g l o b s] obtain r h' s' out m where
    r: "serve_bytes env1 1 (wire_bytes (put_frame ?i ''work'' '''' ''hi'' [])) hub0 = Some (NoSpawn, h')"
      "put (e_now env1) (e_nid env1) (e_io env1) (to_valid ''work'') m (hbus hub0) = Some (r, hbus h')"
      "m_body m = ''hi''"
      "fst (Put cenv0 ''work'' ''hi'' [] (arrive (wire_bytes out) new_client)) =
        (case r of None \<Rightarrow> None | Some x \<Rightarrow> Some (EOp (''put '' @ ''work'' @ '': '' @ err_text (HBus x))))"
    unfolding c(3) by (auto simp del: wire_bytes_def)
  have "r = None"
    using r(2,3) by (auto simp: put_def putLocked_def Let_def persistLocked_def env1_def env0_def stamp_def
        split: if_splits option.splits)
  then show ?thesis using r by auto
qed

end
