(* ===== verification/Job_Delivery.thy ===== *)
theory Job_Delivery
  imports End_To_End
begin

text \<open>
  The way back of a job: a client that takes it, or declares itself ready for it, the goroutine
  that the hub starts, the frame on the wire, and what the call of the client returns.
\<close>

text \<open>The goroutine \<open>takeJob\<close> from its call of \<open>Take\<close> on; it is done unless \<open>Take\<close> has to wait.\<close>

definition job_goroutine :: "env \<Rightarrow> nat \<Rightarrow> bool \<Rightarrow> frame \<Rightarrow> hub \<Rightarrow> (bool \<times> hub) option" where
  "job_goroutine e sid keep f h = do {
     r \<leftarrow> takeStart (e_now e) (e_ord e) (e_io e) (f_name f) (hbus h);
     case r of
       (Inl x, b) \<Rightarrow> do { r2 \<leftarrow> reply e sid (err_frame (f_id f) (HBus x)) (h\<lparr>hbus := b\<rparr>); Some (True, snd r2) }
     | (Inr ch, b) \<Rightarrow> (case takeRecv ch b of
           (None, b1) \<Rightarrow> Some (False, h\<lparr>hbus := b1\<rparr>)
         | (Some (Inl x), b1) \<Rightarrow> do {
             r2 \<leftarrow> reply e sid (err_frame (f_id f) (HBus x)) (h\<lparr>hbus := b1\<rparr>); Some (True, snd r2) }
         | (Some (Inr m), b1) \<Rightarrow> do { h1 \<leftarrow> takeJob e sid keep f m (h\<lparr>hbus := b1\<rparr>); Some (True, h1) }) }"

subsection \<open>A take that finds a job\<close>

lemma take_ready:
  assumes ok: "bus_ok b" and live: "\<not> closed b" and n: "n \<noteq> ''''" and q: "q_of b n = m # rest"
    and ne: "no_expiry now b"
  obtains ch b1 b2 where "takeStart now od True n b = Some (Inr ch, b1)"
    and "takeRecv ch b1 = (Some (Inr m), b2)" and "bus_ok b2" and "\<not> closed b2"
    and "jobs b = add_mset m (jobs b2)" and "inflight b2 = inflight b"
proof -
  note inv = bus_okD(1) [OF ok]
  let ?b0 = "boxLocked n b"
  have mv0: "moves b {#} {#} ?b0" by (rule moves_boxLocked [OF inv])
  have q0: "q_of ?b0 n = m # rest" using q by simp
  obtain e b3 where pf: "pop_front True n m rest ?b0 = (e, b3)" by fastforce
  have e: "e = None"
    using pf persist_io [of "index_del m (set_q n rest ?b0)"]
    by (cases "persistLocked True (index_del m (set_q n rest ?b0))") (simp add: pop_front_def)
  have mv3: "moves ?b0 {#} {#m#} b3" "inflight b3 = inflight ?b0"
    using pop_front_moves [OF moves_inv [OF mv0] q0, of True] pf e by simp_all
  obtain ch b4 where a: "alloc_full m b3 = (ch, b4)" by fastforce
  note al = alloc_full_moves [OF moves_inv [OF mv3(1)] a]
  have st: "takeStart now od True n b = Some (Inr ch, b4)"
    using live n nothing_expired [OF ne, of od False] q0 pf e a
    by (simp add: takeStart_def takeChan_def Let_def)
  have bf: "buf \<lparr>buf = [m], chClosed = True\<rparr> = m # []" by simp
  obtain b5 where r: "takeRecv ch b4 = (Some (Inr m), b5)" "moves b4 {#} {#m#} b5" "inflight b5 = inflight b4"
    by (rule takeRecv_got [OF moves_inv [OF al(1)] al(3) bf]) blast
  have mv: "moves b {#} {#m#} b5"
    using moves_trans [OF moves_trans [OF mv0 mv3(1)] moves_trans [OF al(1) r(2)]]
    by (metis add.left_neutral add.right_neutral moves_cancel moves_trans mv0 mv3(1) al(1) r(2))
  show ?thesis
  proof (rule that [OF st r(1) moves_ok [OF mv bus_okD(2) [OF ok]]])
    show "\<not> closed b5" using moves_closed [OF mv] live by simp
    show "jobs b = add_mset m (jobs b5)" using mv by (simp add: moves_def)
    show "inflight b5 = inflight b" using r(3) al(2) mv3(2) by (simp add: boxLocked_def split: option.splits)
  qed
qed

subsection \<open>Frames that carry a job\<close>

lemma dec_string_length: "n < 10 ^ Suc k \<Longrightarrow> length (dec_string n) \<le> Suc k"
proof (induction k arbitrary: n)
  case 0
  then show ?case by (simp add: dec_string.simps [of n])
next
  case (Suc k)
  have "n div 10 < 10 ^ Suc k" using Suc.prems by (simp add: less_mult_imp_div_less)
  then show ?case using Suc.IH [of "n div 10"] by (simp add: dec_string.simps [of n])
qed

lemma dec_int_length: "int64 i \<Longrightarrow> length (dec_int i) \<le> 20"
  using dec_string_length [of "nat i" 18] dec_string_length [of "nat (- i)" 18]
  by (cases "i < 0") (simp_all add: int64_def dec_int_def nat_less_iff)

lemma b64_enc_bound: "length (b64_enc s) \<le> 2 * length s + 4"
  by (induction s rule: b64_enc.induct) auto

lemma job_frame_good:
  assumes "length (f_op f) + length (f_id f) + length (f_name f) + length (f_from f) + length (f_delivery f) \<le> 4000"
    and "f_v f = 0" "int64 (f_lease f)" "f_error f = ''''" "f_text f = f_body f" "length (f_body f) \<le> 250000"
  shows "good_frame f"
proof -
  have "length (marshal (with_version f)) \<le> 200 +
      6 * (length (f_op f) + length (f_id f) + length (f_name f) + length (f_from f) + length (f_delivery f)) +
      8 * length (f_body f)"
    using assms(2-5) quote_str_bound [of "f_op f"] quote_str_bound [of "f_id f"] quote_str_bound [of "f_name f"]
      quote_str_bound [of "f_delivery f"] quote_str_bound [of "f_from f"] quote_str_bound [of "f_text f"]
      b64_enc_bound [of "f_body f"] dec_int_length [OF assms(3)]
    by (simp add: with_version_def Version_def marshal_def json_object_def frame_fields_def str_field_def
        dec_int_def [of 1] dec_string.simps [of "Suc 0"] split del: if_split)
       (auto split: if_splits)
  then have "length (marshal (with_version f)) \<le> MaxBody" using assms(1,6) by (simp add: MaxBody_def)
  then show ?thesis using assms(2,3) by (simp add: good_frame_def write_frame_def Let_def)
qed

definition call_frame :: "string \<Rightarrow> string \<Rightarrow> string \<Rightarrow> string \<Rightarrow> frame" where
  "call_frame op i name from_name = no_frame\<lparr>f_op := op, f_id := i, f_name := name, f_from := from_name\<rparr>"

lemma call_result:
  assumes i: "nextID v c = (i, c1)" and c: "\<not> c_desync c" "c_rest c = []"
    and w: "v_write v (call_frame op i name (c_name c)) = (True, True)"
    and g: "good_frame (call_frame op i name (c_name c))" and a: "good_frame out" "f_op out = OpMsg"
  shows "checked l (roundTrip v (no_frame\<lparr>f_op := op, f_name := name, f_from := c_name c\<rparr>)
    (arrive (wire_bytes out) c)) =
    (Inr (carried out), c1\<lparr>c_wrote := c_wrote c @ [(call_frame op i name (c_name c), None)]\<rparr>)"
proof -
  let ?req = "no_frame\<lparr>f_op := op, f_name := name, f_from := c_name c\<rparr>"
  have q: "?req\<lparr>f_id := i\<rparr> = call_frame op i name (c_name c)" by (simp add: call_frame_def)
  have op: "f_op (carried out) = OpMsg" using a(2) by (simp add: carried_def with_version_def OpMsg_def)
  then have np: "f_op (carried out) \<noteq> OpPing" "f_op (carried out) \<noteq> OpErr"
    by (simp_all add: OpMsg_def OpPing_def OpErr_def)
  have e: "f_id ?req = ''''" by (simp add: no_frame_def)
  have "roundTrip v ?req (arrive (wire_bytes out) c) =
      (Inr (carried out), c1\<lparr>c_wrote := c_wrote c @ [(?req\<lparr>f_id := i\<rparr>, None)]\<rparr>)"
    by (rule roundTrip_fresh [OF c(1) e i _ _ a(1) np(1) c(2)]) (use w g q in simp_all)
  then show ?thesis using np(2) by (simp add: checked_def q)
qed

lemma carried_payload: "f_text f = f_body f \<Longrightarrow> payload (carried f) = f_body f"
  by (simp add: payload_def carried_def with_version_def)

subsection \<open>What the goroutine does with the job\<close>

text \<open>The situation both calls share: an open session on a live bus, a job at the head of the
  mailbox that fits a frame, nothing to expire and a fresh delivery id.\<close>

definition job_waiting :: "env \<Rightarrow> nat \<Rightarrow> string \<Rightarrow> msg \<Rightarrow> hub \<Rightarrow> bool" where
  "job_waiting e sid n m h \<longleftrightarrow>
     bus_ok (hbus h) \<and> \<not> closed (hbus h) \<and> n \<noteq> '''' \<and> m_name m \<noteq> '''' \<and>
     q_of (hbus h) n \<noteq> [] \<and> hd (q_of (hbus h) n) = m \<and>
     no_expiry (e_now e) (hbus h) \<and> open_conn e sid \<and> e_io e \<and> inflight (hbus h) (e_nid e) = None \<and>
     (case sess h sid of None \<Rightarrow> False | Some s \<Rightarrow> \<not> s_closed s \<and> e_nid e \<notin> set (s_inflight s)) \<and>
     length (m_id m) + length (m_name m) + length (m_from m) + length (e_nid e) \<le> 3000 \<and>
     length (m_body m) \<le> 250000 \<and> int64 (unix_seconds (e_now e + lease_or_default (takeLease h)))"

lemma job_out_good:
  assumes "length (m_id m) + length (m_name m) + length (m_from m) + length (d_id d) \<le> 3000"
    and "length (m_body m) \<le> 250000" "int64 (unix_seconds (d_expires d))" "length (f_id f) \<le> 900"
  shows "good_frame (jobFrame keep f m d)"
proof (rule job_frame_good)
  show "length (f_op (jobFrame keep f m d)) + length (f_id (jobFrame keep f m d)) + length (f_name (jobFrame keep f m d)) +
      length (f_from (jobFrame keep f m d)) + length (f_delivery (jobFrame keep f m d)) \<le> 4000"
    using assms by (simp add: jobFrame_def msgFrame_def Let_def no_frame_def first_def OpMsg_def)
qed (use assms in \<open>simp_all add: jobFrame_def msgFrame_def Let_def no_frame_def int64_def\<close>)

lemma job_sent:
  assumes w: "job_waiting e sid (f_name f) m h" and s: "sess h sid = Some s" and f: "length (f_id f) \<le> 900"
  obtains h' s' out d where "job_goroutine e sid keep f h = Some (True, h')" and "sess h' sid = Some s'"
    and "s_out s' = s_out s @ [out]" and "good_frame out" and "f_op out = OpMsg" and "f_body out = m_body m"
    and "f_text out = f_body out" and "bus_ok (hbus h')" and "d_msg d = m" and "\<not> s_closed s'"
    and "if keep then jobs (hbus h') = jobs (hbus h) \<and> inflight (hbus h') (e_nid e) = Some d \<and>
           f_delivery out = e_nid e \<and> e_nid e \<in> set (s_inflight s') \<and>
           (f_id out \<noteq> [] \<longrightarrow> s_repAck s' (f_id out) = Some (e_nid e))
         else jobs (hbus h) = add_mset m (jobs (hbus h'))"
    and "out = jobFrame keep f m d"
proof -
  have w1: "bus_ok (hbus h)" "\<not> closed (hbus h)" "f_name f \<noteq> ''''" "m_name m \<noteq> []" "no_expiry (e_now e) (hbus h)"
    "q_of (hbus h) (f_name f) = m # tl (q_of (hbus h) (f_name f))" "open_conn e sid" "e_io e"
    "inflight (hbus h) (e_nid e) = None" "\<not> s_closed s" "e_nid e \<notin> set (s_inflight s)"
    "length (m_id m) + length (m_name m) + length (m_from m) + length (e_nid e) \<le> 3000"
    "length (m_body m) \<le> 250000" "int64 (unix_seconds (e_now e + lease_or_default (takeLease h)))"
    using w s by (auto simp: job_waiting_def)
  obtain ch b1 b2 where t: "takeStart (e_now e) (e_ord e) True (f_name f) (hbus h) = Some (Inr ch, b1)"
    "takeRecv ch b1 = (Some (Inr m), b2)" "bus_ok b2" "\<not> closed b2" "jobs (hbus h) = add_mset m (jobs b2)"
    "inflight b2 = inflight (hbus h)"
    by (rule take_ready [OF w1(1,2,3,6,5)])
  let ?h2 = "h\<lparr>hbus := b2\<rparr>"
  have h2: "bus_ok (hbus ?h2)" "\<not> closed (hbus ?h2)" "sess ?h2 sid = Some s" "inflight (hbus ?h2) (e_nid e) = None"
    using t w1 s by simp_all
  obtain h' where j: "takeJob e sid keep f m ?h2 = Some h'"
    using takeJob_ok [OF h2(1,4)] by blast
  obtain out s' d where
    o: "sess h' sid = Some s'" "f_op out = OpMsg" "f_body out = m_body m" "f_text out = m_body m" "d_msg d = m"
      "if e_write e sid out then s_out s' = s_out s @ [out] \<and>
         (if keep then jobs (hbus h') = add_mset m (jobs (hbus ?h2)) \<and> f_delivery out = e_nid e \<and>
              inflight (hbus h') (e_nid e) = Some d \<and> e_nid e \<in> set (s_inflight s') \<and>
              (f_id out \<noteq> [] \<longrightarrow> s_repAck s' (f_id out) = Some (e_nid e))
          else jobs (hbus h') = jobs (hbus ?h2) \<and> inflight (hbus h') (e_nid e) = None \<and>
              e_nid e \<notin> set (s_inflight s'))
       else s_closed s' \<and> jobs (hbus h') = add_mset m (jobs (hbus ?h2)) \<and> inflight (hbus h') (e_nid e) = None"
      "bus_ok (hbus h')" "e_write e sid out \<longrightarrow> \<not> s_closed s'" "out = jobFrame keep f m d"
      "d = \<lparr>d_id = e_nid e, d_msg = m, d_expires = e_now e + lease_or_default (takeLease ?h2)\<rparr>"
    using takeJob_full [OF h2(1,2) w1(4) h2(3) w1(10) h2(4) w1(11,8) j] by (elim exE conjE) (rule that; assumption)
  have tl: "takeLease ?h2 = takeLease h" by (simp add: takeLease_def)
  have g: "good_frame out"
    unfolding o(9) by (rule job_out_good) (use w1 f o(10) tl in simp_all)
  then have wr: "e_write e sid out" using w1(7) by (simp add: open_conn_def good_frame_def)
  have jg: "job_goroutine e sid keep f h = Some (True, h')"
    using t j w1(8) by (simp add: job_goroutine_def)
  note ot = o(6) [unfolded if_P [OF wr]]
  show ?thesis
  proof (rule that [OF jg o(1) _ g o(2,3) _ o(7,5)])
    show "s_out s' = s_out s @ [out]" using ot by blast
    show "f_text out = f_body out" using o(3,4) by simp
    show "\<not> s_closed s'" using o(8) wr by blast
    show "out = jobFrame keep f m d" by (rule o(9))
    show "if keep then jobs (hbus h') = jobs (hbus h) \<and> inflight (hbus h') (e_nid e) = Some d \<and>
           f_delivery out = e_nid e \<and> e_nid e \<in> set (s_inflight s') \<and>
           (f_id out \<noteq> [] \<longrightarrow> s_repAck s' (f_id out) = Some (e_nid e))
         else jobs (hbus h) = add_mset m (jobs (hbus h'))"
      using ot t(5) by (cases keep) simp_all
  qed
qed

lemma serve_call:
  assumes g: "good_frame (call_frame op i name n)" and op: "op = OpTake \<or> op = OpReady"
  shows "serve_bytes e sid (wire_bytes (call_frame op i name n)) h = Some (SpawnTake (op = OpReady), touch e sid h)"
proof -
  let ?f = "call_frame op i name n"
  have o: "f_op (carried ?f) = op" using op
    by (elim disjE) (simp_all add: call_frame_def carried_def with_version_def OpTake_def OpReady_def)
  have "run_frame e sid (carried ?f) h = Some (SpawnTake (op = OpReady), touch e sid h)"
    using op
  proof
    assume "op = OpTake"
    then show ?thesis using o by (simp add: run_frame_def handle_def op_defs)
  next
    assume "op = OpReady"
    then show ?thesis using o by (simp add: run_frame_def handle_def op_defs)
  qed
  then show ?thesis using read_written [OF g, of "[]"] by (simp add: serve_bytes_def)
qed

lemma job_waiting_touch:
  assumes "job_waiting e' sid n m h"
  shows "job_waiting e' sid n m (touch e sid h)"
proof -
  have t: "takeLease (touch e sid h) = takeLease h" by (simp add: touch_def upd_sess_def takeLease_def)
  have b: "hbus (touch e sid h) = hbus h" by (simp add: touch_def upd_sess_def)
  have s: "(case sess (touch e sid h) sid of None \<Rightarrow> False | Some s \<Rightarrow> \<not> s_closed s \<and> e_nid e' \<notin> set (s_inflight s)) =
    (case sess h sid of None \<Rightarrow> False | Some s \<Rightarrow> \<not> s_closed s \<and> e_nid e' \<notin> set (s_inflight s))"
    by (simp add: touch_def upd_sess_def split: option.split)
  show ?thesis using assms unfolding job_waiting_def t b s .
qed

text \<open>Both calls, from the request on the wire to what the client returns.\<close>

lemma call_delivers:
  assumes i: "nextID v c = (i, c1)" "length i \<le> 300" and c: "\<not> c_desync c" "c_rest c = []"
    and w: "v_write v (call_frame op i name (c_name c)) = (True, True)"
    and g: "good_frame (call_frame op i name (c_name c))" and op: "op = OpTake \<or> op = OpReady"
    and j: "job_waiting e' sid (to_valid name) m h" and s: "sess h sid = Some s"
  obtains h1 h' s' out d r where "serve_bytes e sid (wire_bytes (call_frame op i name (c_name c))) h = Some (SpawnTake (op = OpReady), h1)"
    and "job_goroutine e' sid (op = OpReady) (carried (call_frame op i name (c_name c))) h1 = Some (True, h')"
    and "sess h' sid = Some s'" and "s_out s' = s_out s @ [out]" and "\<not> s_closed s'" and "bus_ok (hbus h')"
    and "\<And>l. checked l (roundTrip v (no_frame\<lparr>f_op := op, f_name := name, f_from := c_name c\<rparr>)
           (arrive (wire_bytes out) c)) =
           (Inr r, c1\<lparr>c_wrote := c_wrote c @ [(call_frame op i name (c_name c), None)]\<rparr>)" and "payload r = m_body m" and "d_msg d = m"
    and "if op = OpReady then jobs (hbus h') = jobs (hbus h) \<and> inflight (hbus h') (e_nid e') = Some d \<and>
           f_delivery out = e_nid e' \<and> e_nid e' \<in> set (s_inflight s') \<and>
           (f_id out \<noteq> [] \<longrightarrow> s_repAck s' (f_id out) = Some (e_nid e'))
         else jobs (hbus h) = add_mset m (jobs (hbus h'))"
    and "r = carried out" and "out = jobFrame (op = OpReady) (carried (call_frame op i name (c_name c))) m d"
proof -
  let ?q = "call_frame op i name (c_name c)" and ?h1 = "touch e sid h"
  have q: "f_name (carried ?q) = to_valid name" "f_id (carried ?q) = to_valid i"
    by (simp_all add: carried_def call_frame_def with_version_def)
  have l: "length (f_id (carried ?q)) \<le> 900" using i(2) to_valid_bound [of i] q(2) by simp
  have s1: "sess ?h1 sid = Some (s\<lparr>s_seen := e_now e\<rparr>)" "hbus ?h1 = hbus h" using s by (simp_all add: touch_def upd_sess_def)
  obtain h' s' out d where o: "job_goroutine e' sid (op = OpReady) (carried ?q) ?h1 = Some (True, h')"
    "sess h' sid = Some s'" "s_out s' = s_out (s\<lparr>s_seen := e_now e\<rparr>) @ [out]" "good_frame out" "f_op out = OpMsg"
    "f_body out = m_body m" "f_text out = f_body out" "bus_ok (hbus h')" "d_msg d = m" "\<not> s_closed s'"
    "if op = OpReady then jobs (hbus h') = jobs (hbus ?h1) \<and> inflight (hbus h') (e_nid e') = Some d \<and>
           f_delivery out = e_nid e' \<and> e_nid e' \<in> set (s_inflight s') \<and>
           (f_id out \<noteq> [] \<longrightarrow> s_repAck s' (f_id out) = Some (e_nid e'))
         else jobs (hbus ?h1) = add_mset m (jobs (hbus h'))"
    "out = jobFrame (op = OpReady) (carried ?q) m d"
    by (rule job_sent [where keep = "op = OpReady", OF job_waiting_touch [of e' sid "f_name (carried ?q)" m h e] s1(1) l]) (use j q in simp_all)
  show ?thesis
    by (rule that [OF serve_call [OF g op, of e sid h] o(1,2) _ o(10,8) call_result [OF i(1) c w g o(4,5)] _ o(9) _ refl o(12)])
      (use o s1 carried_payload in \<open>simp_all split: if_splits\<close>)
qed

text \<open>A fresh client of a hub on which a job waits.\<close>

definition id0 :: string where "id0 = ''0102030405060708-1''"

lemma client0:
  "\<exists>c1. nextID cenv0 new_client = (id0, c1)" "length id0 \<le> 300" "\<not> c_desync new_client" "c_rest new_client = []"
  "v_write cenv0 f = (True, True)"
  by (simp_all add: nextID_def Let_def cenv0_def new_client_def hexd_def dec_string.simps [of "Suc 0"] byte_eq id0_def)

lemma call0_good: "op = OpTake \<or> op = OpReady \<Longrightarrow> good_frame (call_frame op id0 ''work'' (c_name new_client))"
  by (intro short_reply_good)
    (auto simp: call_frame_def no_frame_def id0_def new_client_def OpTake_def OpReady_def)

lemma job_waiting0: "job_waiting env1 1 (to_valid ''work'') job_a hub0"
proof -
  have "takeLease hub0 = ns_minute" by (simp add: takeLease_def ns_minute_def ns_second_def wrap64_def)
  then show ?thesis
    by (simp add: job_waiting_def env1_def bus_a_ok open_conn_def no_expiry_def lease_or_default_def
        ns_minute_def ns_second_def unix_seconds_def int64_def)
      (simp add: job_a_def)
qed

text \<open>C25 (a take, end to end). When a job waits at the head of the mailbox, the client's \<open>Take\<close>
  returns a frame whose payload is the body of that job byte for byte, the hub has written exactly
  one frame for it, and the job has left the bus for good: it was acknowledged after the
  write, so it exists nowhere else.\<close>

theorem take_end_to_end:
  assumes "nextID v c = (i, c1)" "length i \<le> 300" and "\<not> c_desync c" "c_rest c = []"
    and "v_write v (call_frame OpTake i name (c_name c)) = (True, True)"
    and "good_frame (call_frame OpTake i name (c_name c))"
    and "job_waiting e' sid (to_valid name) m h" and "sess h sid = Some s"
  shows "\<exists>h1 h' s' out r. serve_bytes e sid (wire_bytes (call_frame OpTake i name (c_name c))) h = Some (SpawnTake False, h1) \<and>
    job_goroutine e' sid False (carried (call_frame OpTake i name (c_name c))) h1 = Some (True, h') \<and>
    sess h' sid = Some s' \<and> s_out s' = s_out s @ [out] \<and>
    fst (Take v name (arrive (wire_bytes out) c)) = Inr r \<and> payload r = m_body m \<and>
    jobs (hbus h) = add_mset m (jobs (hbus h'))"
proof -
  have ne: "(OpTake = OpReady) = False" by (simp add: OpTake_def OpReady_def)
  have n: "c_name (arrive x c) = c_name c" for x by (simp add: arrive_def)
  show ?thesis
    by (rule call_delivers [OF assms(1-6) disjI1 [OF refl] assms(7,8), of e, unfolded ne if_False])
      (unfold Take_def n, intro exI conjI, assumption+, simp_all)
qed

theorem take_end_to_end_witness:
  "\<exists>h1 h' out r. serve_bytes env1 1 (wire_bytes (call_frame OpTake id0 ''work'' '''')) hub0 = Some (SpawnTake False, h1) \<and>
     job_goroutine env1 1 False (carried (call_frame OpTake id0 ''work'' '''')) h1 = Some (True, h') \<and>
     fst (Take cenv0 ''work'' (arrive (wire_bytes out) new_client)) = Inr r \<and> payload r = ''x'' \<and> jobs (hbus h') = {#}"
proof -
  have n: "c_name new_client = ''''" by (simp add: new_client_def)
  obtain c1 where i: "nextID cenv0 new_client = (id0, c1)" using client0(1) by blast
  have s: "sess hub0 1 = Some (the (sess hub0 1))" by simp
  have j: "jobs (hbus hub0) = {#job_a#}" by (simp add: jobs_def held_bus_a transit_def)
  have b: "m_body job_a = ''x''" by (simp add: job_a_def)
  from take_end_to_end [OF i client0(2-5) call0_good [OF disjI1 [OF refl]] job_waiting0 s, of env1]
  show ?thesis unfolding n j b by (elim exE conjE) (intro exI conjI, assumption+, simp)
qed

text \<open>C26 (a worker that goes away). \<open>Ready\<close> returns the job in the same way but only leases it: the job
  stays on the bus, and when the connection ends without an answer - as it always does for
  \<open>zmqcat ready\<close>, which prints the job and exits - the lease is given up and every job of the bus is
  back, none lost and none duplicated.\<close>

theorem ready_then_gone:
  assumes "nextID v c = (i, c1)" "length i \<le> 300" and "\<not> c_desync c" "c_rest c = []"
    and "v_write v (call_frame OpReady i name (c_name c)) = (True, True)"
    and "good_frame (call_frame OpReady i name (c_name c))"
    and "job_waiting e' sid (to_valid name) m h" and "sess h sid = Some s"
  shows "\<exists>h1 h' h2 s' out r. serve_bytes e sid (wire_bytes (call_frame OpReady i name (c_name c))) h = Some (SpawnTake True, h1) \<and>
    job_goroutine e' sid True (carried (call_frame OpReady i name (c_name c))) h1 = Some (True, h') \<and>
    sess h' sid = Some s' \<and> s_out s' = s_out s @ [out] \<and>
    fst (Ready v name (arrive (wire_bytes out) c)) = Inr r \<and> payload r = m_body m \<and>
    (\<exists>d. inflight (hbus h') (e_nid e') = Some d \<and> d_msg d = m) \<and>
    endSession e'' sid h' = Some h2 \<and> inflight (hbus h2) (e_nid e') = None \<and> jobs (hbus h2) = jobs (hbus h)"
proof -
  have n: "c_name (arrive x c) = c_name c" for x by (simp add: arrive_def)
  have t: "(OpReady = OpReady) = True" by simp
  show ?thesis
  proof (rule call_delivers [OF assms(1-6) disjI2 [OF refl] assms(7,8), of e, unfolded t if_True])
    fix h1 h' s' out d r
    assume a: "serve_bytes e sid (wire_bytes (call_frame OpReady i name (c_name c))) h = Some (SpawnTake True, h1)"
      "job_goroutine e' sid True (carried (call_frame OpReady i name (c_name c))) h1 = Some (True, h')"
      "sess h' sid = Some s'" "s_out s' = s_out s @ [out]" "\<not> s_closed s'" "bus_ok (hbus h')"
      "\<And>l. checked l (roundTrip v (no_frame\<lparr>f_op := OpReady, f_name := name, f_from := c_name c\<rparr>)
           (arrive (wire_bytes out) c)) =
           (Inr r, c1\<lparr>c_wrote := c_wrote c @ [(call_frame OpReady i name (c_name c), None)]\<rparr>)" "payload r = m_body m" "d_msg d = m"
      "jobs (hbus h') = jobs (hbus h) \<and> inflight (hbus h') (e_nid e') = Some d \<and>
         f_delivery out = e_nid e' \<and> e_nid e' \<in> set (s_inflight s') \<and>
         (f_id out \<noteq> [] \<longrightarrow> s_repAck s' (f_id out) = Some (e_nid e'))"
    obtain h2 where h2: "s_close e'' sid h' = Some h2" "jobs (hbus h2) = jobs (hbus h')"
      "inflight (hbus h2) = (\<lambda>j. if j \<in> set (s_inflight s') then None else inflight (hbus h') j)"
      by (rule s_close_open [OF a(6,3,5), of e''])
    let ?h2 = "h2\<lparr>registered := registered h2 - {sid}\<rparr>"
    have "endSession e'' sid h' = Some ?h2" "inflight (hbus ?h2) (e_nid e') = None" "jobs (hbus ?h2) = jobs (hbus h)"
      using h2 a(10) by (simp_all add: endSession_def)
    moreover have "fst (Ready v name (arrive (wire_bytes out) c)) = Inr r" unfolding Ready_def n by (simp add: a(7))
    ultimately show ?thesis using a(1-4,8-10) by blast
  qed
qed

theorem ready_then_gone_witness:
  "\<exists>h' h2 out r. job_goroutine env1 1 True (carried (call_frame OpReady id0 ''work'' '''')) (touch env1 1 hub0) = Some (True, h') \<and>
     fst (Ready cenv0 ''work'' (arrive (wire_bytes out) new_client)) = Inr r \<and> payload r = ''x'' \<and>
     inflight (hbus h') ''L'' \<noteq> None \<and> endSession env0 1 h' = Some h2 \<and> inflight (hbus h2) ''L'' = None \<and>
     jobs (hbus h2) = {#job_a#}"
proof -
  have n: "c_name new_client = ''''" by (simp add: new_client_def)
  obtain c1 where i: "nextID cenv0 new_client = (id0, c1)" using client0(1) by blast
  have s: "sess hub0 1 = Some (the (sess hub0 1))" by simp
  have j: "jobs (hbus hub0) = {#job_a#}" "e_nid env1 = ''L''"
    by (simp_all add: env1_def jobs_def held_bus_a transit_def)
  have b: "m_body job_a = ''x''" by (simp add: job_a_def)
  have g: "good_frame (call_frame OpReady id0 ''work'' '''')" using call0_good [OF disjI2 [OF refl]] n by simp
  have t: "serve_bytes env1 1 (wire_bytes (call_frame OpReady id0 ''work'' '''')) hub0 = Some (SpawnTake True, touch env1 1 hub0)"
    using serve_call [OF g, of env1 1 hub0] by simp
  from ready_then_gone [OF i client0(2-5) call0_good [OF disjI2 [OF refl]] job_waiting0 s, of env1 env0]
  obtain h1 h' h2 out r d where
    w: "serve_bytes env1 1 (wire_bytes (call_frame OpReady id0 ''work'' '''')) hub0 = Some (SpawnTake True, h1)"
    "job_goroutine env1 1 True (carried (call_frame OpReady id0 ''work'' '''')) h1 = Some (True, h')"
    "fst (Ready cenv0 ''work'' (arrive (wire_bytes out) new_client)) = Inr r" "payload r = ''x''"
    "inflight (hbus h') ''L'' = Some d" "endSession env0 1 h' = Some h2" "inflight (hbus h2) ''L'' = None"
    "jobs (hbus h2) = {#job_a#}"
    unfolding n j b by blast
  have "h1 = touch env1 1 hub0" using w(1) t by simp
  then show ?thesis using w by (intro exI [of _ h'] exI [of _ h2] exI [of _ out] exI [of _ r]) simp
qed

end
