(* ===== verification/Reserve.thy ===== *)
theory Reserve
  imports Job_Delivery
begin

text \<open>
  \<open>Reserve\<close> of the bus, cut at the \<open>select\<close> of its \<open>Take\<close>, and the ids of messages and
  deliveries (\<open>newID\<close>).  The hub calls \<open>Reserve\<close> for a \<open>reserve\<close> frame.
\<close>

subsection \<open>Message and delivery ids\<close>

text \<open>Twelve random bytes in hexadecimal, or the time when there are none.\<close>

definition newID :: "bytes option \<Rightarrow> nat \<Rightarrow> string" where
  "newID x nano = (case x of Some b \<Rightarrow> hex_string b | None \<Rightarrow> dec_string nano)"

lemma newID_fresh: "x \<noteq> y \<Longrightarrow> newID (Some x) m \<noteq> newID (Some y) n"
  by (simp add: newID_def hex_string_inj)

lemma newID_named: "length x = 12 \<Longrightarrow> newID (Some x) n \<noteq> '''' \<and> newID None n \<noteq> ''''"
  by (cases x) (simp_all add: newID_def)

subsection \<open>Reserve\<close>

definition reserveStart :: "gotime \<Rightarrow> string list \<Rightarrow> bool \<Rightarrow> string \<Rightarrow> bus \<Rightarrow> ((gerr + nat) \<times> bus) option" where
  "reserveStart now od io name b =
     (if name = '''' then Some (Inl ErrBadName, b) else takeStart now od io name b)"

text \<open>The receive of \<open>Take\<close> and what follows it; the first \<^const>\<open>None\<close> is a \<open>Take\<close> that goes on waiting.\<close>

definition reserveRecv ::
  "gotime \<Rightarrow> string \<Rightarrow> bool \<Rightarrow> bool \<Rightarrow> int \<Rightarrow> nat \<Rightarrow> bus \<Rightarrow> ((gerr + delivery) option \<times> bus) option" where
  "reserveRecv now nid io io2 lease ch b = (case takeRecv ch b of
     (None, b1) \<Rightarrow> Some (None, b1)
   | (Some (Inl e), b1) \<Rightarrow> Some (Some (Inl e), b1)
   | (Some (Inr m), b1) \<Rightarrow> do {
       r \<leftarrow> holdOrRequeue now nid io io2 (lease_or_default lease) m b1;
       Some (Some (fst r), snd r) })"

definition reserveCancel :: "bool \<Rightarrow> string \<Rightarrow> nat \<Rightarrow> bus \<Rightarrow> (gerr + delivery) \<times> bus" where
  "reserveCancel io name ch b = (Inl ErrCtx, cancelWaiter io name ch b)"

lemma lease_default_idem: "lease_or_default (lease_or_default l) = lease_or_default l"
  by (simp add: lease_or_default_def ns_minute_def ns_second_def)

lemma hold_works:
  assumes "bus_ok b" and "\<not> closed b" and "m_name m \<noteq> ''''" and f: "inflight b nid = None"
  obtains b' where "hold now nid True m lease b = (Inr \<lparr>d_id = nid, d_msg = m, d_expires = now + lease_or_default lease\<rparr>, b')"
    and "bus_ok b'" and "jobs b' = add_mset m (jobs b)"
    and "inflight b' nid = Some \<lparr>d_id = nid, d_msg = m, d_expires = now + lease_or_default lease\<rparr>"
proof -
  let ?d = "\<lparr>d_id = nid, d_msg = m, d_expires = now + lease_or_default lease\<rparr>"
  let ?b = "index_add m (b\<lparr>inflight := (inflight b)(nid \<mapsto> ?d)\<rparr>)"
  obtain ds where "persistLocked True ?b = (None, ?b\<lparr>disk := ds\<rparr>)"
    using persist_io [of ?b] persist_shape [of True ?b] by (metis prod.collapse)
  then have h: "hold now nid True m lease b = (Inr ?d, ?b\<lparr>disk := ds\<rparr>)" using assms by (simp add: hold_def Let_def)
  have mv: "moves b {#m#} {#} (?b\<lparr>disk := ds\<rparr>)"
    using hold_moves [OF bus_okD(1) [OF assms(1)] f, where m = m and now = now and io = True and lease = lease] h by simp
  show ?thesis
    by (rule that [OF h moves_ok [OF mv bus_okD(2) [OF assms(1)]]]) (use mv in \<open>simp_all add: moves_def\<close>)
qed

text \<open>When a job waits, \<open>Reserve\<close> leases exactly the oldest one, for the time asked or for a minute,
  and no job is lost or duplicated.\<close>

lemma reserve_leases:
  assumes ok: "bus_ok b" and live: "\<not> closed b" and n: "n \<noteq> ''''" and q: "q_of b n = m # rest"
    and ne: "no_expiry now b" and nm: "m_name m \<noteq> ''''" and f: "inflight b nid = None"
  shows "\<exists>ch b1 b2. reserveStart now od True n b = Some (Inr ch, b1) \<and>
    reserveRecv now2 nid True io2 lease ch b1 =
      Some (Some (Inr \<lparr>d_id = nid, d_msg = m, d_expires = now2 + lease_or_default lease\<rparr>), b2) \<and>
    inflight b2 nid = Some \<lparr>d_id = nid, d_msg = m, d_expires = now2 + lease_or_default lease\<rparr> \<and>
    jobs b2 = jobs b \<and> bus_ok b2"
proof -
  obtain ch b1 b0 where t: "takeStart now od True n b = Some (Inr ch, b1)" "takeRecv ch b1 = (Some (Inr m), b0)"
    "bus_ok b0" "\<not> closed b0" "jobs b = add_mset m (jobs b0)" "inflight b0 = inflight b"
    by (rule take_ready [OF ok live n q ne])
  have f0: "inflight b0 nid = None" using f t(6) by simp
  obtain b2 where h: "hold now2 nid True m (lease_or_default lease) b0 =
      (Inr \<lparr>d_id = nid, d_msg = m, d_expires = now2 + lease_or_default (lease_or_default lease)\<rparr>, b2)"
    "bus_ok b2" "jobs b2 = add_mset m (jobs b0)"
    "inflight b2 nid = Some \<lparr>d_id = nid, d_msg = m, d_expires = now2 + lease_or_default (lease_or_default lease)\<rparr>"
    by (rule hold_works [OF t(3,4) nm f0])
  then show ?thesis using t n
    by (intro exI [of _ ch] exI [of _ b1] exI [of _ b2])
      (simp add: reserveStart_def reserveRecv_def holdOrRequeue_def lease_default_idem)
qed

text \<open>On an empty name, or a bus that is closed before the call or while it waits, \<open>Reserve\<close> fails as
  \<open>TryReserve\<close> does, and leases nothing.\<close>

lemma reserve_fails:
  "reserveStart now od io '''' b = Some (Inl ErrBadName, b)"
  "tryReserve now od nid io io2 io3 '''' lease b = Some (Inl ErrBadName, b)"
  "closed b \<Longrightarrow> n \<noteq> '''' \<Longrightarrow> reserveStart now od io n b = Some (Inl ErrClosed, b)"
  "closed b \<Longrightarrow> n \<noteq> '''' \<Longrightarrow> tryReserve now od nid io io2 io3 n lease b = Some (Inl ErrClosed, b)"
  "tchan b ch = Some \<lparr>buf = [], chClosed = True\<rparr> \<Longrightarrow> reserveRecv now nid io io2 lease ch b = Some (Some (Inl ErrClosed), b)"
  by (simp_all add: reserveStart_def tryReserve_def takeStart_def takeChan_def tryTake_def reserveRecv_def takeRecv_def ch_recv_def)

end
