(* ===== verification/Request_Reply.thy ===== *)
theory Request_Reply
  imports Job_Delivery
begin

text \<open>
  A request and its reply, from the call of one client to the call of another and back: the
  request on the wire, the job it becomes, the worker's \<open>Ready\<close>, its \<open>Rep\<close>, the routing of the
  answer, and what \<open>Request\<close> returns.
\<close>

subsection \<open>What an operation of one session leaves alone\<close>

definition live_at :: "nat \<Rightarrow> hub \<Rightarrow> bool" where
  "live_at sid h = (case sess h sid of None \<Rightarrow> False | Some s \<Rightarrow> \<not> s_closed s)"

text \<open>Only the session itself changes, but neither its name nor the time of its last frame, and the
  pending table only when the session ends.\<close>

definition only_at :: "nat \<Rightarrow> hub \<Rightarrow> hub \<Rightarrow> bool" where
  "only_at sid h h' \<longleftrightarrow> (\<forall>x. x \<noteq> sid \<longrightarrow> sess h' x = sess h x) \<and>
     map_option (\<lambda>s. (s_name s, s_seen s)) (sess h' sid) = map_option (\<lambda>s. (s_name s, s_seen s)) (sess h sid) \<and>
     (live_at sid h' \<longrightarrow> live_at sid h \<and> pending h' = pending h)"

lemma only_at_refl: "only_at sid h h"
  by (simp add: only_at_def)

lemma only_at_trans: "only_at sid h h1 \<Longrightarrow> only_at sid h1 h2 \<Longrightarrow> only_at sid h h2"
  by (simp add: only_at_def)

lemma only_at_bus: "only_at sid h (h'\<lparr>hbus := b\<rparr>) = only_at sid h h'" "only_at sid (h\<lparr>hbus := b\<rparr>) h' = only_at sid h h'"
  by (simp_all add: only_at_def live_at_def)

lemma only_at_upd: "(\<And>s. s_closed (f s) = s_closed s \<and> s_name (f s) = s_name s \<and> s_seen (f s) = s_seen s) \<Longrightarrow> only_at sid h (upd_sess sid f h)"
  by (cases "sess h sid") (auto simp: only_at_def live_at_def upd_sess_def split: option.splits)

lemma only_at_close: "s_close e sid h = Some h' \<Longrightarrow> only_at sid h h'"
  by (auto simp: s_close_def Let_def only_at_def live_at_def upd_sess_def clearPending_def bind_eq_Some_conv
      split: option.splits if_splits)

lemma only_at_reply: "reply e sid f h = Some (r, h') \<Longrightarrow> only_at sid h h'"
  by (auto simp: reply_def bind_eq_Some_conv intro: only_at_upd only_at_refl dest: only_at_close
      split: option.splits if_splits)

lemma only_at_small: "only_at sid h (trackInflight sid d h)"
  "only_at sid h (dropInflight sid d h)" "only_at sid h (trackRepAck sid k d h)" "only_at sid h (dropRepAck sid k h)"
  "only_at sid h (snd (takeRepAck sid k h))"
  by (simp_all add: trackInflight_def dropInflight_def trackRepAck_def dropRepAck_def takeRepAck_def
      only_at_upd only_at_refl)

lemma only_at_claim: "claimInflight sid d h = (r, h') \<Longrightarrow> only_at sid h h'"
  by (auto simp: claimInflight_def only_at_refl only_at_small split: option.splits if_splits)

lemma only_at_track: "only_at sid h (jobTrack sid keep f m d h)"
  by (auto simp: jobTrack_def Let_def intro: only_at_trans only_at_small)

lemma only_at_after:
  "only_at sid (dropRepAck sid k h) h' \<Longrightarrow> only_at sid h h'" "only_at sid (jobTrack sid keep f m d h) h' \<Longrightarrow> only_at sid h h'"
  by (blast intro: only_at_trans only_at_small only_at_track)+

lemma only_at_send: "jobSend e sid keep f m d h = Some h' \<Longrightarrow> only_at sid h h'"
  by (auto simp: jobSend_def bind_eq_Some_conv only_at_bus dest!: only_at_reply only_at_claim only_at_after
      split: option.splits if_splits prod.splits bool.splits dest: only_at_trans)

lemma only_at_hold: "jobHold e sid f m h = Some (r, h') \<Longrightarrow> only_at sid h h'"
  by (auto simp: jobHold_def bind_eq_Some_conv only_at_bus only_at_refl dest!: only_at_reply split: sum.splits prod.splits)

lemma only_at_job: "takeJob e sid keep f m h = Some h' \<Longrightarrow> only_at sid h h'"
  by (auto simp: takeJob_def bind_eq_Some_conv dest!: only_at_hold only_at_send only_at_after split: option.splits
      dest: only_at_trans)

lemma only_at_goroutine:
  assumes "job_goroutine e sid keep f h = Some (r, h')"
  shows "only_at sid h h'"
proof -
  obtain x b where t: "takeStart (e_now e) (e_ord e) (e_io e) (f_name f) (hbus h) = Some (x, b)"
    using assms by (auto simp: job_goroutine_def bind_eq_Some_conv)
  show ?thesis
  proof (cases x)
    case (Inl a)
    then show ?thesis using assms t
      by (auto simp: job_goroutine_def bind_eq_Some_conv only_at_bus dest!: only_at_reply)
  next
    case (Inr ch)
    obtain y b1 where y: "takeRecv ch b = (y, b1)" by fastforce
    show ?thesis using assms t Inr y
      by (auto simp: job_goroutine_def bind_eq_Some_conv only_at_bus only_at_refl dest!: only_at_reply only_at_job
          split: option.splits sum.splits)
  qed
qed

subsection \<open>The request becomes a job\<close>

text \<open>The mailbox of the service is empty, nobody waits for it, and the bus takes a message of this id
  and length.\<close>

definition takes_job :: "string \<Rightarrow> string \<Rightarrow> nat \<Rightarrow> bus \<Rightarrow> bool" where
  "takes_job n k len b \<longleftrightarrow> bus_ok b \<and> \<not> closed b \<and> n \<noteq> '''' \<and> q_of b n = [] \<and> waiters_of b n = [] \<and>
     int len \<le> maxBody b \<and> 0 < maxQueue b \<and> \<not> indexedLocked n k (dedup b)"

definition req_msg :: "env \<Rightarrow> nat \<Rightarrow> frame \<Rightarrow> hub \<Rightarrow> msg" where
  "req_msg e sid f h = \<lparr>m_id = scopedID sid (f_id f), m_name = f_name f, m_from = s_from sid f h,
     m_body = payload f, m_at = e_now e\<rparr>"

lemma put_empty:
  assumes t: "takes_job n (m_id m) (length (m_body m)) b" and s: "stamp now nid n m0 = m" "m_body m0 = m_body m"
  obtains b' where "put now nid True n m0 b = Some (None, b')" and "bus_ok b'" and "\<not> closed b'" and "q_of b' n = [m]"
    and "inflight b' = inflight b" and "jobs b' = add_mset m (jobs b)" and "waiters_of b' n = []"
proof -
  have ok: "bus_ok b" and live: "\<not> closed b" and fit: "n \<noteq> ''''" "q_of b n = []" "waiters_of b n = []"
      "int (length (m_body m)) \<le> maxBody b" "0 < maxQueue b" "\<not> indexedLocked n (m_id m) (dedup b)"
    using t by (simp_all add: takes_job_def)
  note inv = bus_okD(1) [OF ok]
  obtain r b' where p: "put now nid True n m0 b = Some (r, b')"
    and mv: "moves b (if r = None \<and> \<not> indexedLocked n (m_id (stamp now nid n m0)) (dedup b)
                  then {#stamp now nid n m0#} else {#}) {#} b'"
    and inf: "inflight b' = inflight b"
    by (rule put_moves [OF inv]) blast
  let ?b1 = "index_add m (set_q n [m] (boxLocked n b))"
  obtain ds where "persistLocked True ?b1 = (None, ?b1\<lparr>disk := ds\<rparr>)"
    using persist_io [of ?b1] persist_shape [of True ?b1] by (metis prod.collapse)
  then have "put now nid True n m0 b = Some (None, ?b1\<lparr>disk := ds\<rparr>)"
    using fit live s by (simp add: put_def putLocked_def Let_def)
  then have r: "r = None" and b': "b' = ?b1\<lparr>disk := ds\<rparr>" using p by simp_all
  have q: "q_of b' n = [m]" "waiters_of b' n = []" using fit by (simp_all add: b')
  have mv: "moves b {#m#} {#} b'" using mv r s(1) fit(6) by simp
  have j: "jobs b' = add_mset m (jobs b)" using mv by (simp add: moves_def)
  show ?thesis
    by (rule that [OF _ moves_ok [OF mv bus_okD(2) [OF ok]] _ q(1) inf j q(2)]) (use p r live moves_closed [OF mv] in simp_all)
qed

lemma req_pends:
  assumes op: "f_op f = OpReq" and i: "f_id f \<noteq> ''''" and io: "e_io e"
    and t: "takes_job (f_name f) (scopedID sid (f_id f)) (length (payload f)) (hbus h)"
  obtains h' where "run_frame e sid f h = Some (NoSpawn, h')" and "sess h' = sess (touch e sid h)"
    and "pending h' (scopedID sid (f_id f)) = Some \<lparr>p_sess = sid, p_client = f_id f, p_expires = e_now e + pendingTTL h\<rparr>"
    and "bus_ok (hbus h')" and "\<not> closed (hbus h')" and "q_of (hbus h') (f_name f) = [req_msg e sid f h]"
    and "inflight (hbus h') = inflight (hbus h)" and "jobs (hbus h') = add_mset (req_msg e sid f h) (jobs (hbus h))"
    and "takeLease h' = takeLease h" and "waiters_of (hbus h') (f_name f) = []"
proof -
  let ?k = "scopedID sid (f_id f)" and ?h0 = "touch e sid h"
  let ?m0 = "\<lparr>m_id = ?k, m_name = '''', m_from = s_from sid f h, m_body = payload f, m_at = 0\<rparr>"
  have k: "?k \<noteq> ''''" using i by (simp add: scopedID_def)
  have st: "stamp (e_now e) (e_nid e) (f_name f) ?m0 = req_msg e sid f h" using k by (simp add: stamp_def req_msg_def)
  have t': "takes_job (f_name f) (m_id (req_msg e sid f h)) (length (m_body (req_msg e sid f h))) (hbus h)"
    using t by (simp add: req_msg_def)
  obtain b where b: "put (e_now e) (e_nid e) True (f_name f) ?m0 (hbus h) = Some (None, b)" "bus_ok b" "\<not> closed b"
    "q_of b (f_name f) = [req_msg e sid f h]" "inflight b = inflight (hbus h)" "jobs b = add_mset (req_msg e sid f h) (jobs (hbus h))"
    "waiters_of b (f_name f) = []"
    by (rule put_empty [OF t' st]) (simp_all add: req_msg_def)
  have h0: "hbus ?h0 = hbus h" "s_from sid f ?h0 = s_from sid f h" "pendingTTL ?h0 = pendingTTL h"
    by (simp_all add: touch_def upd_sess_def s_from_def pendingTTL_def split: option.split)
  let ?p = "\<lparr>p_sess = sid, p_client = f_id f, p_expires = e_now e + pendingTTL h\<rparr>"
  let ?h1 = "expirePendingLocked (e_now e) ?h0"
  let ?h' = "?h1\<lparr>pending := (pending ?h1)(?k \<mapsto> ?p), hbus := b\<rparr>"
  have h1: "hbus ?h1 = hbus h" "sess ?h1 = sess ?h0" using h0 by (simp_all add: expirePendingLocked_def)
  have "handleReq e sid f ?h0 = Some (None, NoSpawn, ?h')"
    using i b(1) h0 h1 io by (simp add: handleReq_def Let_def)
  then have run: "run_frame e sid f h = Some (NoSpawn, ?h')" by (simp add: run_frame_def handle_def op op_defs)
  show ?thesis
    by (rule that [OF run]) (use b h1 in \<open>simp_all add: takeLease_def expirePendingLocked_def touch_def upd_sess_def\<close>)
qed

subsection \<open>The reply is routed and the job is done\<close>

definition rep_frame :: "pendingReq \<Rightarrow> string \<Rightarrow> frame \<Rightarrow> frame" where
  "rep_frame p from_name f = no_frame\<lparr>f_op := OpRep, f_id := p_client p, f_name := f_name f, f_from := from_name,
     f_body := f_body f, f_text := f_text f\<rparr>"

lemma repAckPart_done:
  assumes s: "sess h sid = Some s" "\<not> s_closed s" and d: "s_repAck s i = Some x" "x \<noteq> ''''"
    and ok: "bus_ok (hbus h)" and l: "inflight (hbus h) x = Some dl"
  obtains h' s' where "repAckPart e sid i h = h'" and "sess h' = (sess h)(sid \<mapsto> s')" and "\<not> s_closed s'"
    and "s_out s' = s_out s" and "s_name s' = s_name s" and "pending h' = pending h" and "inflight (hbus h') x = None"
    and "jobs (hbus h) = add_mset (d_msg dl) (jobs (hbus h'))" and "bus_ok (hbus h')"
proof -
  obtain s' where s': "sess (repAckPart e sid i h) = (sess h)(sid \<mapsto> s')" "\<not> s_closed s'" "s_out s' = s_out s" "s_name s' = s_name s"
    using repAckPart_frame(2) [OF s, of e i] by blast
  let ?h1 = "dropRepAck sid i h"
  have h1: "hbus ?h1 = hbus h" "sess ?h1 sid = Some (s\<lparr>s_repAck := (s_repAck s)(i := None)\<rparr>)"
    using s by (simp_all add: dropRepAck_def upd_sess_def)
  have c: "claimInflight sid x ?h1 = (True, dropInflight sid x ?h1)" using h1 s by (simp add: claimInflight_def)
  have t: "takeRepAck sid i h = (x, ?h1)" using s d by (simp add: takeRepAck_def)
  have b: "hbus (repAckPart e sid i h) = snd (ack (e_io e) x (hbus h))"
    using t c d(2) h1 by (simp add: repAckPart_def dropInflight_def upd_sess_def)
  note mv = ack_moves [OF bus_okD(1) [OF ok] l, of "e_io e"]
  show ?thesis
    by (rule that [OF refl s' repAckPart_frame(1) [OF s]])
      (use mv moves_ok [OF mv(1) bus_okD(2) [OF ok]] in \<open>simp_all add: b moves_def\<close>)
qed

lemma rep_answers:
  assumes w: "sess h sid = Some s" "\<not> s_closed s" and c: "sess h (p_sess p) = Some t" "\<not> s_closed t" and ne: "p_sess p \<noteq> sid"
    and p: "pending h (f_id f) = Some p" and op: "f_op f = OpRep"
    and conn: "open_conn e sid" "open_conn e (p_sess p)"
    and good: "good_frame (ok_frame f)" "good_frame (rep_frame p (s_from sid f h) f)"
    and d: "s_repAck s (f_id f) = Some x" "x \<noteq> ''''" and ok: "bus_ok (hbus h)" and l: "inflight (hbus h) x = Some dl"
  obtains h' s' t' where "run_frame e sid f h = Some (NoSpawn, h')" and "sess h' sid = Some s'"
    and "s_out s' = s_out s @ [ok_frame f]" and "sess h' (p_sess p) = Some t'"
    and "s_out t' = s_out t @ [rep_frame p (s_from sid f h) f]" and "pending h' (f_id f) = None"
    and "inflight (hbus h') x = None" and "jobs (hbus h) = add_mset (d_msg dl) (jobs (hbus h'))"
proof -
  let ?h0 = "touch e sid h"
  have h0: "sess ?h0 sid = Some (s\<lparr>s_seen := e_now e\<rparr>)" "sess ?h0 (p_sess p) = Some t" "hbus ?h0 = hbus h" "pending ?h0 = pending h"
    "s_from sid f ?h0 = s_from sid f h"
    using w c ne by (simp_all add: touch_def upd_sess_def s_from_def)
  obtain h1 s1 where h1: "repAckPart e sid (f_id f) ?h0 = h1" "sess h1 = (sess ?h0)(sid \<mapsto> s1)" "\<not> s_closed s1"
      "s_out s1 = s_out s" "s_name s1 = s_name s" "pending h1 = pending h" "inflight (hbus h1) x = None"
      "jobs (hbus h) = add_mset (d_msg dl) (jobs (hbus h1))"
    by (rule repAckPart_done [of ?h0 sid "s\<lparr>s_seen := e_now e\<rparr>" "f_id f" x dl e]) (use h0 w d ok l in simp_all)
  let ?h2 = "h1\<lparr>pending := (pending h1)(f_id f := None)\<rparr>"
  let ?h3 = "upd_sess sid (\<lambda>s. s\<lparr>s_out := s_out s @ [ok_frame f]\<rparr>) ?h2"
  have r1: "reply e sid (ok_frame f) ?h2 = Some (None, ?h3)"
    by (rule reply_open [OF conn(1) _ h1(3) good(1)]) (simp add: h1(2))
  have s3: "sess ?h3 sid = Some (s1\<lparr>s_out := s_out s @ [ok_frame f]\<rparr>)" "sess ?h3 (p_sess p) = Some t"
    using h1 h0 ne by (simp_all add: upd_sess_def)
  have fr: "s_from sid f ?h3 = s_from sid f h" unfolding s_from_def s3(1) using h1(5) w by simp
  let ?r = "rep_frame p (s_from sid f h) f"
  let ?h4 = "upd_sess (p_sess p) (\<lambda>s. s\<lparr>s_out := s_out s @ [?r]\<rparr>) ?h3"
  have r2: "reply e (p_sess p) ?r ?h3 = Some (None, ?h4)"
    by (rule reply_open [OF conn(2) s3(2) c(2) good(2)])
  have "handleRep e sid f ?h0 = Some (None, NoSpawn, ?h4)"
    unfolding handleRep_def Let_def using r1 r2 p h1 fr by (simp add: rep_frame_def)
  then have run: "run_frame e sid f h = Some (NoSpawn, ?h4)" by (simp add: run_frame_def handle_def op op_defs)
  have s4: "sess ?h4 sid = Some (s1\<lparr>s_out := s_out s @ [ok_frame f]\<rparr>)" "sess ?h4 (p_sess p) = Some (t\<lparr>s_out := s_out t @ [?r]\<rparr>)"
    using s3 ne by (simp_all add: upd_sess_def)
  show ?thesis
    by (rule that [OF run s4(1) _ s4(2)]) (use h1 in \<open>simp_all add: upd_sess_def\<close>)
qed

subsection \<open>The calls of the two clients\<close>

definition req_frame :: "string \<Rightarrow> string \<Rightarrow> string \<Rightarrow> string \<Rightarrow> bytes \<Rightarrow> frame" where
  "req_frame i name from_name text body =
     no_frame\<lparr>f_op := OpReq, f_id := i, f_name := name, f_from := from_name, f_text := text, f_body := body\<rparr>"

definition reply_frame :: "string \<Rightarrow> string \<Rightarrow> string \<Rightarrow> string \<Rightarrow> bytes \<Rightarrow> frame" where
  "reply_frame i name from_name text body =
     no_frame\<lparr>f_op := OpRep, f_id := i, f_name := name, f_from := from_name, f_text := text, f_body := body\<rparr>"

text \<open>\<open>Request\<close> returns the rep that arrives during its first attempt.\<close>

lemma request_returns:
  assumes i: "nextID v c = (i, c1)" "i \<noteq> ''''" and c: "\<not> c_desync c" "c_rest c = []"
    and w: "v_write v (req_frame i name (c_name c) text body) = (True, True)"
    and g: "good_frame (req_frame i name (c_name c) text body)" and a: "good_frame out" "f_op out = OpRep"
    and arr: "arr 0 = wire_bytes out"
  shows "fst (Request v arr name text body attempts c) = Inr (carried out)"
proof -
  let ?req = "req_frame i name (c_name c) text body"
  have c1: "c_name c1 = c_name c" "\<not> c_desync c1" "c_rest c1 = []" using i c by (auto simp: nextID_def Let_def)
  have op: "f_op (carried out) = OpRep" using a(2) by (simp add: carried_def with_version_def OpRep_def)
  then have np: "f_op (carried out) \<noteq> OpPing" "f_op (carried out) \<noteq> OpErr" by (simp_all add: OpRep_def OpPing_def OpErr_def)
  have n: "0 < (if attempts \<le> 0 then 3 else nat attempts)" by simp
  then obtain k where k: "(if attempts \<le> 0 then 3 else nat attempts) = Suc k" using gr0_conv_Suc by blast
  let ?c = "arrive (arr 0) c1"
  have "fst (roundTrip v ?req ?c) = Inr (carried out)"
    by (subst roundTrip_next [OF _ _ w g a(1) np(1), of ?c "[]"])
      (use c1 arr i(2) in \<open>simp_all add: arrive_def req_frame_def no_frame_def\<close>)
  then have "fst (request_loop v arr ?req 0 (Suc k) None c1) = Inr (carried out)"
    using np(2) by (cases "roundTrip v ?req ?c") (simp add: checked_def)
  then show ?thesis
    unfolding Request_def Let_def k using i(1) c1(1) by (simp add: req_frame_def del: request_loop.simps)
qed

text \<open>\<open>Rep\<close> returns nil once the hub's ok has arrived.\<close>

lemma rep_returns:
  assumes c: "\<not> c_desync c" "c_rest c = []" and i: "i \<noteq> ''''"
    and w: "v_write v (reply_frame i name (c_name c) text body) = (True, True)"
    and g: "good_frame (reply_frame i name (c_name c) text body)" and a: "good_frame out" "f_op out = OpOK"
  shows "fst (Rep v i name text body (arrive (wire_bytes out) c)) = None"
proof -
  let ?req = "reply_frame i name (c_name c) text body" and ?c = "arrive (wire_bytes out) c"
  have op: "f_op (carried out) = OpOK" using a(2) by (simp add: carried_def with_version_def OpOK_def)
  then have np: "f_op (carried out) \<noteq> OpPing" "f_op (carried out) \<noteq> OpErr" by (simp_all add: OpOK_def OpPing_def OpErr_def)
  have "fst (roundTrip v ?req ?c) = Inr (carried out)"
    by (subst roundTrip_next [OF _ _ w g a(1) np(1), of ?c "[]"])
      (use c i in \<open>simp_all add: arrive_def reply_frame_def no_frame_def\<close>)
  moreover have "c_name ?c = c_name c" by (simp add: arrive_def)
  ultimately show ?thesis using np(2)
    by (cases "roundTrip v ?req ?c") (simp add: Rep_def reply_frame_def checked_def no_reply_def)
qed

subsection \<open>Strings and sizes\<close>

lemma valid_ascii_append: "\<forall>c\<in>set p. ord c < 0x80 \<Longrightarrow> valid_utf8 (p @ s) = valid_utf8 s"
  by (induction p) auto

lemma valid_fffd: "valid_utf8 (fffd @ s) = valid_utf8 s"
  by (simp add: fffd_def lead_size_def second_ok_def cont_def)

lemma valid_to_valid: "valid_utf8 (to_valid s)"
proof (induction s rule: to_valid.induct)
  case (2 c cs)
  let ?k = "lead_size c cs"
  show ?case
  proof (cases "?k = 0")
    case False
    then obtain j where k: "?k = Suc j" using not0_implies_Suc by blast
    have l: "length (take j cs) = j" using lead_size_le [of c cs] k by simp
    have "lead_size c (take j cs @ to_valid (drop j cs)) = Suc j" using lead_size_take [of c cs] k by simp
    then show ?thesis using 2(2) False k l by simp
  qed (use 2 valid_fffd in simp)
qed simp

lemma digit_ascii: "c \<in> set (dec_string n) \<Longrightarrow> ord c < 0x80"
  using dec_string_digits [of n] by (auto simp: is_digit_def)

lemma valid_scoped: "valid_utf8 i \<Longrightarrow> to_valid (scopedID a i) = scopedID a i"
  using digit_ascii [of _ a] valid_ascii_append [of "CHR ''s'' # dec_string a @ [CHR '':'']" i]
  by (intro to_valid_id) (auto simp: scopedID_def)

text \<open>Names of at most 400 bytes together, a text of at most 30000 and a body of at most 250000.\<close>

definition fits :: "string \<Rightarrow> string \<Rightarrow> string \<Rightarrow> bytes \<Rightarrow> bool" where
  "fits name from_name text body \<longleftrightarrow>
     length name + length from_name \<le> 400 \<and> length text \<le> 30000 \<and> length body \<le> 250000"

lemma frame_good:
  assumes "length (f_op f) + length (f_id f) + length (f_name f) + length (f_from f) \<le> 4000"
    and "f_v f = 0" "f_lease f = 0" "f_error f = ''''" "f_delivery f = ''''" "length (f_text f) \<le> 90000" "length (f_body f) \<le> 250000"
  shows "good_frame f"
proof -
  have "length (marshal (with_version f)) \<le> 200 +
      6 * (length (f_op f) + length (f_id f) + length (f_name f) + length (f_from f)) +
      6 * length (f_text f) + 2 * length (f_body f)"
    using assms(2-5) quote_str_bound [of "f_op f"] quote_str_bound [of "f_id f"] quote_str_bound [of "f_name f"]
      quote_str_bound [of "f_from f"] quote_str_bound [of "f_text f"] b64_enc_bound [of "f_body f"]
    by (simp add: with_version_def Version_def marshal_def json_object_def frame_fields_def str_field_def
        dec_int_def [of 1] dec_string.simps [of "Suc 0"] split del: if_split)
       (auto split: if_splits)
  then have "length (marshal (with_version f)) \<le> MaxBody" using assms(1,6,7) by (simp add: MaxBody_def)
  then show ?thesis using assms(2,3) by (simp add: good_frame_def write_frame_def Let_def int64_def)
qed

subsection \<open>From end to end\<close>

text \<open>What a body or a text becomes on the other side.\<close>

definition content :: "string \<Rightarrow> bytes \<Rightarrow> bytes" where
  "content text body = (if body \<noteq> [] then body else to_valid text)"

definition sout :: "hub \<Rightarrow> nat \<Rightarrow> frame list" where
  "sout h x = (case sess h x of None \<Rightarrow> [] | Some s \<Rightarrow> s_out s)"

text \<open>Two open sessions with short names; a client between two calls; a moment at which the hub can
  lease a job to a session.\<close>

definition peers :: "nat \<Rightarrow> nat \<Rightarrow> hub \<Rightarrow> bool" where
  "peers a z h \<longleftrightarrow> a \<noteq> z \<and> live_at a h \<and> live_at z h \<and>
     (\<forall>x\<in>{a, z}. \<forall>s. sess h x = Some s \<longrightarrow> length (s_name s) \<le> 400)"

definition idle_client :: "cenv \<Rightarrow> client \<Rightarrow> bool" where
  "idle_client v c \<longleftrightarrow> \<not> c_desync c \<and> c_rest c = [] \<and> (\<forall>f. v_write v f = (True, True))"

definition can_lease :: "env \<Rightarrow> nat \<Rightarrow> hub \<Rightarrow> bool" where
  "can_lease e z h \<longleftrightarrow> no_expiry (e_now e) (hbus h) \<and> open_conn e z \<and> e_io e \<and>
     inflight (hbus h) (e_nid e) = None \<and> e_nid e \<noteq> '''' \<and> length (e_nid e) \<le> 300 \<and>
     (\<forall>s. sess h z = Some s \<longrightarrow> e_nid e \<notin> set (s_inflight s)) \<and>
     int64 (unix_seconds (e_now e + lease_or_default (takeLease h)))"

lemma carried_fields: "f_op (carried f) = to_valid (f_op f)" "f_id (carried f) = to_valid (f_id f)"
  "f_name (carried f) = to_valid (f_name f)" "f_from (carried f) = to_valid (f_from f)" "f_body (carried f) = f_body f"
  "f_text (carried f) = to_valid (f_text f)"
  by (simp_all add: carried_def with_version_def)

lemma ops_valid: "to_valid OpReq = OpReq" "to_valid OpRep = OpRep"
  by (simp_all add: OpReq_def OpRep_def)

text \<open>The request is in the mailbox, and the worker can take it.\<close>

lemma request_waits:
  assumes i: "valid_utf8 i" "i \<noteq> ''''" "length i \<le> 100" and g: "fits name from_name text body"
    and t: "takes_job (to_valid name) (scopedID a i) (length (content text body)) (hbus h)" "e_io e1" "length (scopedID a i) \<le> 400"
    and h: "peers a z h" "can_lease e3 z h"
  obtains h1 m where "serve_bytes e1 a (wire_bytes (req_frame i name from_name text body)) h = Some (NoSpawn, h1)"
    and "sess h1 = sess (touch e1 a h)"
    and "pending h1 (scopedID a i) = Some \<lparr>p_sess = a, p_client = i, p_expires = e_now e1 + pendingTTL h\<rparr>"
    and "jobs (hbus h1) = add_mset m (jobs (hbus h))" and "m_body m = content text body" and "m_id m = scopedID a i"
    and "job_waiting e3 z (to_valid name) m h1" and "m_name m = to_valid name" and "waiters_of (hbus h1) (to_valid name) = []"
proof -
  let ?q = "req_frame i name from_name text body"
  have sz: "length name + length from_name \<le> 400" "length text \<le> 30000" "length body \<le> 250000"
    using g by (simp_all add: fits_def)
  have good: "good_frame ?q"
    by (rule frame_good) (use sz i(3) in \<open>simp_all add: req_frame_def no_frame_def OpReq_def\<close>)
  have f: "f_op (carried ?q) = OpReq" "f_id (carried ?q) = i" "f_name (carried ?q) = to_valid name"
    "payload (carried ?q) = content text body" "f_from (carried ?q) = to_valid from_name"
    using i(1) ops_valid(1) by (simp_all add: carried_fields req_frame_def payload_def content_def to_valid_id)
  have t': "takes_job (f_name (carried ?q)) (scopedID a (f_id (carried ?q))) (length (payload (carried ?q))) (hbus h)"
    using t(1) by (simp add: f)
  let ?m = "req_msg e1 a (carried ?q) h"
  have i': "f_id (carried ?q) \<noteq> ''''" using i(2) f(2) by simp
  obtain h1 where r: "run_frame e1 a (carried ?q) h = Some (NoSpawn, h1)" "sess h1 = sess (touch e1 a h)"
    "pending h1 (scopedID a i) = Some \<lparr>p_sess = a, p_client = i, p_expires = e_now e1 + pendingTTL h\<rparr>"
    "bus_ok (hbus h1)" "\<not> closed (hbus h1)" "q_of (hbus h1) (to_valid name) = [?m]"
    "inflight (hbus h1) = inflight (hbus h)" "jobs (hbus h1) = add_mset ?m (jobs (hbus h))" "takeLease h1 = takeLease h"
    "waiters_of (hbus h1) (to_valid name) = []"
    by (rule req_pends [OF f(1) i' t(2) t']) (simp add: f)
  have m: "m_body ?m = content text body" "m_id ?m = scopedID a i" "m_name ?m = to_valid name"
    "m_from ?m = s_from a (carried ?q) h" by (simp_all add: req_msg_def f)
  obtain sa sz' where ss: "sess h a = Some sa" "sess h z = Some sz'" "\<not> s_closed sz'" "a \<noteq> z"
    "length (s_name sa) \<le> 400"
    using h(1) by (auto simp: peers_def live_at_def split: option.splits)
  have mn: "length (m_name ?m) + length (m_from ?m) \<le> 1600"
    using ss(1,5) sz(1) to_valid_bound [of from_name] to_valid_bound [of name] f(5) m(3,4) by (simp add: s_from_def)
  have "length (m_body ?m) \<le> 250000"
    using m(1) sz to_valid_bound [of "text"] by (simp add: content_def)
  moreover have "sess h1 z = Some sz'" using r(2) ss by (simp add: touch_def upd_sess_def)
  ultimately have "job_waiting e3 z (to_valid name) ?m h1"
    using r t h(2) ss mn m(2,3) by (simp add: job_waiting_def can_lease_def takes_job_def no_expiry_def)
  moreover have "serve_bytes e1 a (wire_bytes ?q) h = Some (NoSpawn, h1)"
    using read_written [OF good, of "[]"] r(1) by (simp add: serve_bytes_def)
  ultimately show ?thesis using that [OF _ r(2,3,8) m(1,2) _ m(3) r(10)] by blast
qed

text \<open>The worker's side: \<open>Ready\<close> returns the job, and the hub then holds it for this worker.\<close>

lemma worker_gets:
  assumes n: "nextID u w = (iw, w1)" "length iw \<le> 100" and w: "idle_client u w" "fits name (c_name w) [] []"
    and j: "job_waiting e3 z (to_valid name) m h1" and s: "sess h1 z = Some s" and k: "m_id m \<noteq> ''''"
  obtains h2 h3 out r d s' w2 where
    "serve_bytes e2 z (wire_bytes (call_frame OpReady iw name (c_name w))) h1 = Some (SpawnTake True, h2)"
    and "job_goroutine e3 z True (carried (call_frame OpReady iw name (c_name w))) h2 = Some (True, h3)"
    and "Ready u name (arrive (wire_bytes out) w) = (Inr r, w2)" and "idle_client u w2" and "c_name w2 = c_name w"
    and "payload r = m_body m" and "f_id r = to_valid (m_id m)"
    and "sess h3 z = Some s'" and "\<not> s_closed s'" and "s_out s' = s_out s @ [out]" and "s_repAck s' (m_id m) = Some (e_nid e3)"
    and "inflight (hbus h3) (e_nid e3) = Some d" and "d_msg d = m" and "bus_ok (hbus h3)" and "jobs (hbus h3) = jobs (hbus h1)"
    and "pending h3 = pending h1" and "\<And>x. x \<noteq> z \<Longrightarrow> sess h3 x = sess h1 x" and "s_name s' = s_name s"
    and "s_seen s' = e_now e2"
proof -
  have c: "\<not> c_desync w" "c_rest w = []" "\<And>f. u = u \<Longrightarrow> v_write u f = (True, True)" using w(1) by (simp_all add: idle_client_def)
  let ?q = "call_frame OpReady iw name (c_name w)"
  have g: "good_frame ?q"
    by (rule frame_good) (use w(2) n(2) in \<open>simp_all add: call_frame_def no_frame_def OpReady_def fits_def\<close>)
  have l: "length iw \<le> 300" using n(2) by simp
  obtain h2 h3 s' out d r where o:
    "serve_bytes e2 z (wire_bytes ?q) h1 = Some (SpawnTake (OpReady = OpReady), h2)"
    "job_goroutine e3 z (OpReady = OpReady) (carried ?q) h2 = Some (True, h3)"
    "sess h3 z = Some s'" "s_out s' = s_out s @ [out]" "\<not> s_closed s'" "bus_ok (hbus h3)"
    "\<And>l. checked l (roundTrip u (no_frame\<lparr>f_op := OpReady, f_name := name, f_from := c_name w\<rparr>) (arrive (wire_bytes out) w)) =
       (Inr r, w1\<lparr>c_wrote := c_wrote w @ [(?q, None)]\<rparr>)"
    "payload r = m_body m" "d_msg d = m"
    "if OpReady = OpReady then jobs (hbus h3) = jobs (hbus h1) \<and> inflight (hbus h3) (e_nid e3) = Some d \<and>
       f_delivery out = e_nid e3 \<and> e_nid e3 \<in> set (s_inflight s') \<and>
       (f_id out \<noteq> [] \<longrightarrow> s_repAck s' (f_id out) = Some (e_nid e3))
     else jobs (hbus h1) = add_mset m (jobs (hbus h3))"
    "r = carried out" "out = jobFrame (OpReady = OpReady) (carried ?q) m d"
    by (rule call_delivers [OF n(1) l c(1,2) c(3) [OF refl] g disjI2 [OF refl] j s, of e2]) blast
  have id: "f_id out = m_id m" using o(12) k by (simp add: jobFrame_id)
  have rd: "Ready u name (arrive (wire_bytes out) w) = (Inr r, w1\<lparr>c_wrote := c_wrote w @ [(?q, None)]\<rparr>)"
    using o(7) by (simp add: Ready_def arrive_def)
  have w2: "idle_client u (w1\<lparr>c_wrote := c_wrote w @ [(?q, None)]\<rparr>)" "c_name (w1\<lparr>c_wrote := c_wrote w @ [(?q, None)]\<rparr>) = c_name w"
    using n(1) w(1) by (auto simp: nextID_def Let_def idle_client_def)
  have h2: "h2 = touch e2 z h1" using o(1) serve_call [OF g disjI2 [OF refl], of e2 z h1] by simp
  have "only_at z h2 h3" by (rule only_at_goroutine [OF o(2)])
  then have "pending h3 = pending h1" "\<And>x. x \<noteq> z \<Longrightarrow> sess h3 x = sess h1 x" "s_name s' = s_name s" "s_seen s' = e_now e2"
    using o(3,5) s by (simp_all add: only_at_def live_at_def h2 touch_def)
  then show ?thesis using that [OF _ _ rd w2 o(8) _ o(3,5,4) _ _ o(9,6)] o(1,2,10,11) id k by (simp add: carried_fields)
qed

text \<open>The way back: the worker's \<open>Rep\<close> acknowledges the job and reaches the requester.\<close>

lemma reply_returns:
  assumes w: "idle_client u w" "fits name (c_name w) text body" and k: "to_valid k = k" "k \<noteq> ''''" "length k \<le> 400"
    and s: "sess h z = Some s" "\<not> s_closed s" and c: "sess h a = Some t" "\<not> s_closed t" and ne: "a \<noteq> z"
    and nm: "length (s_name s) \<le> 400" "length i \<le> 100" and p: "pending h k = Some \<lparr>p_sess = a, p_client = i, p_expires = x\<rparr>"
    and conn: "open_conn e z" "open_conn e a" and d: "s_repAck s k = Some y" "y \<noteq> ''''"
    and ok: "bus_ok (hbus h)" and l: "inflight (hbus h) y = Some dl"
  obtains h' s' t' out rep where "serve_bytes e z (wire_bytes (reply_frame k name (c_name w) text body)) h = Some (NoSpawn, h')"
    and "sess h' z = Some s'" and "s_out s' = s_out s @ [out]" and "sess h' a = Some t'" and "s_out t' = s_out t @ [rep]"
    and "fst (Rep u k name text body (arrive (wire_bytes out) w)) = None"
    and "good_frame rep" and "f_op rep = OpRep" and "payload (carried rep) = content text body"
    and "pending h' k = None" and "jobs (hbus h) = add_mset (d_msg dl) (jobs (hbus h'))"
proof -
  let ?q = "reply_frame k name (c_name w) text body" and ?p = "\<lparr>p_sess = a, p_client = i, p_expires = x\<rparr>"
  have sz: "length name + length (c_name w) \<le> 400" "length text \<le> 30000" "length body \<le> 250000"
    using w(2) by (simp_all add: fits_def)
  have good: "good_frame ?q"
    by (rule frame_good) (use sz k(3) in \<open>simp_all add: reply_frame_def no_frame_def OpRep_def\<close>)
  have f: "f_op (carried ?q) = OpRep" "f_id (carried ?q) = k" "f_name (carried ?q) = to_valid name" "f_body (carried ?q) = body"
    "f_text (carried ?q) = to_valid text" "f_from (carried ?q) = to_valid (c_name w)"
    using k(1) by (simp_all add: carried_fields reply_frame_def ops_valid)
  let ?ok = "ok_frame (carried ?q)" and ?rep = "rep_frame ?p (s_from z (carried ?q) h) (carried ?q)"
  have g1: "good_frame ?ok"
    by (rule frame_good) (use k(3) f(2) in \<open>simp_all add: ok_frame_def no_frame_def OpOK_def\<close>)
  have from_bound: "length (s_from z (carried ?q) h) \<le> 1200"
    using s(1) nm(1) sz(1) to_valid_bound [of "c_name w"] f(6) by (simp add: s_from_def)
  have g2: "good_frame ?rep"
    by (rule frame_good)
      (use from_bound nm(2) sz f to_valid_bound [of name] to_valid_bound [of "text"] in
        \<open>simp_all add: rep_frame_def no_frame_def OpRep_def\<close>)
  obtain h' s' t' where r: "run_frame e z (carried ?q) h = Some (NoSpawn, h')" "sess h' z = Some s'"
    "s_out s' = s_out s @ [?ok]" "sess h' a = Some t'" "s_out t' = s_out t @ [?rep]" "pending h' k = None"
    "jobs (hbus h) = add_mset (d_msg dl) (jobs (hbus h'))"
    by (rule rep_answers [of h z s ?p t "carried ?q" e y dl]) (use assms f g1 g2 in simp_all)
  have sv: "serve_bytes e z (wire_bytes ?q) h = Some (NoSpawn, h')"
    using read_written [OF good, of "[]"] r(1) by (simp add: serve_bytes_def)
  have rt: "fst (Rep u k name text body (arrive (wire_bytes ?ok) w)) = None"
    by (rule rep_returns [OF _ _ k(2) _ good g1]) (use w(1) in \<open>simp_all add: idle_client_def ok_frame_def\<close>)
  have pl: "payload (carried ?rep) = content text body"
  proof -
    have "f_body ?rep = body" "f_text ?rep = to_valid text" using f by (simp_all add: rep_frame_def)
    note rf = this
    show ?thesis unfolding payload_def carried_fields rf by (simp add: content_def to_valid_id [OF valid_to_valid])
  qed
  show ?thesis
    by (rule that [OF sv r(2-5) rt g2 _ pl r(6,7)]) (simp add: rep_frame_def)
qed

text \<open>C22 (a request and its reply, end to end). A client requests a service whose mailbox is empty, on
  one session of the hub, and a worker is ready for it on another. The worker's \<open>Ready\<close> returns the
  body of the request byte for byte; its \<open>Rep\<close> under the id of the frame it got returns nil; the
  hub writes one frame for each step to each side and routes the answer to the client that asked;
  \<open>Request\<close> returns it on its first attempt, with the worker's body; and no job and no pending
  slot is left behind.\<close>

theorem request_end_to_end:
  assumes i: "nextID v c = (i, c1)" "valid_utf8 i" "length i \<le> 100" and c: "idle_client v c" "fits name (c_name c) text body"
    and iw: "nextID u w = (iw, w1)" "length iw \<le> 100" and w: "idle_client u w" "fits name (c_name w) [] []"
    and ans: "fits name2 (c_name w) text2 body2"
    and t: "takes_job (to_valid name) (scopedID a i) (length (content text body)) (hbus h)" "e_io e1" "length (scopedID a i) \<le> 400"
    and h: "peers a z h" "can_lease e3 z h" "open_conn e4 a" "open_conn e4 z"
  shows "\<exists>h1 h2 h3 h4 out r w2 fin rep ans.
    serve_bytes e1 a (wire_bytes (req_frame i name (c_name c) text body)) h = Some (NoSpawn, h1) \<and>
    serve_bytes e2 z (wire_bytes (call_frame OpReady iw name (c_name w))) h1 = Some (SpawnTake True, h2) \<and>
    job_goroutine e3 z True (carried (call_frame OpReady iw name (c_name w))) h2 = Some (True, h3) \<and>
    Ready u name (arrive (wire_bytes out) w) = (Inr r, w2) \<and> payload r = content text body \<and>
    serve_bytes e4 z (wire_bytes (reply_frame (f_id r) name2 (c_name w2) text2 body2)) h3 = Some (NoSpawn, h4) \<and>
    fst (Rep u (f_id r) name2 text2 body2 (arrive (wire_bytes fin) w2)) = None \<and>
    sout h4 z = sout h z @ [out, fin] \<and> sout h4 a = sout h a @ [rep] \<and>
    fst (Request v (\<lambda>k. wire_bytes rep) name text body attempts c) = Inr ans \<and> payload ans = content text2 body2 \<and>
    pending h4 (scopedID a i) = None \<and> jobs (hbus h4) = jobs (hbus h)"
proof -
  have i0: "i \<noteq> ''''" using nextID_dash [of v c] i(1) by auto
  have k: "scopedID a i \<noteq> ''''" "to_valid (scopedID a i) = scopedID a i"
    using i0 valid_scoped [OF i(2)] by (simp_all add: scopedID_def)
  obtain sa sz where ss: "sess h a = Some sa" "\<not> s_closed sa" "sess h z = Some sz" "\<not> s_closed sz" "a \<noteq> z" "length (s_name sz) \<le> 400"
    using h(1) by (auto simp: peers_def live_at_def split: option.splits)
  obtain h1 m where q: "serve_bytes e1 a (wire_bytes (req_frame i name (c_name c) text body)) h = Some (NoSpawn, h1)"
    "sess h1 = sess (touch e1 a h)"
    "pending h1 (scopedID a i) = Some \<lparr>p_sess = a, p_client = i, p_expires = e_now e1 + pendingTTL h\<rparr>"
    "jobs (hbus h1) = add_mset m (jobs (hbus h))" "m_body m = content text body" "m_id m = scopedID a i"
    "job_waiting e3 z (to_valid name) m h1"
    by (rule request_waits [OF i(2) i0 i(3) c(2) t h(1,2)]) blast
  have s1: "sess h1 z = Some sz" "sess h1 a = Some (sa\<lparr>s_seen := e_now e1\<rparr>)"
    using q(2) ss by (simp_all add: touch_def upd_sess_def)
  have mk: "m_id m \<noteq> ''''" using q(6) k(1) by simp
  obtain h2 h3 out r d s' w2 where g:
    "serve_bytes e2 z (wire_bytes (call_frame OpReady iw name (c_name w))) h1 = Some (SpawnTake True, h2)"
    "job_goroutine e3 z True (carried (call_frame OpReady iw name (c_name w))) h2 = Some (True, h3)"
    "Ready u name (arrive (wire_bytes out) w) = (Inr r, w2)" "idle_client u w2" "c_name w2 = c_name w"
    "payload r = m_body m" "f_id r = to_valid (m_id m)" "sess h3 z = Some s'" "\<not> s_closed s'" "s_out s' = s_out sz @ [out]"
    "s_repAck s' (m_id m) = Some (e_nid e3)" "inflight (hbus h3) (e_nid e3) = Some d" "d_msg d = m" "bus_ok (hbus h3)"
    "jobs (hbus h3) = jobs (hbus h1)" "pending h3 = pending h1" "\<And>x. x \<noteq> z \<Longrightarrow> sess h3 x = sess h1 x" "s_name s' = s_name sz"
    by (rule worker_gets [OF iw w q(7) s1(1) mk]) blast
  have id: "f_id r = scopedID a i" using g(7) q(6) k(2) by simp
  have hs: "sess h3 a = Some (sa\<lparr>s_seen := e_now e1\<rparr>)" "\<not> s_closed (sa\<lparr>s_seen := e_now e1\<rparr>)"
    "pending h3 (scopedID a i) = Some \<lparr>p_sess = a, p_client = i, p_expires = e_now e1 + pendingTTL h\<rparr>"
    "s_repAck s' (scopedID a i) = Some (e_nid e3)" "e_nid e3 \<noteq> ''''" "length (s_name s') \<le> 400"
    using g(11,16,17,18) q(3,6) s1(2) ss h(2) by (simp_all add: can_lease_def)
  have w2: "fits name2 (c_name w2) text2 body2" using ans g(5) by simp
  obtain h4 s4 t4 ok rep where r: "serve_bytes e4 z (wire_bytes (reply_frame (scopedID a i) name2 (c_name w2) text2 body2)) h3 = Some (NoSpawn, h4)"
    "sess h4 z = Some s4" "s_out s4 = s_out s' @ [ok]" "sess h4 a = Some t4" "s_out t4 = s_out (sa\<lparr>s_seen := e_now e1\<rparr>) @ [rep]"
    "fst (Rep u (scopedID a i) name2 text2 body2 (arrive (wire_bytes ok) w2)) = None"
    "good_frame rep" "f_op rep = OpRep" "payload (carried rep) = content text2 body2" "pending h4 (scopedID a i) = None"
    "jobs (hbus h3) = add_mset (d_msg d) (jobs (hbus h4))"
    by (rule reply_returns [OF g(4) w2 k(2,1) t(3) g(8,9) hs(1,2) ss(5) hs(6) i(3) hs(3) h(4,3) hs(4,5) g(14,12)])
  have good: "good_frame (req_frame i name (c_name c) text body)"
    by (rule frame_good) (use c(2) i(3) in \<open>simp_all add: req_frame_def no_frame_def OpReq_def fits_def\<close>)
  have rq: "fst (Request v (\<lambda>k. wire_bytes rep) name text body attempts c) = Inr (carried rep)"
    by (rule request_returns [OF i(1) i0 _ _ _ good r(7,8)]) (use c(1) in \<open>simp_all add: idle_client_def\<close>)
  have so: "sout h4 z = sout h z @ [out, ok]" "sout h4 a = sout h a @ [rep]"
    using r(2-5) g(10) ss by (simp_all add: sout_def)
  have jb: "jobs (hbus h4) = jobs (hbus h)" using r(11) g(13,15) q(4) by simp
  show ?thesis
    by (intro exI conjI) (fact q(1) g(1-3) r(6) [folded id] so rq r(9,10) jb | simp add: g(6) q(5) id r(1))+
qed

text \<open>A client and a worker on a hub, with a request of two bytes.\<close>

definition hub_w :: hub where
  "hub_w = snd (newSession env0 ''worker'' hub0)"

lemma hub_w_fields: "hbus hub_w = bus_a" "pending hub_w = Map.empty"
  "sess hub_w 1 = Some \<lparr>s_name = ''peer'', s_closed = False, s_unsub = [], s_inflight = [], s_repAck = Map.empty, s_seen = 5, s_out = []\<rparr>"
  "sess hub_w 2 = Some \<lparr>s_name = ''worker'', s_closed = False, s_unsub = [], s_inflight = [], s_repAck = Map.empty, s_seen = 5, s_out = []\<rparr>"
  "takeLease hub_w = takeLease hub0"
  by (simp_all add: hub_w_def newSession_def Let_def env0_def takeLease_def)

lemma hub_w_ready: "peers 1 2 hub_w" "can_lease env1 2 hub_w" "open_conn env1 x"
  "takes_job (to_valid ''svc'') (scopedID 1 id0) (length (content ''hi'' [])) (hbus hub_w)"
proof -
  have "takeLease hub0 = ns_minute" by (simp add: takeLease_def ns_minute_def ns_second_def wrap64_def)
  then show "can_lease env1 2 hub_w"
    by (simp add: can_lease_def hub_w_fields env1_def env0_def no_expiry_def open_conn_def lease_or_default_def ns_minute_def
        ns_second_def unix_seconds_def int64_def)
  show "peers 1 2 hub_w" by (simp add: peers_def live_at_def hub_w_fields del: One_nat_def)
  show "open_conn env1 x" by (simp add: open_conn_def env1_def)
  show "takes_job (to_valid ''svc'') (scopedID 1 id0) (length (content ''hi'' [])) (hbus hub_w)"
    by (simp add: takes_job_def hub_w_fields bus_a_ok content_def indexedLocked_def indexAddLocked_def dedupKey_def)
      (simp add: job_a_def)
qed

theorem request_end_to_end_witness:
  "\<exists>h1 h2 h3 h4 out r w2 rep ans.
     serve_bytes env1 1 (wire_bytes (req_frame id0 ''svc'' '''' ''hi'' [])) hub_w = Some (NoSpawn, h1) \<and>
     serve_bytes env1 2 (wire_bytes (call_frame OpReady id0 ''svc'' '''')) h1 = Some (SpawnTake True, h2) \<and>
     job_goroutine env1 2 True (carried (call_frame OpReady id0 ''svc'' '''')) h2 = Some (True, h3) \<and>
     Ready cenv0 ''svc'' (arrive (wire_bytes out) new_client) = (Inr r, w2) \<and> payload r = ''hi'' \<and>
     serve_bytes env1 2 (wire_bytes (reply_frame (f_id r) ''svc'' (c_name w2) ''yes'' [])) h3 = Some (NoSpawn, h4) \<and>
     sout h4 1 = [rep] \<and> fst (Request cenv0 (\<lambda>k. wire_bytes rep) ''svc'' ''hi'' [] 3 new_client) = Inr ans \<and>
     payload ans = ''yes'' \<and> jobs (hbus h4) = {#job_a#}"
proof -
  have n: "c_name new_client = ''''" "e_io env1" by (simp_all add: new_client_def env1_def env0_def)
  obtain c1 where i: "nextID cenv0 new_client = (id0, c1)" using client0(1) by blast
  have v: "valid_utf8 id0" "length id0 \<le> 100" "length (scopedID 1 id0) \<le> 400"
    by (simp_all add: id0_def scopedID_def dec_string.simps [of "Suc 0"])
  have c: "idle_client cenv0 new_client" using client0(3-5) by (simp add: idle_client_def)
  have f: "fits ''svc'' (c_name new_client) ''hi'' []" "fits ''svc'' (c_name new_client) [] []" "fits ''svc'' (c_name new_client) ''yes'' []"
    by (simp_all add: fits_def n)
  have b: "content ''hi'' [] = ''hi''" "content ''yes'' [] = ''yes''" "jobs (hbus hub_w) = {#job_a#}"
    by (simp_all add: hub_w_fields content_def jobs_def held_bus_a transit_def)
  have o: "sout hub_w 1 = []" by (simp add: sout_def hub_w_fields del: One_nat_def)
  from request_end_to_end [OF i v(1,2) c f(1) i v(2) c f(2,3) hub_w_ready(4) n(2) v(3) hub_w_ready(1,2) hub_w_ready(3) hub_w_ready(3), of env1 3]
  show ?thesis unfolding n b o append_Nil by (elim exE conjE) (intro exI conjI; assumption)
qed

end
