(* ===== verification/Shutdown.thy ===== *)
theory Shutdown
  imports Hub_Props Store_Props
begin

text \<open>
  What \<open>Hub.Close\<close> leaves on disk.  It closes the bus, which empties the queues in memory but
  writes nothing, and then closes the sessions, whose deliveries go back with \<open>Nack\<close>, which
  writes the file.
\<close>

text \<open>The file says what the bus holds.\<close>

definition in_sync :: "bus \<Rightarrow> bool" where
  "in_sync b \<longleftrightarrow> disk b = Some (snap_of b)"

text \<open>An open session has a delivery in flight that is still leased.\<close>

definition holds_lease :: "hub \<Rightarrow> nat \<Rightarrow> bool" where
  "holds_lease h sid \<longleftrightarrow>
     (\<exists>s. sess h sid = Some s \<and> \<not> s_closed s \<and> (\<exists>i\<in>set (s_inflight s). inflight (hbus h) i \<noteq> None))"

text \<open>The parts of the bus that the file shows.\<close>

definition same_store :: "bus \<Rightarrow> bus \<Rightarrow> bool" where
  "same_store b b' \<longleftrightarrow> boxes b' = boxes b \<and> inflight b' = inflight b \<and> disk b' = disk b \<and> path b' = path b"

lemma same_store_sync: "same_store b b' \<Longrightarrow> in_sync b' = in_sync b"
  by (simp add: same_store_def in_sync_def snap_of_def)

lemma same_store_refl [simp]: "same_store b b"
  by (simp add: same_store_def)

lemma same_store_trans: "same_store a b \<Longrightarrow> same_store b c \<Longrightarrow> same_store a c"
  by (simp add: same_store_def)

lemma same_store_durable: "same_store b b' \<Longrightarrow> durable b' = durable b"
  by (simp add: same_store_def durable_def)

lemma unsub_store: "unsub ch b = Some b' \<Longrightarrow> same_store b b'"
  by (auto simp: unsub_def same_store_def bind_eq_Some_conv)

lemma unsub_all_store: "unsub_all chs b = Some b' \<Longrightarrow> same_store b b'"
  by (induction chs arbitrary: b) (auto simp: bind_eq_Some_conv dest!: unsub_store intro: same_store_trans)

lemma moves_durable: "moves b i u b' \<Longrightarrow> durable b' = durable b"
  by (simp add: moves_def same_frame_def durable_def)

lemma nack_unknown: "nack io i b = Some (r, b') \<Longrightarrow> inflight b i = None \<Longrightarrow> b' = b"
  by (simp add: nack_def)

lemma nack_sync:
  assumes inv: "bus_inv b" and dur: "durable b" and d: "inflight b i = Some d" and n: "nack True i b = Some (r, b')"
  shows "in_sync b'"
proof -
  obtain b1 where b1: "deliverLocked (d_msg d) (drop_lease i d b) = Some b1" and mv: "moves b {#} {#} b1"
    by (rule redeliver_moves [OF inv d]) blast
  then have p: "persistLocked True b1 = (r, b')" using n d by (simp add: nack_def)
  then have "r = None" using persist_io [of b1] by simp
  moreover have "path b1 \<noteq> []" using moves_durable [OF mv] dur by (simp add: durable_def)
  ultimately show ?thesis unfolding in_sync_def using persist_durable p by blast
qed

text \<open>Giving back a list of deliveries writes the file when one of them is leased, and does nothing
  otherwise.\<close>

lemma nack_all_store:
  assumes "bus_ok b" and "durable b" and "nack_all io is b = Some b'" and "\<And>i. io i"
  shows "(if \<exists>i\<in>set is. inflight b i \<noteq> None then in_sync b' else b' = b) \<and>
    (in_sync b \<longrightarrow> in_sync b') \<and> durable b'"
  using assms(1-3)
proof (induction "is" arbitrary: b)
  case (Cons i js)
  have "io i" by (rule assms(4))
  then obtain r b1 where n: "nack True i b = Some (r, b1)" "nack_all io js b1 = Some b'"
    using Cons.prems(3) by (cases "nack True i b") auto
  have inv: "bus_inv b" by (rule bus_okD(1) [OF Cons.prems(1)])
  have "bus_ok b1 \<and> durable b1 \<and> (if inflight b i \<noteq> None then in_sync b1 else b1 = b) \<and>
      (\<forall>j. inflight b1 j \<noteq> None \<longrightarrow> inflight b j \<noteq> None)"
  proof (cases "inflight b i")
    case None
    then show ?thesis using nack_unknown [OF n(1)] Cons.prems by simp
  next
    case (Some d)
    obtain r' b'' where m: "nack True i b = Some (r', b'')" "moves b {#} {#} b''" "inflight b'' = (inflight b)(i := None)"
      by (rule nack_moves [OF inv Some, of True])
    then have e: "b'' = b1" using n by simp
    note m2 = m(2,3) [unfolded e]
    have "in_sync b1" by (rule nack_sync [OF inv Cons.prems(2) Some n(1)])
    moreover have "bus_ok b1" by (rule moves_ok [OF m2(1) bus_okD(2) [OF Cons.prems(1)]])
    moreover have "durable b1" using moves_durable [OF m2(1)] Cons.prems(2) by simp
    ultimately show ?thesis using Some m2(2) by simp
  qed
  note b1 = this
  note mid = b1 [THEN conjunct2, THEN conjunct2, THEN conjunct1]
  have ne: "inflight b i \<noteq> None \<Longrightarrow> in_sync b1" using mid by simp
  have eq: "inflight b i = None \<Longrightarrow> b1 = b" using mid by simp
  note IH = Cons.IH [OF conjunct1 [OF b1] conjunct1 [OF conjunct2 [OF b1]] n(2)]
  show ?case
  proof (cases "inflight b i")
    case None
    then have e: "b1 = b" by (rule eq)
    show ?thesis using IH None unfolding e by simp
  next
    case (Some d)
    then show ?thesis using IH ne by simp
  qed
qed auto

text \<open>The same for the end of one session and of all of them.\<close>

lemma s_close_store:
  assumes ok: "bus_ok (hbus h)" and dur: "durable (hbus h)" and c: "s_close e sid h = Some h'" and io: "\<And>i. e_nack_io e i"
  shows "(if holds_lease h sid then in_sync (hbus h') else same_store (hbus h) (hbus h')) \<and>
    (in_sync (hbus h) \<longrightarrow> in_sync (hbus h')) \<and> durable (hbus h') \<and> bus_ok (hbus h')"
proof (cases "\<exists>s. sess h sid = Some s \<and> \<not> s_closed s")
  case False
  then have "h' = h" using c by (auto simp: s_close_def split: option.splits if_splits)
  then show ?thesis using False ok dur by (auto simp: holds_lease_def)
next
  case True
  then obtain s where s: "sess h sid = Some s" "\<not> s_closed s" by blast
  obtain b1 b2 where b: "unsub_all (s_unsub s) (hbus h) = Some b1" "nack_all (e_nack_io e) (s_inflight s) b1 = Some b2"
    "hbus h' = b2"
    using c s by (auto simp: s_close_def Let_def bind_eq_Some_conv clearPending_def)
  have ok1: "bus_ok b1" using unsub_all_spec [OF ok, of "s_unsub s"] b(1) by auto
  note st = unsub_all_store [OF b(1)]
  have inf: "inflight b1 = inflight (hbus h)" using st by (simp add: same_store_def)
  have "holds_lease h sid \<longleftrightarrow> (\<exists>i\<in>set (s_inflight s). inflight b1 i \<noteq> None)" using s inf by (simp add: holds_lease_def)
  moreover have "bus_ok b2" using nack_all_spec [OF ok1, of "e_nack_io e" "s_inflight s"] b(2) by auto
  ultimately show ?thesis
    using nack_all_store [OF ok1 _ b(2) io] st same_store_durable [OF st] same_store_sync [OF st] dur
    by (auto simp: b(3) split: if_splits)
qed

lemma s_close_shuts:
  assumes c: "s_close e sid h = Some h'" and s: "sess h' sid = Some s"
  shows "s_closed s"
  using assms
  by (auto simp: s_close_def Let_def bind_eq_Some_conv clearPending_def upd_sess_def split: option.splits if_splits)

lemma s_close_other:
  assumes c: "s_close e sid h = Some h'" and st: "same_store (hbus h) (hbus h')" and n: "\<not> holds_lease h sid"
  shows "holds_lease h' x \<longleftrightarrow> holds_lease h x"
proof -
  have inf: "inflight (hbus h') = inflight (hbus h)" using st by (simp add: same_store_def)
  have "sess h' x = sess h x" if "x \<noteq> sid"
    using c that by (auto simp: s_close_def Let_def bind_eq_Some_conv clearPending_def upd_sess_def split: option.splits if_splits)
  moreover have "\<not> holds_lease h' sid" using s_close_shuts [OF c] by (auto simp: holds_lease_def)
  ultimately show ?thesis using n inf by (cases "x = sid") (auto simp: holds_lease_def)
qed

lemma close_sessions_store:
  assumes "bus_ok (hbus h)" and "durable (hbus h)" and "close_sessions e ss h = Some h'" and "\<And>i. e_nack_io e i"
  shows "(if \<exists>sid\<in>set ss. holds_lease h sid then in_sync (hbus h') else same_store (hbus h) (hbus h')) \<and>
    (in_sync (hbus h) \<longrightarrow> in_sync (hbus h'))"
  using assms(1-3)
proof (induction ss arbitrary: h)
  case (Cons sid ss)
  obtain h1 where h1: "s_close e sid h = Some h1" "close_sessions e ss h1 = Some h'"
    using Cons.prems(3) by (auto simp: bind_eq_Some_conv)
  note c = s_close_store [OF Cons.prems(1,2) h1(1) assms(4)]
  have IH: "(if \<exists>sid\<in>set ss. holds_lease h1 sid then in_sync (hbus h') else same_store (hbus h1) (hbus h')) \<and>
      (in_sync (hbus h1) \<longrightarrow> in_sync (hbus h'))"
    by (rule Cons.IH) (use c h1 in auto)
  show ?case
  proof (cases "holds_lease h sid")
    case True
    then show ?thesis using c IH by simp
  next
    case False
    then have st: "same_store (hbus h) (hbus h1)" using c by simp
    show ?thesis using IH st s_close_other [OF h1(1) st False] same_store_sync [OF st] same_store_trans [OF st] False
      by (auto split: if_splits)
  qed
qed auto

lemma close_sessions_jobs:
  "bus_ok (hbus h) \<Longrightarrow> close_sessions e ss h = Some h' \<Longrightarrow> bus_ok (hbus h') \<and> jobs (hbus h') = jobs (hbus h)"
proof (induction ss arbitrary: h)
  case (Cons sid ss)
  obtain h1 where h1: "s_close e sid h = Some h1" "close_sessions e ss h1 = Some h'"
    using Cons.prems(2) by (auto simp: bind_eq_Some_conv)
  then have "bus_ok (hbus h1) \<and> jobs (hbus h1) = jobs (hbus h)"
    by (cases rule: s_close_ok [OF Cons.prems(1), of e sid]) simp
  then show ?case using Cons.IH [OF _ h1(2)] by simp
qed simp

lemma held_jobs: "held b \<subseteq># jobs b"
  by (simp add: jobs_def)

lemma closeBus_store:
  assumes "bus_inv b" and "pubsub_inv b" and "\<not> closed b" and "closeBus ord b = Some b1"
  shows "disk b1 = disk b" and "durable b1 = durable b"
  using closeBus_result [OF assms(1,2,3), of ord] assms(4) by (auto simp: durable_def)

text \<open>C20 (what a shutdown leaves on disk). When a durable hub is closed and no session holds a leased
  delivery, the file stays as it was. But as soon as one does, the file is rewritten from the bus
  whose queues \<open>Close\<close> has emptied: a restart from it finds at most the jobs that were leased or
  already handed to a \<open>Take\<close>, and every job that was waiting in a mailbox is lost.\<close>

theorem shutdown_store:
  assumes ok: "bus_ok (hbus h)" and live: "\<not> closed (hbus h)" and dur: "durable (hbus h)"
    and ord: "set bord = dom (boxes (hbus h))" and c: "hubClose e bord ss h = Some h'" and io: "\<And>i. e_nack_io e i"
  shows "if \<exists>sid\<in>set ss. holds_lease h sid
    then \<exists>st. disk (hbus h') = Some st \<and> snap_queued st + snap_leased st \<subseteq># leased (hbus h) + transit (hbus h) \<and>
        (\<forall>p mq mb qs is b. ranges st qs is \<longrightarrow>
        openPath p mq mb (Decoded st) qs is = Inr b \<longrightarrow> jobs b \<subseteq># leased (hbus h) + transit (hbus h))
    else disk (hbus h') = disk (hbus h)"
proof -
  note inv = bus_okD [OF ok]
  obtain b where b: "closeBus bord (hbus h) = Some b" "close_sessions e ss (h\<lparr>hbus := b, registered := {}\<rparr>) = Some h'"
    using c by (auto simp: hubClose_def bind_eq_Some_conv)
  let ?h = "h\<lparr>hbus := b, registered := {}\<rparr>"
  note cj = close_jobs [OF inv ord b(1) live] and cs = closeBus_store [OF inv live b(1)]
  have okb: "bus_ok (hbus ?h)"
    by (rule closeBus_ok [OF inv, of bord]) (use b(1) in \<open>simp add: bus_ok_def\<close>)
  have hl: "holds_lease ?h sid = holds_lease h sid" for sid using cj(3) by (simp add: holds_lease_def)
  note st = close_sessions_store [OF okb _ b(2) io] and jb = close_sessions_jobs [OF okb b(2)]
  have "leased b = leased (hbus h)" using cj(3) by (simp add: leased_def)
  then have jobs: "jobs (hbus h') = leased (hbus h) + transit (hbus h)"
    using jb cj(2,4) by (simp add: jobs_def held_def)
  show ?thesis
  proof (cases "\<exists>sid\<in>set ss. holds_lease h sid")
    case False
    then have "same_store (hbus ?h) (hbus h')" using st cs(2) dur hl by simp
    then have "disk (hbus h') = disk b" by (simp add: same_store_def)
    then show ?thesis using False cs(1) by simp
  next
    case True
    then have sy: "disk (hbus h') = Some (snap_of (hbus h'))" using st cs(2) dur hl by (simp add: in_sync_def)
    have fin: "finite (dom (boxes (hbus h')))" using jb bus_inv_fin(1) bus_okD(1) by blast
    have "snap_queued (snap_of (hbus h')) + snap_leased (snap_of (hbus h')) \<subseteq># jobs (hbus h')"
      using snap_of_sums [OF fin] held_jobs [of "hbus h'"] by (simp add: held_def)
    moreover have "jobs r \<subseteq># jobs (hbus h')"
      if "ranges (snap_of (hbus h')) qs is" and "openPath p mq mb (Decoded (snap_of (hbus h'))) qs is = Inr r" for p mq mb qs "is" r
      using that open_queued [OF that(1), of p mq mb] snap_of_sums [OF fin] held_jobs [of "hbus h'"]
      by (auto simp: openPath_def jobs_def held_def)
    ultimately show ?thesis using True sy jobs by auto
  qed
qed

definition hub_d :: hub where
  "hub_d = hub_l\<lparr>hbus := bus_d\<rparr>"

theorem shutdown_store_witness:
  "\<exists>h' st. hubClose env0 [''work''] [1] hub_d = Some h' \<and> queued (hbus hub_d) = {#job_a#} \<and>
     disk (hbus h') = Some st \<and> snap_queued st + snap_leased st \<subseteq># {#job_b#}"
proof -
  have ok: "bus_ok (hbus hub_d)" by (simp add: hub_d_def bus_ok_def bus_d_inv bus_d_pubsub)
  have f: "\<not> closed (hbus hub_d)" "durable (hbus hub_d)" "set [''work''] = dom (boxes (hbus hub_d))"
    by (simp_all add: hub_d_def durable_def)
  have hl: "\<exists>sid\<in>set [1]. holds_lease hub_d sid" by (simp add: holds_lease_def hub_d_def hub_l_def)
  have m: "leased bus_d + transit bus_d = {#job_b#}" "queued (hbus hub_d) = {#job_a#}"
    by (simp_all add: leased_def transit_def hub_d_def queued_def msum_insert bus_d_def bus_l_def)
  obtain b where b: "closeBus [''work''] (hbus hub_d) = Some b" "bus_ok b"
    by (rule closeBus_ok [OF bus_okD [OF ok], of "[''work'']"]) (simp add: bus_ok_def)
  obtain h' where "s_close env0 1 (hub_d\<lparr>hbus := b, registered := {}\<rparr>) = Some h'"
    by (rule s_close_ok [of "hub_d\<lparr>hbus := b, registered := {}\<rparr>" env0 1]) (simp_all add: b(2))
  then have c: "hubClose env0 [''work''] [1] hub_d = Some h'" using b(1) by (simp add: hubClose_def)
  from shutdown_store [OF ok f c] hl obtain st where
    "disk (hbus h') = Some st" "snap_queued st + snap_leased st \<subseteq># leased (hbus hub_d) + transit (hbus hub_d)"
    by auto
  then show ?thesis using c m by (simp add: hub_d_def)
qed

end
