(* ===== verification/Failover.thy ===== *)
theory Failover
  imports Request_Reply Shutdown
begin

text \<open>
  A worker that dies with a request in its hands: the hub gives the job back, a second worker gets
  it, and its answer still reaches the client that asked.
\<close>

subsection \<open>What a delivery with a lease leaves in the mailbox\<close>

lemma take_ready_box:
  assumes live: "\<not> closed b" and n: "n \<noteq> ''''" and q: "q_of b n = m # rest" and ne: "no_expiry now b"
    and t: "takeStart now od True n b = Some (Inr ch, b1)" and r: "takeRecv ch b1 = (Some x, b2)"
  shows "q_of b2 n = rest" and "waiters_of b2 n = waiters_of b n"
proof -
  let ?b0 = "index_del m (set_q n rest (boxLocked n b))"
  obtain ds where "persistLocked True ?b0 = (None, ?b0\<lparr>disk := ds\<rparr>)"
    using persist_io [of ?b0] persist_shape [of True ?b0] by (metis prod.collapse)
  then have "(ch, b1) = alloc_full m (?b0\<lparr>disk := ds\<rparr>)"
    using t live n q nothing_expired [OF ne, of od False]
    by (simp add: takeStart_def takeChan_def Let_def pop_front_def split: prod.splits)
  then have "q_of b1 n = rest" "waiters_of b1 n = waiters_of b n" by (simp_all add: alloc_full_def)
  moreover have "\<exists>st. b2 = b1\<lparr>tchan := st\<rparr> \<or> b2 = b1"
    using r by (auto simp: takeRecv_def split: prod.splits recv.splits)
  ultimately show "q_of b2 n = rest" "waiters_of b2 n = waiters_of b n" by auto
qed

lemma hold_box:
  assumes "hold now nid io m l b = (Inr d, b')"
  shows "q_of b' = q_of b" and "waiters_of b' = waiters_of b" and "inflight b' = (inflight b)(nid \<mapsto> d)"
    and "closed b' = closed b"
proof -
  let ?d = "\<lparr>d_id = nid, d_msg = m, d_expires = now + lease_or_default l\<rparr>"
  let ?b = "index_add m (b\<lparr>inflight := (inflight b)(nid \<mapsto> ?d)\<rparr>)"
  obtain ds where "snd (persistLocked io ?b) = ?b\<lparr>disk := ds\<rparr>" using persist_shape [of io ?b] by blast
  then have "d = ?d" "b' = ?b\<lparr>disk := ds\<rparr>"
    using assms by (auto simp: hold_def Let_def split: if_splits prod.splits option.splits)
  then show "q_of b' = q_of b" "waiters_of b' = waiters_of b" "inflight b' = (inflight b)(nid \<mapsto> d)" "closed b' = closed b"
    by (simp_all add: index_add_def)
qed

lemma takeLease_upd [simp]: "takeLease (h\<lparr>hbus := b\<rparr>) = takeLease h" "takeLease (upd_sess i g h) = takeLease h"
  "takeLease (h\<lparr>pending := p\<rparr>) = takeLease h" "takeLease (h\<lparr>registered := r\<rparr>) = takeLease h"
  by (simp_all add: takeLease_def upd_sess_def)

lemma config_track [simp]: "takeLease (jobTrack sid keep f m d h) = takeLease h"
  "heartbeat (jobTrack sid keep f m d h) = heartbeat h" "liveness (jobTrack sid keep f m d h) = liveness h"
  by (simp_all add: jobTrack_def trackInflight_def trackRepAck_def Let_def)

lemma takeJob_keeps:
  assumes t: "takeJob e sid True f m h = Some h'" and hd: "hold (e_now e) (e_nid e) (e_io e) m (takeLease h) (hbus h) = (Inr d, b)"
    and s: "sess h sid = Some s" "\<not> s_closed s" and s': "sess h' sid = Some s'" "\<not> s_closed s'"
  shows "hbus h' = b" and "s_inflight s' = s_inflight s @ [d_id d]" and "takeLease h' = takeLease h"
    and "heartbeat h' = heartbeat h" and "liveness h' = liveness h"
proof -
  let ?h1 = "h\<lparr>hbus := b\<rparr>" and ?out = "jobFrame True f m d"
  let ?h2 = "jobTrack sid True f m d ?h1"
  have s1: "sess ?h1 sid = Some s" using s by simp
  obtain ra where s2: "sess ?h2 = (sess ?h1)(sid \<mapsto> s\<lparr>s_inflight := s_inflight s @ [d_id d], s_repAck := ra\<rparr>)" "hbus ?h2 = b"
    using jobTrack_sess [OF s1, of True f m d] by auto
  have js: "jobSend e sid True f m d ?h2 = Some h'" using t hd by (simp add: takeJob_def jobHold_def)
  obtain r h3 where r: "reply e sid ?out ?h2 = Some (r, h3)" using js by (auto simp: jobSend_def bind_eq_Some_conv)
  have w: "e_write e sid ?out"
  proof (rule ccontr)
    assume nw: "\<not> e_write e sid ?out"
    then obtain y where y: "r = Some y" "s_close e sid ?h2 = Some h3"
      using r s2 s by (auto simp: reply_def bind_eq_Some_conv)
    obtain s3 where s3: "sess h3 sid = Some s3"
      using only_at_close [OF y(2)] s2 by (auto simp: only_at_def)
    have "s_closed s3" by (rule s_close_shuts [OF y(2) s3])
    then have "\<exists>s4. sess h' sid = Some s4 \<and> s_closed s4"
      using js r y(1) s3 by (auto simp: jobSend_def claimInflight_def dropRepAck_def upd_sess_def)
    then show False using s' by auto
  qed
  then have "r = None" "h3 = upd_sess sid (\<lambda>s. s\<lparr>s_out := s_out s @ [?out]\<rparr>) ?h2"
    using r s2 s by (auto simp: reply_def)
  moreover from this have "h' = h3" using js r by (simp add: jobSend_def)
  ultimately have h': "h' = upd_sess sid (\<lambda>s. s\<lparr>s_out := s_out s @ [?out]\<rparr>) ?h2" by simp
  show "hbus h' = b" "takeLease h' = takeLease h" "heartbeat h' = heartbeat h" "liveness h' = liveness h" using s2(2) by (simp_all add: h')
  show "s_inflight s' = s_inflight s @ [d_id d]" using s'(1) s2(1) by (auto simp: h' upd_sess_def)
qed

lemma lease_leaves:
  assumes w: "job_waiting e z (f_name f) m h" and s: "sess h z = Some s"
    and g: "job_goroutine e z True f h = Some (True, h')" and s': "sess h' z = Some s'" "\<not> s_closed s'"
    and d: "inflight (hbus h') (e_nid e) = Some d"
  shows "q_of (hbus h') (f_name f) = tl (q_of (hbus h) (f_name f))" and "waiters_of (hbus h') (f_name f) = waiters_of (hbus h) (f_name f)"
    and "inflight (hbus h') = (inflight (hbus h))(e_nid e \<mapsto> d)" and "s_inflight s' = s_inflight s @ [e_nid e]"
    and "takeLease h' = takeLease h" and "\<not> closed (hbus h')" and "heartbeat h' = heartbeat h" and "liveness h' = liveness h"
    and "d = \<lparr>d_id = e_nid e, d_msg = m, d_expires = e_now e + lease_or_default (takeLease h)\<rparr>"
proof -
  have w1: "bus_ok (hbus h)" "\<not> closed (hbus h)" "f_name f \<noteq> ''''" "m_name m \<noteq> []" "no_expiry (e_now e) (hbus h)"
    "q_of (hbus h) (f_name f) = m # tl (q_of (hbus h) (f_name f))" "e_io e"
    "inflight (hbus h) (e_nid e) = None" "\<not> s_closed s"
    using w s by (auto simp: job_waiting_def)
  obtain ch b1 b2 where t: "takeStart (e_now e) (e_ord e) True (f_name f) (hbus h) = Some (Inr ch, b1)"
    "takeRecv ch b1 = (Some (Inr m), b2)" "bus_ok b2" "\<not> closed b2" "jobs (hbus h) = add_mset m (jobs b2)"
    "inflight b2 = inflight (hbus h)"
    by (rule take_ready [OF w1(1,2,3,6,5)])
  note tb = take_ready_box [OF w1(2,3,6,5) t(1,2)]
  have j: "takeJob e z True f m (h\<lparr>hbus := b2\<rparr>) = Some h'"
    using g t(1,2) w1(7) by (simp add: job_goroutine_def bind_eq_Some_conv)
  have f2: "inflight b2 (e_nid e) = None" using t(6) w1(8) by simp
  let ?d = "\<lparr>d_id = e_nid e, d_msg = m, d_expires = e_now e + lease_or_default (takeLease h)\<rparr>"
  obtain b3 where h: "hold (e_now e) (e_nid e) True m (takeLease h) b2 = (Inr ?d, b3)"
  proof -
    let ?b = "index_add m (b2\<lparr>inflight := (inflight b2)(e_nid e \<mapsto> ?d)\<rparr>)"
    obtain ds where "persistLocked True ?b = (None, ?b\<lparr>disk := ds\<rparr>)"
      using persist_io [of ?b] persist_shape [of True ?b] by (metis prod.collapse)
    then show ?thesis using t(4) w1(4) that by (simp add: hold_def Let_def)
  qed
  have h': "hold (e_now e) (e_nid e) (e_io e) m (takeLease (h\<lparr>hbus := b2\<rparr>)) (hbus (h\<lparr>hbus := b2\<rparr>)) = (Inr ?d, b3)"
    using h w1(7) by simp
  have s2: "sess (h\<lparr>hbus := b2\<rparr>) z = Some s" using s by simp
  note k = takeJob_keeps [OF j h' s2 w1(9) s'] and hb = hold_box [OF h]
  show "q_of (hbus h') (f_name f) = tl (q_of (hbus h) (f_name f))" "waiters_of (hbus h') (f_name f) = waiters_of (hbus h) (f_name f)"
    "\<not> closed (hbus h')" "s_inflight s' = s_inflight s @ [e_nid e]"
    using k hb tb t(4) by simp_all
  show "takeLease h' = takeLease h" "heartbeat h' = heartbeat h" "liveness h' = liveness h" using k(3-5) by simp_all
  show dd: "d = ?d" using d k(1) hb(3) by simp
  then show "inflight (hbus h') = (inflight (hbus h))(e_nid e \<mapsto> d)" using k(1) hb(3) t(6) by simp
qed

subsection \<open>The end of the worker's session\<close>

lemma unsub_all_closed: "unsub_all chs b = Some b' \<Longrightarrow> closed b' = closed b"
proof (induction chs arbitrary: b)
  case (Cons c cs)
  then obtain b1 where "unsub c b = Some b1" "unsub_all cs b1 = Some b'" by (auto simp: bind_eq_Some_conv)
  moreover from this(1) have "closed b1 = closed b" by (auto simp: unsub_def bind_eq_Some_conv)
  ultimately show ?case using Cons.IH by simp
qed simp

lemma close_gives_back:
  assumes ok: "bus_ok (hbus h)" and live: "\<not> closed (hbus h)" and s: "sess h z = Some s" "\<not> s_closed s" "s_inflight s = [x]"
    and d: "inflight (hbus h) x = Some d" and w: "waiters_of (hbus h) (m_name (d_msg d)) = []"
  obtains h' where "s_close e z h = Some h'" and "bus_ok (hbus h')" and "\<not> closed (hbus h')"
    and "q_of (hbus h') (m_name (d_msg d)) = d_msg d # q_of (hbus h) (m_name (d_msg d))"
    and "inflight (hbus h') = (inflight (hbus h))(x := None)" and "jobs (hbus h') = jobs (hbus h)"
    and "sess h' z = Some (shut_sess s)" and "\<And>y. y \<noteq> z \<Longrightarrow> sess h' y = sess h y"
    and "\<And>k p. pending h k = Some p \<Longrightarrow> p_sess p \<noteq> z \<Longrightarrow> pending h' k = Some p" and "takeLease h' = takeLease h"
proof -
  obtain h1 where h1: "s_close e z h = Some h1" "bus_ok (hbus h1)" "jobs (hbus h1) = jobs (hbus h)"
    "inflight (hbus h1) = (\<lambda>j. if j \<in> set (s_inflight s) then None else inflight (hbus h) j)" "sess h1 = (sess h)(z \<mapsto> shut_sess s)"
    "pending h1 = (\<lambda>k. case pending h k of None \<Rightarrow> None | Some p \<Rightarrow> if p_sess p = z then None else Some p)"
    by (rule s_close_open [OF ok s(1,2), of e]) blast
  obtain b1 b2 where b: "unsub_all (s_unsub s) (hbus h) = Some b1" "nack_all (e_nack_io e) (s_inflight s) b1 = Some b2"
    "hbus h1 = b2" "takeLease h1 = takeLease h"
    using h1(1) s by (auto simp: s_close_def Let_def bind_eq_Some_conv clearPending_def)
  have st: "same_store (hbus h) b1" by (rule unsub_all_store [OF b(1)])
  have ok1: "bus_ok b1" and cl: "closed b1 = closed (hbus h)"
  proof -
    show "bus_ok b1" using unsub_all_spec [OF ok, of "s_unsub s"] b(1) by auto
    show "closed b1 = closed (hbus h)" by (rule unsub_all_closed [OF b(1)])
  qed
  note inv = bus_okD(1) [OF ok1]
  have q1: "q_of b1 = q_of (hbus h)" "waiters_of b1 = waiters_of (hbus h)" "inflight b1 = inflight (hbus h)"
    using st by (simp_all add: same_store_def q_of_def waiters_of_def box_of_def fun_eq_iff)
  let ?n = "m_name (d_msg d)"
  let ?b = "index_add (d_msg d) (set_q ?n (d_msg d # q_of b1 ?n) (boxLocked ?n (drop_lease x d b1)))"
  obtain r where n: "nack (e_nack_io e x) x b1 = Some (r, b2)"
    using b(2) s(3) by (cases "nack (e_nack_io e x) x b1") auto
  have q2: "q_of (drop_lease x d b1) = q_of b1" "waiters_of (drop_lease x d b1) = waiters_of b1" "closed (drop_lease x d b1) = closed b1"
    by (simp_all add: drop_lease_def index_del_def)
  have "nack (e_nack_io e x) x b1 = Some (persistLocked (e_nack_io e x) ?b)"
    using d w q1 q2 by (simp add: nack_def deliverLocked_def Let_def)
  then have "b2 = snd (persistLocked (e_nack_io e x) ?b)" using n by (metis option.inject snd_conv)
  then obtain ds where b2: "b2 = ?b\<lparr>disk := ds\<rparr>" using persist_shape [of "e_nack_io e x" ?b] by auto
  have q: "q_of b2 ?n = d_msg d # q_of (hbus h) ?n" using q1 by (simp add: b2)
  have c2: "closed b2 = closed b1" using q2(3) by (simp add: b2 index_add_def boxLocked_def split: option.split)
  show ?thesis
    by (rule that [OF h1(1,2)]) (use h1 b q c2 cl live s(3) in \<open>simp_all add: fun_eq_iff\<close>)
qed

subsection \<open>A second worker answers\<close>

lemma job_waiting_again:
  assumes w: "job_waiting e z n m h" and "bus_ok (hbus h')" "\<not> closed (hbus h')" "q_of (hbus h') n = q_of (hbus h) n"
    and "inflight (hbus h') = inflight (hbus h)" "sess h' z = sess h z" "takeLease h' = takeLease h"
  shows "job_waiting e z n m h'"
  using assms by (simp add: job_waiting_def no_expiry_def)

text \<open>C23 (a request outlives its worker). The worker that got a request dies - its session ends
  without an answer. The next worker that is ready for the service gets the same request, its
  \<open>Rep\<close> reaches the client that asked, whose \<open>Request\<close> returns the second worker's body on its
  first attempt, and no job is left over.\<close>

theorem request_survives_worker:
  assumes i: "nextID v c = (i, c1)" "valid_utf8 i" "length i \<le> 100" and c: "idle_client v c" "fits name (c_name c) text body"
    and iw: "nextID u w = (iw, w1)" "length iw \<le> 100" and w: "idle_client u w" "fits name (c_name w) [] []"
    and ix: "nextID t x = (ix, x1)" "length ix \<le> 100" and x: "idle_client t x" "fits name (c_name x) [] []"
    and ans: "fits name2 (c_name x) text2 body2"
    and tk: "takes_job (to_valid name) (scopedID a i) (length (content text body)) (hbus h)" "e_io e1" "length (scopedID a i) \<le> 400"
    and h: "peers a z h" "can_lease e3 z h" "peers a y h" "can_lease e6 y h" "y \<noteq> z"
    and s: "sess h z = Some s" "s_inflight s = []" and conn: "open_conn e7 a" "open_conn e7 y"
  shows "\<exists>h1 h2 h3 h4 h5 h6 h7 out r w2 out2 r2 x2 fin rep ans.
    serve_bytes e1 a (wire_bytes (req_frame i name (c_name c) text body)) h = Some (NoSpawn, h1) \<and>
    serve_bytes e2 z (wire_bytes (call_frame OpReady iw name (c_name w))) h1 = Some (SpawnTake True, h2) \<and>
    job_goroutine e3 z True (carried (call_frame OpReady iw name (c_name w))) h2 = Some (True, h3) \<and>
    Ready u name (arrive (wire_bytes out) w) = (Inr r, w2) \<and> payload r = content text body \<and>
    endSession e4 z h3 = Some h4 \<and>
    serve_bytes e5 y (wire_bytes (call_frame OpReady ix name (c_name x))) h4 = Some (SpawnTake True, h5) \<and>
    job_goroutine e6 y True (carried (call_frame OpReady ix name (c_name x))) h5 = Some (True, h6) \<and>
    Ready t name (arrive (wire_bytes out2) x) = (Inr r2, x2) \<and> payload r2 = content text body \<and> f_id r2 = f_id r \<and>
    serve_bytes e7 y (wire_bytes (reply_frame (f_id r2) name2 (c_name x2) text2 body2)) h6 = Some (NoSpawn, h7) \<and>
    fst (Rep t (f_id r2) name2 text2 body2 (arrive (wire_bytes fin) x2)) = None \<and> sout h7 a = sout h a @ [rep] \<and>
    fst (Request v (\<lambda>k. wire_bytes rep) name text body attempts c) = Inr ans \<and> payload ans = content text2 body2 \<and>
    pending h7 (scopedID a i) = None \<and> jobs (hbus h7) = jobs (hbus h)"
proof -
  let ?n = "to_valid name" and ?k = "scopedID a i"
  have i0: "i \<noteq> ''''" using nextID_dash [of v c] i(1) by auto
  have k: "?k \<noteq> ''''" "to_valid ?k = ?k" using i0 valid_scoped [OF i(2)] by (simp_all add: scopedID_def)
  obtain sa sy where ss: "sess h a = Some sa" "\<not> s_closed sa" "sess h y = Some sy" "\<not> s_closed sy" "a \<noteq> y" "a \<noteq> z"
    "length (s_name sy) \<le> 400" "\<not> s_closed s"
    using h(1,3) s(1) by (auto simp: peers_def live_at_def split: option.splits)
  obtain h1 m where q: "serve_bytes e1 a (wire_bytes (req_frame i name (c_name c) text body)) h = Some (NoSpawn, h1)"
    "sess h1 = sess (touch e1 a h)"
    "pending h1 ?k = Some \<lparr>p_sess = a, p_client = i, p_expires = e_now e1 + pendingTTL h\<rparr>"
    "jobs (hbus h1) = add_mset m (jobs (hbus h))" "m_body m = content text body" "m_id m = ?k"
    "job_waiting e3 z ?n m h1" "m_name m = ?n" "waiters_of (hbus h1) ?n = []"
    by (rule request_waits [OF i(2) i0 i(3) c(2) tk h(1,2)]) blast
  obtain h1' m' where q': "serve_bytes e1 a (wire_bytes (req_frame i name (c_name c) text body)) h = Some (NoSpawn, h1')"
    "job_waiting e6 y ?n m' h1'"
    by (rule request_waits [OF i(2) i0 i(3) c(2) tk h(3,4)]) blast
  have jw: "job_waiting e6 y ?n m h1" using q(1,7) q' by (auto simp: job_waiting_def)
  have s1: "sess h1 z = Some s" "sess h1 y = Some sy" "sess h1 a = Some (sa\<lparr>s_seen := e_now e1\<rparr>)"
    using q(2) ss s(1) by (simp_all add: touch_def upd_sess_def)
  have mk: "m_id m \<noteq> ''''" using q(6) k(1) by simp
  let ?cw = "call_frame OpReady iw name (c_name w)" and ?cx = "call_frame OpReady ix name (c_name x)"
  obtain h2 h3 out r d s' w2 where g: "serve_bytes e2 z (wire_bytes ?cw) h1 = Some (SpawnTake True, h2)"
    "job_goroutine e3 z True (carried ?cw) h2 = Some (True, h3)" "Ready u name (arrive (wire_bytes out) w) = (Inr r, w2)"
    "payload r = m_body m" "f_id r = to_valid (m_id m)" "sess h3 z = Some s'" "\<not> s_closed s'"
    "inflight (hbus h3) (e_nid e3) = Some d" "d_msg d = m" "bus_ok (hbus h3)" "jobs (hbus h3) = jobs (hbus h1)"
    "pending h3 = pending h1" "\<And>x. x \<noteq> z \<Longrightarrow> sess h3 x = sess h1 x"
    by (rule worker_gets [OF iw w q(7) s1(1) mk]) blast
  have gc: "good_frame ?cw"
    by (rule frame_good) (use w(2) iw(2) in \<open>simp_all add: call_frame_def no_frame_def OpReady_def fits_def\<close>)
  have h2: "h2 = touch e2 z h1" using g(1) serve_call [OF gc disjI2 [OF refl], of e2 z h1] by simp
  have n: "f_name (carried ?cw) = ?n" by (simp add: carried_fields call_frame_def)
  have jw2: "job_waiting e3 z (f_name (carried ?cw)) m h2" using job_waiting_touch [OF q(7)] by (simp add: h2 n)
  have s2: "sess h2 z = Some (s\<lparr>s_seen := e_now e2\<rparr>)" "hbus h2 = hbus h1" "takeLease h2 = takeLease h1"
    using s1(1) by (simp_all add: h2 touch_def)
  note le = lease_leaves [OF jw2 s2(1) g(2,6,7,8), unfolded n s2(2,3)]
  have if': "s_inflight s' = [e_nid e3]" using le(4) s(2) by simp
  have ww: "waiters_of (hbus h3) (m_name (d_msg d)) = []" using le(2) q(8,9) g(9) by simp
  obtain h0 where d0: "s_close e4 z h3 = Some h0" "bus_ok (hbus h0)" "\<not> closed (hbus h0)"
    "q_of (hbus h0) (m_name (d_msg d)) = d_msg d # q_of (hbus h3) (m_name (d_msg d))"
    "inflight (hbus h0) = (inflight (hbus h3))(e_nid e3 := None)" "jobs (hbus h0) = jobs (hbus h3)"
    "\<And>x. x \<noteq> z \<Longrightarrow> sess h0 x = sess h3 x"
    "\<And>k p. pending h3 k = Some p \<Longrightarrow> p_sess p \<noteq> z \<Longrightarrow> pending h0 k = Some p" "takeLease h0 = takeLease h3"
    by (rule close_gives_back [OF g(10) le(6) g(6,7) if' g(8) ww, of e4]) blast
  let ?h4 = "h0\<lparr>registered := registered h0 - {z}\<rparr>"
  obtain h4 where dd: "endSession e4 z h3 = Some h4" "bus_ok (hbus h4)" "\<not> closed (hbus h4)"
    "q_of (hbus h4) (m_name (d_msg d)) = d_msg d # q_of (hbus h3) (m_name (d_msg d))"
    "inflight (hbus h4) = (inflight (hbus h3))(e_nid e3 := None)" "jobs (hbus h4) = jobs (hbus h3)"
    "\<And>x. x \<noteq> z \<Longrightarrow> sess h4 x = sess h3 x"
    "\<And>k p. pending h3 k = Some p \<Longrightarrow> p_sess p \<noteq> z \<Longrightarrow> pending h4 k = Some p" "takeLease h4 = takeLease h3"
    using d0 that [of ?h4] by (simp add: endSession_def)
  have s4: "sess h4 y = Some sy" "sess h4 a = Some (sa\<lparr>s_seen := e_now e1\<rparr>)"
    using dd(7) g(13) s1 h(5) ss(6) by simp_all
  have hq: "m # tl (q_of (hbus h1) ?n) = q_of (hbus h1) ?n" "inflight (hbus h1) (e_nid e3) = None"
    using q(7) by (auto simp: job_waiting_def)
  have qq: "q_of (hbus h4) ?n = q_of (hbus h1) ?n" "inflight (hbus h4) = inflight (hbus h1)"
    using dd(4,5) le(1,3) g(9) q(8) hq by (simp_all add: fun_upd_idem)
  have jw4: "job_waiting e6 y ?n m h4"
    by (rule job_waiting_again [OF jw dd(2,3) qq]) (use s4 s1 dd(9) le(5) in simp_all)
  obtain h5 h6 out2 r2 d2 s6 x2 where g2: "serve_bytes e5 y (wire_bytes ?cx) h4 = Some (SpawnTake True, h5)"
    "job_goroutine e6 y True (carried ?cx) h5 = Some (True, h6)" "Ready t name (arrive (wire_bytes out2) x) = (Inr r2, x2)"
    "idle_client t x2" "c_name x2 = c_name x" "payload r2 = m_body m" "f_id r2 = to_valid (m_id m)"
    "sess h6 y = Some s6" "\<not> s_closed s6" "s_repAck s6 (m_id m) = Some (e_nid e6)" "inflight (hbus h6) (e_nid e6) = Some d2"
    "d_msg d2 = m" "bus_ok (hbus h6)" "jobs (hbus h6) = jobs (hbus h4)" "pending h6 = pending h4"
    "\<And>x. x \<noteq> y \<Longrightarrow> sess h6 x = sess h4 x" "s_name s6 = s_name sy"
    by (rule worker_gets [OF ix x jw4 s4(1) mk]) blast
  have id: "f_id r2 = ?k" "f_id r = ?k" using g(5) g2(7) q(6) k(2) by simp_all
  have hs: "sess h6 a = Some (sa\<lparr>s_seen := e_now e1\<rparr>)" "\<not> s_closed (sa\<lparr>s_seen := e_now e1\<rparr>)"
    "pending h6 ?k = Some \<lparr>p_sess = a, p_client = i, p_expires = e_now e1 + pendingTTL h\<rparr>"
    "s_repAck s6 ?k = Some (e_nid e6)" "e_nid e6 \<noteq> ''''" "length (s_name s6) \<le> 400"
    using g2(10,15,16,17) g(12) q(3,6) dd(8) s4(2) ss h(4) by (simp_all add: can_lease_def)
  have x2: "fits name2 (c_name x2) text2 body2" using ans g2(5) by simp
  obtain h7 s7 t7 ok rep where r: "serve_bytes e7 y (wire_bytes (reply_frame ?k name2 (c_name x2) text2 body2)) h6 = Some (NoSpawn, h7)"
    "sess h7 y = Some s7" "s_out s7 = s_out s6 @ [ok]" "sess h7 a = Some t7" "s_out t7 = s_out (sa\<lparr>s_seen := e_now e1\<rparr>) @ [rep]"
    "fst (Rep t ?k name2 text2 body2 (arrive (wire_bytes ok) x2)) = None"
    "good_frame rep" "f_op rep = OpRep" "payload (carried rep) = content text2 body2" "pending h7 ?k = None"
    "jobs (hbus h6) = add_mset (d_msg d2) (jobs (hbus h7))"
    by (rule reply_returns [OF g2(4) x2 k(2,1) tk(3) g2(8,9) hs(1,2) ss(5) hs(6) i(3) hs(3) conn(2,1) hs(4,5) g2(13,11)])
  have good: "good_frame (req_frame i name (c_name c) text body)"
    by (rule frame_good) (use c(2) i(3) in \<open>simp_all add: req_frame_def no_frame_def OpReq_def fits_def\<close>)
  have rq: "fst (Request v (\<lambda>k. wire_bytes rep) name text body attempts c) = Inr (carried rep)"
    by (rule request_returns [OF i(1) i0 _ _ _ good r(7,8)]) (use c(1) in \<open>simp_all add: idle_client_def\<close>)
  have so: "sout h7 a = sout h a @ [rep]" using r(4,5) ss by (simp add: sout_def)
  have jb: "jobs (hbus h7) = jobs (hbus h)" using r(11) g2(12,14) dd(6) g(11) q(4) by simp
  show ?thesis
    by (intro exI conjI) (fact q(1) g(1-3) dd(1) g2(1-3) r(6) [folded id(1)] so rq r(9,10) jb | simp add: g(4) g2(6) q(5) id r(1))+
qed

subsection \<open>A worker that is busy\<close>

text \<open>C0 (a busy worker loses its job). The client answers the hub's pings only while one of its calls
  reads the connection. A worker that works on a job it got by \<open>Ready\<close> for as long as the
  heartbeat's limit, without a call in between, has its session closed by the next beat and its
  delivery taken away before the lease has run out: the job is back at the head of the mailbox for
  the next worker, and nothing can be sent to this one any more.\<close>

theorem busy_worker_loses:
  assumes iw: "nextID u w = (iw, w1)" "length iw \<le> 100" and w: "idle_client u w" "fits name (c_name w) [] []"
    and j: "job_waiting e3 z (to_valid name) m h" "m_id m \<noteq> ''''" "m_name m = to_valid name" "waiters_of (hbus h) (to_valid name) = []"
    and s: "sess h z = Some s" "s_inflight s = []"
    and hb: "0 < heartbeat h" "0 < liveness h" "heartbeat h * liveness h < 2 ^ 63" "e_now e2 \<noteq> 0"
    and busy: "heartbeat h * liveness h \<le> e_now e4 - e_now e2" "e_now e4 < e_now e3 + takeLease h"
  shows "\<exists>h2 h3 h4 out r w2 d.
    serve_bytes e2 z (wire_bytes (call_frame OpReady iw name (c_name w))) h = Some (SpawnTake True, h2) \<and>
    job_goroutine e3 z True (carried (call_frame OpReady iw name (c_name w))) h2 = Some (True, h3) \<and>
    Ready u name (arrive (wire_bytes out) w) = (Inr r, w2) \<and> payload r = m_body m \<and>
    inflight (hbus h3) (e_nid e3) = Some d \<and> d_msg d = m \<and> e_now e4 < d_expires d \<and>
    beat e4 z h3 = Some (False, h4) \<and> inflight (hbus h4) (e_nid e3) = None \<and>
    q_of (hbus h4) (to_valid name) = q_of (hbus h) (to_valid name) \<and> hd (q_of (hbus h4) (to_valid name)) = m \<and>
    jobs (hbus h4) = jobs (hbus h) \<and> (\<forall>e f. reply e z f h4 = Some (Some (HBus ErrClosed), h4))"
proof -
  let ?n = "to_valid name" and ?cw = "call_frame OpReady iw name (c_name w)"
  obtain h2 h3 out r d s' w2 where g: "serve_bytes e2 z (wire_bytes ?cw) h = Some (SpawnTake True, h2)"
    "job_goroutine e3 z True (carried ?cw) h2 = Some (True, h3)" "Ready u name (arrive (wire_bytes out) w) = (Inr r, w2)"
    "payload r = m_body m" "sess h3 z = Some s'" "\<not> s_closed s'"
    "inflight (hbus h3) (e_nid e3) = Some d" "d_msg d = m" "bus_ok (hbus h3)" "jobs (hbus h3) = jobs (hbus h)" "s_seen s' = e_now e2"
    by (rule worker_gets [OF iw w j(1) s(1) j(2)]) blast
  have gc: "good_frame ?cw"
    by (rule frame_good) (use w(2) iw(2) in \<open>simp_all add: call_frame_def no_frame_def OpReady_def fits_def\<close>)
  have h2: "h2 = touch e2 z h" using g(1) serve_call [OF gc disjI2 [OF refl], of e2 z h] by simp
  have n: "f_name (carried ?cw) = ?n" by (simp add: carried_fields call_frame_def)
  have jw2: "job_waiting e3 z (f_name (carried ?cw)) m h2" using job_waiting_touch [OF j(1)] by (simp add: h2 n)
  have s2: "sess h2 z = Some (s\<lparr>s_seen := e_now e2\<rparr>)" "hbus h2 = hbus h" "takeLease h2 = takeLease h"
    "heartbeat h2 = heartbeat h" "liveness h2 = liveness h"
    using s(1) by (simp_all add: h2 touch_def)
  note le = lease_leaves [OF jw2 s2(1) g(2,5,6,7), unfolded n s2(2-5)]
  have if': "s_inflight s' = [e_nid e3]" using le(4) s(2) by simp
  have ww: "waiters_of (hbus h3) (m_name (d_msg d)) = []" using le(2) j(3,4) g(8) by simp
  obtain h4 where d0: "s_close e4 z h3 = Some h4"
    "q_of (hbus h4) (m_name (d_msg d)) = d_msg d # q_of (hbus h3) (m_name (d_msg d))"
    "inflight (hbus h4) = (inflight (hbus h3))(e_nid e3 := None)" "jobs (hbus h4) = jobs (hbus h3)" "sess h4 z = Some (shut_sess s')"
    by (rule close_gives_back [OF g(9) le(6) g(5,6) if' g(7) ww, of e4]) blast
  have dead: "wrap64 (heartbeat h * liveness h) = heartbeat h * liveness h"
  proof -
    have "0 < heartbeat h * liveness h" using hb by simp
    then show ?thesis using hb(3) wrap64_small [of "heartbeat h * liveness h"] by simp
  qed
  have b: "beat e4 z h3 = Some (False, h4)"
    using d0(1) g(5,6,11) le(7,8) hb busy(1) dead by (simp add: beat_def Let_def)
  have lease: "e_now e4 < d_expires d"
    using busy(2) le(9) by (auto simp: lease_or_default_def)
      (simp add: takeLease_def Let_def ns_minute_def ns_second_def split: if_splits)
  have hq: "m # tl (q_of (hbus h) ?n) = q_of (hbus h) ?n" using j(1) by (auto simp: job_waiting_def)
  then have q: "q_of (hbus h4) ?n = q_of (hbus h) ?n" using d0(2) le(1) g(8) j(3) by simp
  have q2: "hd (q_of (hbus h4) ?n) = m" unfolding q using j(1) by (simp add: job_waiting_def)
  have rp: "\<forall>e f. reply e z f h4 = Some (Some (HBus ErrClosed), h4)" using d0(5) by (simp add: reply_def shut_sess_def)
  have inf: "inflight (hbus h4) (e_nid e3) = None" using d0(3) by simp
  have jb: "jobs (hbus h4) = jobs (hbus h)" using d0(4) g(10) by simp
  show ?thesis by (intro exI conjI) (fact g(1-4) g(7,8) lease b inf q q2 jb rp)+
qed

text \<open>A client and two workers.\<close>

definition hub_v :: hub where
  "hub_v = snd (newSession env0 ''second'' hub_w)"

lemma hub_v_fields: "hbus hub_v = bus_a" "takeLease hub_v = takeLease hub0" "sess hub_v 1 = sess hub_w 1" "sess hub_v 2 = sess hub_w 2"
  "sess hub_v 3 = Some \<lparr>s_name = ''second'', s_closed = False, s_unsub = [], s_inflight = [], s_repAck = Map.empty, s_seen = 5, s_out = []\<rparr>"
  by (simp_all add: hub_v_def hub_w_def newSession_def Let_def env0_def takeLease_def)

lemma hub_v_ready: "peers 1 2 hub_v" "peers 1 3 hub_v" "can_lease env1 2 hub_v" "can_lease env1 3 hub_v"
  "takes_job (to_valid ''svc'') (scopedID 1 id0) (length (content ''hi'' [])) (hbus hub_v)"
proof -
  show "can_lease env1 2 hub_v"
    using hub_w_ready(2) by (simp add: can_lease_def hub_v_fields hub_w_fields(1,5))
  then show "can_lease env1 3 hub_v" by (simp add: can_lease_def hub_v_fields open_conn_def env1_def)
  show "peers 1 2 hub_v" "peers 1 3 hub_v"
    by (simp_all add: peers_def live_at_def hub_v_fields hub_w_fields del: One_nat_def)
  show "takes_job (to_valid ''svc'') (scopedID 1 id0) (length (content ''hi'' [])) (hbus hub_v)"
    using hub_w_ready(4) by (simp add: hub_v_fields hub_w_fields(1))
qed

theorem request_survives_worker_witness:
  "\<exists>h3 h4 h6 h7 r r2 x2 out out2 w2 rep ans h5.
     Ready cenv0 ''svc'' (arrive (wire_bytes out) new_client) = (Inr r, w2) \<and> payload r = ''hi'' \<and>
     endSession env1 2 h3 = Some h4 \<and> job_goroutine env1 3 True (carried (call_frame OpReady id0 ''svc'' '''')) h5 = Some (True, h6) \<and>
     Ready cenv0 ''svc'' (arrive (wire_bytes out2) new_client) = (Inr r2, x2) \<and> payload r2 = ''hi'' \<and> f_id r2 = f_id r \<and>
     sout h7 1 = [rep] \<and> fst (Request cenv0 (\<lambda>k. wire_bytes rep) ''svc'' ''hi'' [] 3 new_client) = Inr ans \<and>
     payload ans = ''yes'' \<and> jobs (hbus h7) = {#job_a#}"
proof -
  have n: "c_name new_client = ''''" "e_io env1" by (simp_all add: new_client_def env1_def env0_def)
  obtain c1 where i: "nextID cenv0 new_client = (id0, c1)" using client0(1) by blast
  have v: "valid_utf8 id0" "length id0 \<le> 100" "length (scopedID 1 id0) \<le> 400"
    by (simp_all add: id0_def scopedID_def dec_string.simps [of "Suc 0"])
  have c: "idle_client cenv0 new_client" using client0(3-5) by (simp add: idle_client_def)
  have f: "fits ''svc'' (c_name new_client) ''hi'' []" "fits ''svc'' (c_name new_client) [] []" "fits ''svc'' (c_name new_client) ''yes'' []"
    by (simp_all add: fits_def n)
  have b: "content ''hi'' [] = ''hi''" "content ''yes'' [] = ''yes''" "jobs (hbus hub_v) = {#job_a#}"
    by (simp_all add: hub_v_fields content_def jobs_def held_bus_a transit_def)
  have o: "sout hub_v 1 = []" by (simp add: sout_def hub_v_fields hub_w_fields del: One_nat_def)
  have s: "sess hub_v 2 = Some (the (sess hub_v 2))" "s_inflight (the (sess hub_v 2)) = []" "3 \<noteq> (2::nat)"
    by (simp_all add: hub_v_fields hub_w_fields)
  from request_survives_worker [OF i v(1,2) c f(1) i v(2) c f(2) i v(2) c f(2,3) hub_v_ready(5) n(2) v(3) hub_v_ready(1,3,2,4) s(3,1,2)
      hub_w_ready(3) hub_w_ready(3), of env1 env1 env1 3]
  show ?thesis unfolding n b o append_Nil by (elim exE conjE) (intro exI conjI; assumption)
qed

end
