(* ===== verification/Hub_Step.thy ===== *)
theory Hub_Step
  imports Hub_Inv Wire
begin

text \<open>
  The hub as interleaved goroutines.  A goroutine is the list of the critical sections it has
  still to make: one action is one section of a session's mutex, of the hub's or of the bus's, one
  call of \<open>Write\<close> on a connection, or one receive.  \<open>act_step\<close> makes the first action of a
  goroutine of session \<open>sid\<close> and gives what it has to do next; a blocked receive stays as it is,
  and \<open>None\<close> is a panic.
\<close>

datatype job_kind = KTake | KReady | KReserve

datatype act =
    ATouch | AHello frame
  | APut frame | APub frame
  | ASub frame | ASubTrack nat frame | AUnsub nat | AUnsubAll frame
  | AAckCall frame | ANackCall frame | ADropInflight string
  | AReqPend frame | AReqPut frame | AReqUndo frame
  | ARepTake frame | ARepDest frame | ARepSend frame pendingReq
  | ATake job_kind frame
  | ASelect job_kind frame nat  \<comment> \<open>in the \<open>select\<close> of \<open>Take\<close> on this channel\<close>
  | AHold job_kind frame msg    \<comment> \<open>\<open>Take\<close> has returned this message\<close>
  | ARequeue msg
  | ATrack string | ATrackRep string string | ADropRep string
  | AClaim string bool          \<comment> \<open>\<open>claimInflight\<close>, then \<open>Ack\<close> or \<open>Nack\<close>\<close>
  | AAck string | ANack string
  | APump nat | ABeat
  | AReply nat frame "act list" "act list"   \<comment> \<open>then these when it is written, those when not\<close>
  | AHeader nat frame "act list" "act list" | ABody nat frame "act list" "act list"
  | AClose nat | AClear nat | AUnreg nat
  | AHubClose | ASnap

text \<open>What \<open>run\<close> does when \<open>handle\<close> returns an error, and when that error is a failed reply.\<close>

definition complain :: "nat \<Rightarrow> frame \<Rightarrow> herr \<Rightarrow> act list" where
  "complain sid f x = [AReply sid (err_frame (f_id f) x) [] []]"

definition respond :: "nat \<Rightarrow> frame \<Rightarrow> frame \<Rightarrow> act list" where
  "respond sid f out = [AReply sid out [] (complain sid f HWrite)]"

text \<open>The frame of a job, the lease it is held with, and what follows \<open>Hold\<close> in \<open>takeJob\<close> and
  \<open>reserveJob\<close>.\<close>

definition job_out :: "job_kind \<Rightarrow> frame \<Rightarrow> delivery \<Rightarrow> frame" where
  "job_out k f d = (if k = KReserve then reserveFrame f d else jobFrame (k = KReady) f (d_msg d) d)"

definition job_lease :: "job_kind \<Rightarrow> frame \<Rightarrow> hub \<Rightarrow> int" where
  "job_lease k f h = (if k = KReserve then reserveLease f else takeLease h)"

definition job_acts :: "nat \<Rightarrow> job_kind \<Rightarrow> frame \<Rightarrow> delivery \<Rightarrow> act list" where
  "job_acts sid k f d =
     ATrack (d_id d) #
     (if k = KReady then [ATrackRep (f_id (job_out k f d)) (d_id d)] else []) @
     [AReply sid (job_out k f d)
        (if k = KTake then [AClaim (d_id d) True] else [])
        ((if k = KReserve then [] else [ADropRep (f_id (job_out k f d))]) @ [AClaim (d_id d) False])]"

definition is_open :: "nat \<Rightarrow> hub \<Rightarrow> bool" where
  "is_open sid h = (case sess h sid of None \<Rightarrow> False | Some s \<Rightarrow> \<not> s_closed s)"

definition client_msg_of :: "nat \<Rightarrow> string \<Rightarrow> frame \<Rightarrow> hub \<Rightarrow> msg" where
  "client_msg_of sid i f h = \<lparr>m_id = i, m_name = '''', m_from = s_from sid f h, m_body = payload f, m_at = 0\<rparr>"

type_synonym progress = "(act list \<times> hub) option"

fun act_step :: "env \<Rightarrow> nat \<Rightarrow> act \<Rightarrow> hub \<Rightarrow> progress" where
  "act_step e sid ATouch h = Some ([], touch e sid h)"
| "act_step e sid (AHello f) h =
     (let h1 = (if f_from f \<noteq> '''' then upd_sess sid (\<lambda>s. s\<lparr>s_name := f_from f\<rparr>) h else h) in
      Some (respond sid f ((ok_frame f)\<lparr>f_from := (case sess h1 sid of None \<Rightarrow> '''' | Some s \<Rightarrow> s_name s)\<rparr>), h1))"
| "act_step e sid (APut f) h = do {
     r \<leftarrow> put (e_now e) (e_nid e) (e_io e) (f_name f) (client_msg_of sid (scopedID sid (f_id f)) f h) (hbus h);
     Some (case fst r of Some x \<Rightarrow> complain sid f (HBus x) | None \<Rightarrow> respond sid f ((ok_frame f)\<lparr>f_name := f_name f\<rparr>),
       h\<lparr>hbus := snd r\<rparr>) }"
| "act_step e sid (APub f) h = do {
     r \<leftarrow> pub (e_now e) (e_victim e) (f_name f) (client_msg_of sid (f_id f) f h) (hbus h);
     Some (case fst r of Some x \<Rightarrow> complain sid f (HBus x) | None \<Rightarrow> respond sid f ((ok_frame f)\<lparr>f_name := f_name f\<rparr>),
       h\<lparr>hbus := snd r\<rparr>) }"
| "act_step e sid (ASub f) h = do {
     r \<leftarrow> sub (e_ord e) (f_name f) (hbus h);
     Some (case fst (fst r) of Some x \<Rightarrow> complain sid f (HBus x) | None \<Rightarrow> [ASubTrack (snd (fst r)) f],
       h\<lparr>hbus := snd r\<rparr>) }"
| "act_step e sid (ASubTrack ch f) h =
     Some ([AReply sid ((ok_frame f)\<lparr>f_name := f_name f\<rparr>) [APump ch] (AUnsub ch # complain sid f HWrite)],
       upd_sess sid (\<lambda>s. s\<lparr>s_unsub := s_unsub s @ [ch]\<rparr>) h)"
| "act_step e sid (AUnsub ch) h = do { b \<leftarrow> unsub ch (hbus h); Some ([], h\<lparr>hbus := b\<rparr>) }"
| "act_step e sid (AUnsubAll f) h =
     Some (map AUnsub (case sess h sid of None \<Rightarrow> [] | Some s \<Rightarrow> s_unsub s) @ respond sid f (ok_frame f),
       upd_sess sid (\<lambda>s. s\<lparr>s_unsub := []\<rparr>) h)"
| "act_step e sid (AAckCall f) h = (case ack (e_io e) (f_delivery f) (hbus h) of
     (Some x, b) \<Rightarrow> Some (complain sid f (HBus x), h\<lparr>hbus := b\<rparr>)
   | (None, b) \<Rightarrow> Some (ADropInflight (f_delivery f) # respond sid f (ok_frame f), h\<lparr>hbus := b\<rparr>))"
| "act_step e sid (ANackCall f) h = do {
     r \<leftarrow> nack (e_io e) (f_delivery f) (hbus h);
     Some (case fst r of Some x \<Rightarrow> complain sid f (HBus x)
         | None \<Rightarrow> ADropInflight (f_delivery f) # respond sid f (ok_frame f), h\<lparr>hbus := snd r\<rparr>) }"
| "act_step e sid (ADropInflight i) h = Some ([], dropInflight sid i h)"
| "act_step e sid (AReqPend f) h =
     (if f_id f = '''' then Some (complain sid f HMissingID, h)
      else let h1 = expirePendingLocked (e_now e) h in
        Some ([AReqPut f], h1\<lparr>pending := (pending h1)(scopedID sid (f_id f) \<mapsto>
          \<lparr>p_sess = sid, p_client = f_id f, p_expires = e_now e + pendingTTL h\<rparr>)\<rparr>))"
| "act_step e sid (AReqPut f) h = do {
     r \<leftarrow> put (e_now e) (e_nid e) (e_io e) (f_name f) (client_msg_of sid (scopedID sid (f_id f)) f h) (hbus h);
     Some (case fst r of Some x \<Rightarrow> AReqUndo f # complain sid f (HBus x) | None \<Rightarrow> [], h\<lparr>hbus := snd r\<rparr>) }"
| "act_step e sid (AReqUndo f) h =
     (let key = scopedID sid (f_id f) in
      Some ([], case pending h key of
          Some p \<Rightarrow> if p_sess p = sid then h\<lparr>pending := (pending h)(key := None)\<rparr> else h
        | None \<Rightarrow> h))"
| "act_step e sid (ARepTake f) h = (case takeRepAck sid (f_id f) h of (d, h1) \<Rightarrow>
     Some ((if d = '''' then [] else [AClaim d True]) @ [ARepDest f], h1))"
| "act_step e sid (ARepDest f) h =
     Some ([AReply sid (ok_frame f) (case pending h (f_id f) of None \<Rightarrow> [] | Some p \<Rightarrow> [ARepSend f p]) (complain sid f HWrite)],
       h\<lparr>pending := (pending h)(f_id f := None)\<rparr>)"
| "act_step e sid (ARepSend f p) h =
     Some ([AReply (p_sess p) (no_frame\<lparr>f_op := OpRep, f_id := p_client p, f_name := f_name f,
        f_from := s_from sid f h, f_body := f_body f, f_text := f_text f\<rparr>) [] []], h)"
| "act_step e sid (ATake k f) h = do {
     r \<leftarrow> takeStart (e_now e) (e_ord e) (e_io e) (f_name f) (hbus h);
     Some (case fst r of Inl x \<Rightarrow> complain sid f (HBus x) | Inr ch \<Rightarrow> [ASelect k f ch], h\<lparr>hbus := snd r\<rparr>) }"
| "act_step e sid (ASelect k f ch) h = (case takeRecv ch (hbus h) of
     (None, b) \<Rightarrow> Some ([ASelect k f ch], h\<lparr>hbus := b\<rparr>)
   | (Some (Inl x), b) \<Rightarrow> Some (complain sid f (HBus x), h\<lparr>hbus := b\<rparr>)
   | (Some (Inr m), b) \<Rightarrow> Some ([AHold k f m], h\<lparr>hbus := b\<rparr>))"
| "act_step e sid (AHold k f m) h = (case hold (e_now e) (e_nid e) (e_io e) m (job_lease k f h) (hbus h) of
     (Inr d, b) \<Rightarrow> Some (job_acts sid k f d, h\<lparr>hbus := b\<rparr>)
   | (Inl x, b) \<Rightarrow> Some (ARequeue m # complain sid f (HBus x), h\<lparr>hbus := b\<rparr>))"
| "act_step e sid (ARequeue m) h = do { r \<leftarrow> requeue (e_io e) m (hbus h); Some ([], h\<lparr>hbus := snd r\<rparr>) }"
| "act_step e sid (ATrack i) h = Some ([], trackInflight sid i h)"
| "act_step e sid (ATrackRep k i) h = Some ([], trackRepAck sid k i h)"
| "act_step e sid (ADropRep k) h = Some ([], dropRepAck sid k h)"
| "act_step e sid (AClaim i good) h = (case claimInflight sid i h of
     (True, h1) \<Rightarrow> Some ([if good then AAck i else ANack i], h1)
   | (False, h1) \<Rightarrow> Some ([], h1))"
| "act_step e sid (AAck i) h = Some ([], h\<lparr>hbus := snd (ack (e_io e) i (hbus h))\<rparr>)"
| "act_step e sid (ANack i) h = do { r \<leftarrow> nack (e_io e) i (hbus h); Some ([], h\<lparr>hbus := snd r\<rparr>) }"
| "act_step e sid (APump ch) h = (case ch_recv ch (schan (hbus h)) of
     (Got m, st) \<Rightarrow> Some ([AReply sid (msgFrame '''' m) [APump ch] []], h\<lparr>hbus := (hbus h)\<lparr>schan := st\<rparr>\<rparr>)
   | (Drained, st) \<Rightarrow> Some ([], h)
   | (Blocks, st) \<Rightarrow> Some ([APump ch], h))"
| "act_step e sid ABeat h =
     (let iv = heartbeat h;
          live = (if liveness h \<le> 0 then DefaultLiveness else liveness h);
          death = wrap64 (iv * live)
      in if iv \<le> 0 then Some ([], h)
         else case sess h sid of
           None \<Rightarrow> Some ([], h)
         | Some s \<Rightarrow>
             if s_closed s then Some ([], h)
             else let idle = (if s_seen s = 0 then 0 else e_now e - s_seen s) in
               if death \<le> idle then Some ([AClose sid], h)
               else if iv \<le> idle then Some ([AReply sid (no_frame\<lparr>f_op := OpPing\<rparr>) [ABeat] [AClose sid]], h)
               else Some ([ABeat], h))"
| "act_step e sid (AReply t f good bad) h = Some (if is_open t h then [AHeader t f good bad] else bad, h)"
| "act_step e sid (AHeader t f good bad) h =
     Some (if is_open t h \<and> e_write e t f then [ABody t f good bad] else AClose t # bad, h)"
| "act_step e sid (ABody t f good bad) h =
     (if is_open t h \<and> e_write e t f
      then Some (good, upd_sess t (\<lambda>s. s\<lparr>s_out := s_out s @ [f]\<rparr>) h)
      else Some (AClose t # bad, h))"
| "act_step e sid (AClose t) h = (case sess h t of
     None \<Rightarrow> Some ([], h)
   | Some s \<Rightarrow>
       if s_closed s then Some ([], h)
       else Some (map AUnsub (s_unsub s) @ map ANack (s_inflight s) @ [AClear t],
         upd_sess t (\<lambda>s. s\<lparr>s_closed := True, s_unsub := [], s_inflight := []\<rparr>) h))"
| "act_step e sid (AClear t) h = Some ([], clearPending t h)"
| "act_step e sid (AUnreg t) h = Some ([], h\<lparr>registered := registered h - {t}\<rparr>)"
| "act_step e sid AHubClose h = do { b \<leftarrow> closeBus (e_ord e) (hbus h); Some ([ASnap], h\<lparr>hbus := b\<rparr>) }"
| "act_step e sid ASnap h = Some (map AClose (sorted_list_of_set (registered h)), h\<lparr>registered := {}\<rparr>)"

text \<open>The dispatch of \<open>handle\<close>; an operation with a goroutine of its own continues as that one.\<close>

definition frame_acts :: "nat \<Rightarrow> frame \<Rightarrow> act list" where
  "frame_acts sid f = ATouch #
     (if f_op f = OpHello then [AHello f]
      else if f_op f = OpPing then respond sid f (no_frame\<lparr>f_op := OpPong, f_id := f_id f\<rparr>)
      else if f_op f = OpPong then []
      else if f_op f = OpPut then [APut f]
      else if f_op f = OpTake then [ATake KTake f]
      else if f_op f = OpReady then [ATake KReady f]
      else if f_op f = OpReserve then [ATake KReserve f]
      else if f_op f = OpAck then [AAckCall f]
      else if f_op f = OpNack then [ANackCall f]
      else if f_op f = OpReq then [AReqPend f]
      else if f_op f = OpRep then [ARepTake f]
      else if f_op f = OpPub then [APub f]
      else if f_op f = OpSub then [ASub f]
      else if f_op f = OpUnsub then [AUnsubAll f]
      else respond sid f (no_frame\<lparr>f_op := OpErr, f_id := f_id f, f_error := ''unknown op '' @ f_op f\<rparr>))"

end
