(* ===== verification/Hub_Seq.thy ===== *)
theory Hub_Seq
  imports Hub_Step Hub_Props
begin

text \<open>
  The sequential definitions of \<open>Hub\<close> are the executions of \<open>Hub_Step\<close> in which nothing comes in
  between: the sections of a goroutine, made one after the other, end in the state that the
  handler gives.
\<close>

text \<open>One section of a goroutine that runs alone, with any values from outside.\<close>

definition seq :: "nat \<Rightarrow> act list \<times> hub \<Rightarrow> act list \<times> hub \<Rightarrow> bool" where
  "seq sid x y \<longleftrightarrow> (\<exists>e a r new h. fst x = a # r \<and> act_step e sid a (snd x) = Some (new, h) \<and> y = (new @ r, h))"

abbreviation runs :: "nat \<Rightarrow> act list \<times> hub \<Rightarrow> act list \<times> hub \<Rightarrow> bool" where
  "runs sid \<equiv> (seq sid)\<^sup>*\<^sup>*"

lemma runs_refl [intro]: "x = y \<Longrightarrow> runs sid x y"
  by simp

lemma runs_step: "act_step e sid a h = Some (new, h1) \<Longrightarrow> runs sid (new @ r, h1) y \<Longrightarrow> runs sid (a # r, h) y"
  by (rule converse_rtranclp_into_rtranclp) (auto simp: seq_def)

lemma runs_more: "runs sid x y \<Longrightarrow> runs sid (fst x @ r, snd x) (fst y @ r, snd y)"
proof (induction rule: rtranclp_induct)
  case (step y z)
  obtain e a p new h where y: "fst y = a # p" "act_step e sid a (snd y) = Some (new, h)" "z = (new @ p, h)"
    using step(2) unfolding seq_def by blast
  then have "seq sid (fst y @ r, snd y) (fst z @ r, snd z)"
    unfolding seq_def by (intro exI [of _ e] exI [of _ a] exI [of _ "p @ r"] exI [of _ new] exI [of _ h]) simp
  then show ?case using step by (meson rtranclp.rtrancl_into_rtrancl)
qed simp

lemma runs_then:
  assumes "runs sid (p, h) ([], h1)" and "runs sid (r, h1) y"
  shows "runs sid (p @ r, h) y"
  using runs_more [OF assms(1), of r] assms(2) by simp

subsection \<open>Closing and writing\<close>

lemma runs_unsub: "unsub_all chs (hbus h) = Some b \<Longrightarrow> runs sid (map AUnsub chs, h) ([], h\<lparr>hbus := b\<rparr>)"
proof (induction chs arbitrary: h)
  case Nil
  then show ?case by auto
next
  case (Cons ch chs)
  obtain b1 where b1: "unsub ch (hbus h) = Some b1" "unsub_all chs b1 = Some b"
    using Cons.prems by (auto simp: bind_eq_Some_conv)
  have "runs sid (map AUnsub chs, h\<lparr>hbus := b1\<rparr>) ([], h\<lparr>hbus := b\<rparr>)"
    using Cons.IH [of "h\<lparr>hbus := b1\<rparr>"] b1 by simp
  then show ?case using b1 by (simp add: runs_step [of _ sid "AUnsub ch" h "[]" "h\<lparr>hbus := b1\<rparr>"])
qed

lemma runs_nack: "nack_all io is (hbus h) = Some b \<Longrightarrow> runs sid (map ANack is, h) ([], h\<lparr>hbus := b\<rparr>)"
proof (induction "is" arbitrary: h)
  case Nil
  then show ?case by auto
next
  case (Cons i js)
  obtain r where b1: "nack (io i) i (hbus h) = Some r" "nack_all io js (snd r) = Some b"
    using Cons.prems by (auto simp: bind_eq_Some_conv)
  have n: "runs sid (map ANack js, h\<lparr>hbus := snd r\<rparr>) ([], h\<lparr>hbus := b\<rparr>)"
    using Cons.IH [of "h\<lparr>hbus := snd r\<rparr>"] b1 by simp
  have "act_step (env0\<lparr>e_io := io i\<rparr>) sid (ANack i) h = Some ([], h\<lparr>hbus := snd r\<rparr>)" using b1(1) by simp
  from runs_step [OF this, of "map ANack js"] n show ?case by simp
qed

lemma runs_close: "s_close e t h = Some h1 \<Longrightarrow> runs sid ([AClose t], h) ([], h1)"
proof (cases "sess h t")
  case None
  then show "s_close e t h = Some h1 \<Longrightarrow> ?thesis"
    by (intro runs_step [of e sid "AClose t" h "[]" h1 "[]"]) (auto simp: s_close_def)
next
  case (Some s)
  let ?h = "upd_sess t (\<lambda>s. s\<lparr>s_closed := True, s_unsub := [], s_inflight := []\<rparr>) h"
  assume c: "s_close e t h = Some h1"
  show ?thesis
  proof (cases "s_closed s")
    case True
    then show ?thesis using c Some
      by (intro runs_step [of e sid "AClose t" h "[]" h1 "[]"]) (auto simp: s_close_def)
  next
    case False
    obtain b1 b2 where b: "unsub_all (s_unsub s) (hbus ?h) = Some b1" "nack_all (e_nack_io e) (s_inflight s) b1 = Some b2"
      "h1 = clearPending t (?h\<lparr>hbus := b2\<rparr>)"
      using c Some False by (auto simp: s_close_def Let_def bind_eq_Some_conv)
    have n: "runs sid (map ANack (s_inflight s), ?h\<lparr>hbus := b1\<rparr>) ([], ?h\<lparr>hbus := b2\<rparr>)"
      using runs_nack [of "e_nack_io e" "s_inflight s" "?h\<lparr>hbus := b1\<rparr>" b2] b(2) by simp
    have cl: "runs sid ([AClear t], ?h\<lparr>hbus := b2\<rparr>) ([], h1)"
      by (rule runs_step [of e]) (use b(3) in auto)
    have "runs sid (map AUnsub (s_unsub s) @ map ANack (s_inflight s) @ [AClear t], ?h) ([], h1)"
      by (rule runs_then [OF runs_unsub [OF b(1)]], rule runs_then [OF n cl])
    then show ?thesis using Some False
      by (intro runs_step [of e sid "AClose t" h _ ?h "[]"]) auto
  qed
qed

lemma runs_reply:
  assumes r: "reply e t f h = Some (x, h1)"
  shows "runs sid ([AReply t f good bad], h) (if x = None then good else bad, h1)"
proof (cases "is_open t h")
  case False
  then show ?thesis using r
    by (intro runs_step [of e sid "AReply t f good bad" h bad h1 "[]"])
       (auto simp: reply_def is_open_def split: option.splits if_splits)
next
  case True
  then obtain s where s: "sess h t = Some s" "\<not> s_closed s" by (auto simp: is_open_def split: option.splits)
  have a: "act_step e sid (AReply t f good bad) h = Some ([AHeader t f good bad], h)" using True by simp
  show ?thesis
  proof (cases "e_write e t f")
    case w: True
    let ?h = "upd_sess t (\<lambda>s. s\<lparr>s_out := s_out s @ [f]\<rparr>) h"
    have "runs sid ([ABody t f good bad], h) (good, ?h)"
      by (rule runs_step [of e _ "ABody t f good bad" h good ?h]) (use w True in auto)
    then have "runs sid ([AHeader t f good bad], h) (good, ?h)"
      by (intro runs_step [of e _ "AHeader t f good bad" h "[ABody t f good bad]" h "[]"]) (use w True in auto)
    then show ?thesis using r s w runs_step [OF a, of "[]"] by (simp add: reply_def)
  next
    case w: False
    obtain h2 where c: "s_close e t h = Some h2" "x = Some HWrite" "h1 = h2"
      using r s w by (auto simp: reply_def bind_eq_Some_conv)
    have "runs sid (AClose t # bad, h) (bad, h2)"
      using runs_then [OF runs_close [OF c(1)], where r = bad] by auto
    then have "runs sid ([AHeader t f good bad], h) (bad, h2)"
      by (intro runs_step [of e _ "AHeader t f good bad" h "AClose t # bad" h "[]"]) (use w in simp_all)
    then show ?thesis using c runs_step [OF a, of "[]"] by simp
  qed
qed

subsection \<open>The dispatch\<close>

text \<open>The goroutine that a handler starts.\<close>

definition spawn_acts :: "frame \<Rightarrow> spawn \<Rightarrow> act list" where
  "spawn_acts f sp = (case sp of
     NoSpawn \<Rightarrow> [] | SpawnTake keep \<Rightarrow> [ATake (if keep then KReady else KTake) f]
   | SpawnReserve \<Rightarrow> [ATake KReserve f] | SpawnPump ch \<Rightarrow> [APump ch])"

text \<open>The sections \<open>p\<close> of a handler end as the handler does: with the goroutine it starts, or with
  the report of its error, which a closed session does not get in either model.\<close>

definition ends :: "nat \<Rightarrow> frame \<Rightarrow> act list \<Rightarrow> hub \<Rightarrow> hres \<Rightarrow> bool" where
  "ends sid f p h r \<longleftrightarrow> (\<forall>x sp h1. r = Some (x, sp, h1) \<longrightarrow>
     (\<exists>q. runs sid (p, h) (q, h1) \<and>
       (case x of None \<Rightarrow> q = spawn_acts f sp
        | Some y \<Rightarrow> sp = NoSpawn \<and> (\<exists>z. q = complain sid f z \<and> (z = y \<or> \<not> is_open sid h1)))))"

lemma endsI:
  assumes "\<And>x sp h1. r = Some (x, sp, h1) \<Longrightarrow> \<exists>q. runs sid (p, h) (q, h1) \<and>
       (case x of None \<Rightarrow> q = spawn_acts f sp
        | Some y \<Rightarrow> sp = NoSpawn \<and> (\<exists>z. q = complain sid f z \<and> (z = y \<or> \<not> is_open sid h1)))"
  shows "ends sid f p h r"
  using assms unfolding ends_def by blast

lemma endsD:
  assumes "ends sid f p h r" and "r = Some (x, sp, h1)"
  obtains q where "runs sid (p, h) (q, h1)" and "case x of None \<Rightarrow> q = spawn_acts f sp
        | Some y \<Rightarrow> sp = NoSpawn \<and> (\<exists>z. q = complain sid f z \<and> (z = y \<or> \<not> is_open sid h1))"
  using assms(1) [unfolded ends_def, rule_format, OF assms(2)] by (elim exE conjE) (rule that)

lemma ends_run:
  assumes "runs sid (p, h) (p1, h1)" and "ends sid f p1 h1 r"
  shows "ends sid f p h r"
proof (rule endsI)
  fix x sp h2
  assume r: "r = Some (x, sp, h2)"
  obtain q where q: "runs sid (p1, h1) (q, h2)" "case x of None \<Rightarrow> q = spawn_acts f sp
        | Some y \<Rightarrow> sp = NoSpawn \<and> (\<exists>z. q = complain sid f z \<and> (z = y \<or> \<not> is_open sid h2))"
    by (rule endsD [OF assms(2) r])
  show "\<exists>q. runs sid (p, h) (q, h2) \<and> (case x of None \<Rightarrow> q = spawn_acts f sp
        | Some y \<Rightarrow> sp = NoSpawn \<and> (\<exists>z. q = complain sid f z \<and> (z = y \<or> \<not> is_open sid h2)))"
    by (intro exI conjI) (rule rtranclp_trans [OF assms(1) q(1)], rule q(2))
qed

lemma ends_step: "act_step e sid a h = Some (new, h1) \<Longrightarrow> ends sid f (new @ p) h1 r \<Longrightarrow> ends sid f (a # p) h r"
  by (rule ends_run [OF runs_step]) auto

lemma ends_err: "ends sid f (complain sid f y) h (Some (Some y, NoSpawn, h))"
  unfolding ends_def by auto

lemma ends_spawn: "ends sid f (spawn_acts f sp) h (Some (None, sp, h))"
  unfolding ends_def by auto

lemma s_close_shut:
  assumes "s_close e t h = Some h1"
  shows "\<not> is_open t h1"
proof (cases "sess h t")
  case None
  then show ?thesis using assms by (simp add: s_close_def is_open_def split: option.split)
next
  case (Some s)
  then show ?thesis using assms
    by (cases "s_closed s")
      (auto simp: s_close_def is_open_def Let_def bind_eq_Some_conv clearPending_def upd_sess_def)
qed

lemma reply_shut:
  assumes "reply e t f h = Some (Some x, h1)"
  shows "\<not> is_open t h1"
proof (cases "sess h t")
  case None
  then show ?thesis using assms by (simp add: reply_def is_open_def split: option.split)
next
  case (Some s)
  then show ?thesis using assms s_close_shut [of e t h h1]
    by (cases "s_closed s"; cases "e_write e t f") (auto simp: reply_def is_open_def bind_eq_Some_conv)
qed

lemma ends_respond: "ends sid f (respond sid f out) h (answer e sid out h)"
proof (rule endsI)
  fix x sp h1
  assume "answer e sid out h = Some (x, sp, h1)"
  then have r: "reply e sid out h = Some (x, h1)" "sp = NoSpawn" by (auto simp: answer_def bind_eq_Some_conv)
  have "runs sid (respond sid f out, h) (if x = None then [] else complain sid f HWrite, h1)"
    unfolding respond_def by (rule runs_reply [OF r(1)])
  then show "\<exists>q. runs sid (respond sid f out, h) (q, h1) \<and>
       (case x of None \<Rightarrow> q = spawn_acts f sp
        | Some y \<Rightarrow> sp = NoSpawn \<and> (\<exists>z. q = complain sid f z \<and> (z = y \<or> \<not> is_open sid h1)))"
    using r reply_shut [of e sid out h _ h1] by (cases x) (auto simp: spawn_acts_def)
qed

lemma ends_hello: "ends sid f [AHello f] h (handleHello e sid f h)"
proof -
  let ?h = "if f_from f \<noteq> '''' then upd_sess sid (\<lambda>s. s\<lparr>s_name := f_from f\<rparr>) h else h"
  let ?out = "(ok_frame f)\<lparr>f_from := (case sess ?h sid of None \<Rightarrow> '''' | Some s \<Rightarrow> s_name s)\<rparr>"
  have "act_step e sid (AHello f) h = Some (respond sid f ?out, ?h)" unfolding act_step.simps Let_def ..
  moreover have "ends sid f (respond sid f ?out @ []) ?h (handleHello e sid f h)"
    unfolding handleHello_def Let_def append_Nil2 by (rule ends_respond)
  ultimately show ?thesis by (rule ends_step)
qed

text \<open>A handler that begins with a call on the bus: what the two models make of its result.\<close>

lemma ends_put: "ends sid f [APut f] h (handlePut e sid f h)"
proof (cases "put (e_now e) (e_nid e) (e_io e) (f_name f) (client_msg_of sid (scopedID sid (f_id f)) f h) (hbus h)")
  case None
  then show ?thesis by (simp add: handlePut_def Let_def client_msg_of_def ends_def)
next
  case (Some r)
  note a = ends_step [of e sid "APut f" h _ _ f "[]", unfolded act_step.simps Some bind.simps append_Nil2, OF refl]
  show ?thesis
    by (rule a) (use Some in \<open>cases "fst r"; simp add: handlePut_def Let_def client_msg_of_def ends_respond ends_err\<close>)
qed

lemma ends_pub: "ends sid f [APub f] h (handlePub e sid f h)"
proof (cases "pub (e_now e) (e_victim e) (f_name f) (client_msg_of sid (f_id f) f h) (hbus h)")
  case None
  then show ?thesis by (simp add: handlePub_def Let_def client_msg_of_def ends_def)
next
  case (Some r)
  note a = ends_step [of e sid "APub f" h _ _ f "[]", unfolded act_step.simps Some bind.simps append_Nil2, OF refl]
  show ?thesis
    by (rule a) (use Some in \<open>cases "fst r"; simp add: handlePub_def Let_def client_msg_of_def ends_respond ends_err\<close>)
qed

lemma ends_ack: "ends sid f [AAckCall f] h (handleAck e sid f h)"
proof (cases "ack (e_io e) (f_delivery f) (hbus h)")
  case (Pair r b)
  note a = ends_step [of e sid "AAckCall f" h _ _ f "[]", unfolded act_step.simps Pair prod.case append_Nil2]
  show ?thesis
  proof (cases r)
    case None
    have "ends sid f (ADropInflight (f_delivery f) # respond sid f (ok_frame f)) (h\<lparr>hbus := b\<rparr>) (handleAck e sid f h)"
      by (rule ends_step [of e _ _ _ "[]" "dropInflight sid (f_delivery f) (h\<lparr>hbus := b\<rparr>)"])
        (simp_all add: handleAck_def Pair None ends_respond)
    then show ?thesis by (intro a) (simp_all add: None)
  next
    case (Some x)
    have "ends sid f (complain sid f (HBus x)) (h\<lparr>hbus := b\<rparr>) (handleAck e sid f h)"
      by (simp add: handleAck_def Pair Some) (rule ends_err)
    then show ?thesis by (intro a) (simp_all add: Some)
  qed
qed

lemma ends_nack: "ends sid f [ANackCall f] h (handleNack e sid f h)"
proof (cases "nack (e_io e) (f_delivery f) (hbus h)")
  case None
  then show ?thesis by (simp add: handleNack_def ends_def)
next
  case (Some rb)
  obtain r b where rb: "rb = (r, b)" by (cases rb)
  note a = ends_step [of e sid "ANackCall f" h _ _ f "[]", unfolded act_step.simps Some bind.simps append_Nil2, OF refl]
  show ?thesis
  proof (cases r)
    case None
    have "ends sid f (ADropInflight (f_delivery f) # respond sid f (ok_frame f)) (h\<lparr>hbus := b\<rparr>) (handleNack e sid f h)"
      by (rule ends_step [of e _ _ _ "[]" "dropInflight sid (f_delivery f) (h\<lparr>hbus := b\<rparr>)"])
        (simp_all add: handleNack_def Some rb None ends_respond)
    then show ?thesis by (intro a) (simp add: None rb)
  next
    case x: (Some x)
    then show ?thesis
      using \<open>nack _ _ _ = Some rb\<close> by (intro a) (simp add: handleNack_def rb x, rule ends_err)
  qed
qed

lemma ends_req: "ends sid f [AReqPend f] h (handleReq e sid f h)"
proof (cases "f_id f = ''''")
  case True
  then show ?thesis
    by (intro ends_step [of e sid "AReqPend f" h "complain sid f HMissingID" h])
      (simp_all add: handleReq_def ends_err)
next
  case False
  let ?key = "scopedID sid (f_id f)" and ?h1 = "expirePendingLocked (e_now e) h"
  let ?h2 = "?h1\<lparr>pending := (pending ?h1)(?key \<mapsto>
                      \<lparr>p_sess = sid, p_client = f_id f, p_expires = e_now e + pendingTTL h\<rparr>)\<rparr>"
  let ?m = "client_msg_of sid ?key f ?h2"
  have m: "?m = \<lparr>m_id = ?key, m_name = '''', m_from = s_from sid f h, m_body = payload f, m_at = 0\<rparr>"
    by (simp add: client_msg_of_def s_from_def expirePendingLocked_def)
  have s1: "act_step e sid (AReqPend f) h = Some ([AReqPut f], ?h2)" using False by (simp add: Let_def)
  have "ends sid f [AReqPut f] ?h2 (handleReq e sid f h)"
  proof (cases "put (e_now e) (e_nid e) (e_io e) (f_name f) ?m (hbus ?h2)")
    case None
    then show ?thesis using False m by (simp add: handleReq_def Let_def ends_def)
  next
    case (Some r)
    note a = ends_step [of e sid "AReqPut f" ?h2 _ _ f "[]", unfolded act_step.simps Some bind.simps append_Nil2, OF refl]
    show ?thesis
    proof (cases "fst r")
      case None
      then show ?thesis using False m Some ends_spawn [of sid f NoSpawn "?h2\<lparr>hbus := snd r\<rparr>"]
        by (intro a) (simp add: handleReq_def Let_def spawn_acts_def)
    next
      case x: (Some x)
      let ?h3 = "?h2\<lparr>hbus := snd r\<rparr>"
      let ?h4 = "case pending ?h3 ?key of
               Some p \<Rightarrow> if p_sess p = sid then ?h3\<lparr>pending := (pending ?h3)(?key := None)\<rparr> else ?h3
             | None \<Rightarrow> ?h3"
      have "handleReq e sid f h = Some (Some (HBus x), NoSpawn, ?h4)"
        using False m Some x by (simp add: handleReq_def Let_def)
      moreover have "act_step e sid (AReqUndo f) ?h3 = Some ([], ?h4)" by (simp add: Let_def)
      ultimately have "ends sid f (AReqUndo f # complain sid f (HBus x)) ?h3 (handleReq e sid f h)"
        using ends_err [of sid f "HBus x" ?h4] ends_step [of e sid "AReqUndo f" ?h3 "[]" ?h4 f "complain sid f (HBus x)"]
        by simp
      then show ?thesis by (intro a) (simp add: x)
    qed
  qed
  then show ?thesis using ends_step [OF s1, of f "[]"] by simp
qed

lemma ends_sub: "ends sid f [ASub f] h (handleSub e sid f h)"
proof (cases "sub (e_ord e) (f_name f) (hbus h)")
  case None
  then show ?thesis by (simp add: handleSub_def ends_def)
next
  case (Some r)
  obtain x ch b where r: "r = ((x, ch), b)" by (metis prod.collapse)
  note a = ends_step [of e sid "ASub f" h _ _ f "[]", unfolded act_step.simps Some r bind.simps append_Nil2, OF refl]
  show ?thesis
  proof (cases x)
    case x: (Some y)
    then show ?thesis using Some r by (intro a) (simp add: handleSub_def x, rule ends_err)
  next
    case x: None
    let ?h1 = "upd_sess sid (\<lambda>s. s\<lparr>s_unsub := s_unsub s @ [ch]\<rparr>) (h\<lparr>hbus := b\<rparr>)"
    let ?out = "(ok_frame f)\<lparr>f_name := f_name f\<rparr>"
    let ?acts = "[AReply sid ?out [APump ch] (AUnsub ch # complain sid f HWrite)]"
    have "ends sid f ?acts ?h1 (handleSub e sid f h)"
    proof (rule endsI)
      fix y sp h3
      assume g: "handleSub e sid f h = Some (y, sp, h3)"
      then obtain z h2 where z: "reply e sid ?out ?h1 = Some (z, h2)"
        and c: "case z of None \<Rightarrow> y = None \<and> sp = SpawnPump ch \<and> h3 = h2
          | Some w \<Rightarrow> y = Some w \<and> sp = NoSpawn \<and> (\<exists>b2. unsub ch (hbus h2) = Some b2 \<and> h3 = h2\<lparr>hbus := b2\<rparr>)"
        using Some r x by (auto simp: handleSub_def Let_def bind_eq_Some_conv split: option.splits prod.splits)
      note rn = runs_reply [OF z, of sid "[APump ch]" "AUnsub ch # complain sid f HWrite"]
      show "\<exists>q. runs sid (?acts, ?h1) (q, h3) \<and> (case y of None \<Rightarrow> q = spawn_acts f sp
        | Some y \<Rightarrow> sp = NoSpawn \<and> (\<exists>z. q = complain sid f z \<and> (z = y \<or> \<not> is_open sid h3)))"
      proof (cases z)
        case None
        then show ?thesis using rn c by (auto simp: spawn_acts_def)
      next
        case z2: (Some w)
        obtain b2 where b2: "unsub ch (hbus h2) = Some b2" "h3 = h2\<lparr>hbus := b2\<rparr>" using c z2 by auto
        have "\<not> is_open sid h3" using reply_shut [of e sid ?out ?h1 w h2] z z2 b2 by (simp add: is_open_def)
        moreover have "runs sid (AUnsub ch # complain sid f HWrite, h2) (complain sid f HWrite, h3)"
          by (rule runs_step [of e _ _ _ "[]" h3]) (use b2 in auto)
        with rn z2 have "runs sid (?acts, ?h1) (complain sid f HWrite, h3)" by (simp add: rtranclp_trans)
        ultimately show ?thesis using c z2 by auto
      qed
    qed
    then have "ends sid f [ASubTrack ch f] (h\<lparr>hbus := b\<rparr>) (handleSub e sid f h)"
      by (intro ends_step [of e sid "ASubTrack ch f" _ ?acts ?h1]) simp_all
    then show ?thesis by (intro a) (simp add: x)
  qed
qed

lemma ends_unsub: "ends sid f [AUnsubAll f] h (handleUnsub e sid f h)"
proof (cases "unsub_all (case sess h sid of None \<Rightarrow> [] | Some s \<Rightarrow> s_unsub s) (hbus h)")
  case None
  then show ?thesis by (simp add: handleUnsub_def ends_def)
next
  case (Some b)
  let ?h1 = "upd_sess sid (\<lambda>s. s\<lparr>s_unsub := []\<rparr>) h"
  let ?chs = "case sess h sid of None \<Rightarrow> [] | Some s \<Rightarrow> s_unsub s"
  have hb: "hbus ?h1 = hbus h" "?h1\<lparr>hbus := b\<rparr> = upd_sess sid (\<lambda>s. s\<lparr>s_unsub := []\<rparr>) (h\<lparr>hbus := b\<rparr>)"
    by (simp_all add: upd_sess_def)
  have "runs sid (map AUnsub ?chs, ?h1) ([], ?h1\<lparr>hbus := b\<rparr>)" by (rule runs_unsub) (simp add: hb Some)
  from runs_more [OF this, of "respond sid f (ok_frame f)"]
  have "ends sid f (map AUnsub ?chs @ respond sid f (ok_frame f)) ?h1 (handleUnsub e sid f h)"
    by (intro ends_run [of _ _ ?h1 "respond sid f (ok_frame f)" "?h1\<lparr>hbus := b\<rparr>"])
      (simp_all add: handleUnsub_def Some hb ends_respond)
  then show ?thesis by (intro ends_step [of e sid "AUnsubAll f" h _ ?h1]) simp_all
qed

lemma takeRepAck_bus: "hbus (snd (takeRepAck sid k h)) = hbus h"
  by (simp add: takeRepAck_def dropRepAck_def)

lemma runs_rep_ack:
  "\<exists>p. act_step e sid (ARepTake f) h = Some (p @ [ARepDest f], snd (takeRepAck sid (f_id f) h)) \<and>
     runs sid (p, snd (takeRepAck sid (f_id f) h)) ([], repAckPart e sid (f_id f) h)"
proof -
  obtain d h1 where t: "takeRepAck sid (f_id f) h = (d, h1)" by fastforce
  show ?thesis
  proof (cases "d = ''''")
    case True
    then show ?thesis using t by (intro exI [of _ "[]"]) (simp add: repAckPart_def)
  next
    case False
    obtain c h2 where c: "claimInflight sid d h1 = (c, h2)" by fastforce
    have "runs sid ([AClaim d True], h1) ([], repAckPart e sid (f_id f) h)"
    proof (cases c)
      case True
      have "runs sid ([AAck d], h2) ([], h2\<lparr>hbus := snd (ack (e_io e) d (hbus h2))\<rparr>)"
        by (rule runs_step [of e _ _ _ "[]" "h2\<lparr>hbus := snd (ack (e_io e) d (hbus h2))\<rparr>"]) auto
      then show ?thesis using t False c True
        by (intro runs_step [of e sid "AClaim d True" h1 "[AAck d]" h2 "[]"]) (simp_all add: repAckPart_def)
    next
      case cf: False
      then show ?thesis using t False c
        by (intro runs_step [of e sid "AClaim d True" h1 "[]" h2 "[]"]) (auto simp: repAckPart_def)
    qed
    then show ?thesis using t False by (intro exI [of _ "[AClaim d True]"]) simp
  qed
qed

lemma ends_rep: "ends sid f [ARepTake f] h (handleRep e sid f h)"
proof -
  let ?h1 = "repAckPart e sid (f_id f) h"
  let ?h2 = "?h1\<lparr>pending := (pending ?h1)(f_id f := None)\<rparr>"
  let ?good = "case pending ?h1 (f_id f) of None \<Rightarrow> [] | Some p \<Rightarrow> [ARepSend f p]"
  let ?acts = "[AReply sid (ok_frame f) ?good (complain sid f HWrite)]"
  have "ends sid f ?acts ?h2 (handleRep e sid f h)"
  proof (rule endsI)
    fix y sp h5
    assume g: "handleRep e sid f h = Some (y, sp, h5)"
    then obtain z h3 where z: "reply e sid (ok_frame f) ?h2 = Some (z, h3)"
      by (auto simp: handleRep_def Let_def bind_eq_Some_conv)
    note rn = runs_reply [OF z, of sid ?good "complain sid f HWrite"]
    show "\<exists>q. runs sid (?acts, ?h2) (q, h5) \<and> (case y of None \<Rightarrow> q = spawn_acts f sp
        | Some y \<Rightarrow> sp = NoSpawn \<and> (\<exists>z. q = complain sid f z \<and> (z = y \<or> \<not> is_open sid h5)))"
    proof (cases z)
      case (Some w)
      have yy: "y = Some w" "sp = NoSpawn" "h5 = h3" using g z Some by (simp_all add: handleRep_def Let_def)
      have r: "runs sid (?acts, ?h2) (complain sid f HWrite, h5)" using rn Some yy by simp
      have sh: "\<not> is_open sid h5" using reply_shut [of e sid "ok_frame f" ?h2 w h3] z Some yy by simp
      show ?thesis using yy by (intro exI [of _ "complain sid f HWrite"] conjI r) (use sh in auto)
    next
      case None
      show ?thesis
      proof (cases "pending ?h1 (f_id f)")
        case n: None
        then have "y = None" "sp = NoSpawn" "h5 = h3" using g z None by (simp_all add: handleRep_def Let_def)
        then show ?thesis using rn None n by (auto simp: spawn_acts_def)
      next
        case p: (Some p)
        let ?out = "no_frame\<lparr>f_op := OpRep, f_id := p_client p, f_name := f_name f, f_from := s_from sid f h3,
          f_body := f_body f, f_text := f_text f\<rparr>"
        obtain r2 where r2: "reply e (p_sess p) ?out h3 = Some r2" and yy: "y = None" "sp = NoSpawn" "h5 = snd r2"
          using g z None p by (auto simp: handleRep_def Let_def bind_eq_Some_conv)
        have "runs sid ([AReply (p_sess p) ?out [] []], h3) ([], h5)"
          using runs_reply [of e "p_sess p" ?out h3 "fst r2" "snd r2" sid "[]" "[]"] r2 yy by simp
        then have "runs sid ([ARepSend f p], h3) ([], h5)"
          by (intro runs_step [of e sid "ARepSend f p" h3 "[AReply (p_sess p) ?out [] []]" h3 "[]"]) simp_all
        then have "runs sid (?acts, ?h2) ([], h5)" using rn None p by (simp add: rtranclp_trans)
        then show ?thesis using yy by (auto simp: spawn_acts_def)
      qed
    qed
  qed
  then have e1: "ends sid f [ARepDest f] ?h1 (handleRep e sid f h)"
    by (intro ends_step [of e sid "ARepDest f" ?h1 ?acts ?h2]) simp_all
  obtain p where p: "act_step e sid (ARepTake f) h = Some (p @ [ARepDest f], snd (takeRepAck sid (f_id f) h))"
    "runs sid (p, snd (takeRepAck sid (f_id f) h)) ([], ?h1)"
    using runs_rep_ack by blast
  have "runs sid ((p @ [ARepDest f]) @ [], snd (takeRepAck sid (f_id f) h)) ([ARepDest f], ?h1)"
    using runs_more [OF p(2), of "[ARepDest f]"] by simp
  then have "ends sid f ((p @ [ARepDest f]) @ []) (snd (takeRepAck sid (f_id f) h)) (handleRep e sid f h)"
    by (rule ends_run) (rule e1)
  then show ?thesis by (rule ends_step [OF p(1)])
qed

text \<open>The whole dispatch, handler by handler.\<close>

lemmas handler_ends = ends_hello ends_put ends_pub ends_ack ends_nack ends_req ends_rep ends_sub ends_unsub
  ends_respond

lemma ends_if:
  "(c \<Longrightarrow> ends sid f p h r) \<Longrightarrow> (\<not> c \<Longrightarrow> ends sid f q h t) \<Longrightarrow> ends sid f (if c then p else q) h (if c then r else t)"
  by simp

lemma ends_frame: "\<exists>p. frame_acts sid f = ATouch # p \<and> ends sid f p h (handle e sid f h)"
proof -
  have s: "spawn_acts f NoSpawn = []" "spawn_acts f (SpawnTake False) = [ATake KTake f]"
    "spawn_acts f (SpawnTake True) = [ATake KReady f]" "spawn_acts f SpawnReserve = [ATake KReserve f]"
    by (simp_all add: spawn_acts_def)
  have n: "ends sid f [] h (Some (None, NoSpawn, h))" "ends sid f [ATake KTake f] h (Some (None, SpawnTake False, h))"
    "ends sid f [ATake KReady f] h (Some (None, SpawnTake True, h))" "ends sid f [ATake KReserve f] h (Some (None, SpawnReserve, h))"
    using ends_spawn [of sid f NoSpawn h] ends_spawn [of sid f "SpawnTake False" h]
      ends_spawn [of sid f "SpawnTake True" h] ends_spawn [of sid f SpawnReserve h] by (simp_all only: s)
  show ?thesis
    unfolding frame_acts_def handle_def by (intro exI conjI, rule refl) (intro ends_if handler_ends n)
qed

text \<open>C8 (handlers as goroutines). The sequential model of the hub and the model by critical sections
  agree: whatever frame arrives, if nothing comes between the sections of its handler, they end in
  the state that the sequential handler gives, error reports included, with exactly the goroutine
  it starts still to run.\<close>

theorem sections_handle:
  assumes "run_frame e sid f h = Some (sp, h')"
  shows "runs sid (frame_acts sid f, h) (spawn_acts f sp, h')"
proof -
  obtain p where p: "frame_acts sid f = ATouch # p" "ends sid f p (touch e sid h) (handle e sid f (touch e sid h))"
    using ends_frame by blast
  obtain x sp1 h1 where x: "handle e sid f (touch e sid h) = Some (x, sp1, h1)"
    using assms by (auto simp: run_frame_def bind_eq_Some_conv)
  obtain q where q: "runs sid (p, touch e sid h) (q, h1)" "case x of None \<Rightarrow> q = spawn_acts f sp1
        | Some y \<Rightarrow> sp1 = NoSpawn \<and> (\<exists>z. q = complain sid f z \<and> (z = y \<or> \<not> is_open sid h1))"
    by (rule endsD [OF p(2) x])
  have "runs sid (q, h1) (spawn_acts f sp, h')"
  proof (cases x)
    case None
    then show ?thesis using assms x q(2) by (auto simp: run_frame_def)
  next
    case (Some y)
    obtain z where z: "q = complain sid f z" "z = y \<or> \<not> is_open sid h1" "sp1 = NoSpawn" using q(2) Some by auto
    obtain r where r: "reply e sid (err_frame (f_id f) y) h1 = Some (r, h')" "sp = NoSpawn"
      using assms x Some z(3) by (auto simp: run_frame_def bind_eq_Some_conv)
    have "\<exists>r. reply e sid (err_frame (f_id f) z) h1 = Some (r, h')"
    proof (cases "z = y")
      case False
      then have "\<not> is_open sid h1" using z(2) by simp
      then show ?thesis using r(1) by (auto simp: reply_def is_open_def split: option.splits if_splits)
    qed (use r(1) in blast)
    then show ?thesis
      using runs_reply [of e sid "err_frame (f_id f) z" h1 _ h' sid "[]" "[]"] z(1) r(2)
      by (auto simp: complain_def spawn_acts_def)
  qed
  then have "runs sid (p, touch e sid h) (spawn_acts f sp, h')" using q(1) by (rule rtranclp_trans [rotated])
  then show ?thesis
    unfolding p(1) by (intro runs_step [of e sid ATouch h "[]" "touch e sid h"]) simp_all
qed

subsection \<open>Delivering a job\<close>

lemma runs_claim_nack:
  fixes e :: env
  assumes "claimInflight sid i h = (c, h1)" and "nack (e_io e) i (hbus h1) = Some r"
  shows "runs sid ([AClaim i False], h) ([], if c then h1\<lparr>hbus := snd r\<rparr> else h1)"
proof (cases c)
  case True
  have "runs sid ([ANack i], h1) ([], h1\<lparr>hbus := snd r\<rparr>)"
    by (rule runs_step [of e _ _ _ "[]" "h1\<lparr>hbus := snd r\<rparr>"]) (use assms in auto)
  then show ?thesis using assms True by (intro runs_step [of e sid "AClaim i False" h "[ANack i]" h1 "[]"]) simp_all
next
  case False
  then show ?thesis using assms by (intro runs_step [of e sid "AClaim i False" h "[]" h1 "[]"]) auto
qed

lemma runs_send:
  assumes s: "jobSend e sid keep f m d h = Some h'" and m: "d_msg d = m"
    and k: "k = (if keep then KReady else KTake)"
  shows "runs sid ([AReply sid (job_out k f d) (if k = KTake then [AClaim (d_id d) True] else [])
    ((if k = KReserve then [] else [ADropRep (f_id (job_out k f d))]) @ [AClaim (d_id d) False])], h) ([], h')"
proof -
  let ?out = "jobFrame keep f m d" and ?i = "d_id d"
  have out: "job_out k f d = ?out" "(k = KTake) = (\<not> keep)" "k \<noteq> KReserve" using m k by (simp_all add: job_out_def)
  let ?good = "if keep then [] else [AClaim ?i True]" and ?bad = "[ADropRep (f_id ?out), AClaim ?i False]"
  obtain x h1 where r: "reply e sid ?out h = Some (x, h1)" using s by (auto simp: jobSend_def bind_eq_Some_conv)
  note rn = runs_reply [OF r, of sid ?good ?bad]
  have "runs sid (if x = None then ?good else ?bad, h1) ([], h')"
  proof (cases x)
    case None
    obtain c h2 where c: "claimInflight sid ?i h1 = (c, h2)" by fastforce
    show ?thesis
    proof (cases keep)
      case True
      then show ?thesis using s r None by (auto simp: jobSend_def)
    next
      case nk: False
      show ?thesis
      proof (cases c)
        case True
        let ?h3 = "h2\<lparr>hbus := snd (ack (e_io e) ?i (hbus h2))\<rparr>"
        have h3: "h' = ?h3" using s r None nk c True by (simp add: jobSend_def)
        have "runs sid ([AAck ?i], h2) ([], h')" by (rule runs_step [of e _ _ _ "[]" h']) (auto simp: h3)
        then show ?thesis using None nk c True
          by (simp add: runs_step [of e sid "AClaim ?i True" h1 "[AAck ?i]" h2 "[]"])
      next
        case cf: False
        then have "h' = h2" using s r None nk c by (simp add: jobSend_def)
        then show ?thesis using None nk c cf
          by (simp add: runs_step [of e sid "AClaim ?i True" h1 "[]" h2 "[]"] runs_refl)
      qed
    qed
  next
    case (Some y)
    let ?h1 = "dropRepAck sid (f_id ?out) h1"
    obtain c h2 where c: "claimInflight sid ?i ?h1 = (c, h2)" by fastforce
    have "runs sid ([AClaim ?i False], ?h1) ([], h')"
    proof (cases c)
      case True
      then obtain r2 where "nack (e_io e) ?i (hbus h2) = Some r2" "h' = h2\<lparr>hbus := snd r2\<rparr>"
        using s r Some c by (auto simp: jobSend_def bind_eq_Some_conv)
      then show ?thesis using runs_claim_nack [OF c, of e r2] True by simp
    next
      case False
      then have "h' = h2" using s r Some c by (simp add: jobSend_def)
      then show ?thesis using c False by (intro runs_step [of e sid "AClaim ?i False" ?h1 "[]" h2 "[]"]) auto
    qed
    then show ?thesis using Some
      by (simp add: runs_step [of e sid "ADropRep (f_id ?out)" h1 "[]" ?h1 "[AClaim ?i False]"])
  qed
  with rn show ?thesis unfolding out using k by (auto intro: rtranclp_trans)
qed

text \<open>The same for the goroutine that delivers a job: made without
  interruption, its sections from \<open>Hold\<close> on end where \<open>takeJob\<close> ends, whether the hold, the write
  or a system call fails or not.\<close>

theorem sections_takeJob:
  assumes "takeJob e sid keep f m h = Some h'"
  shows "runs sid ([AHold (if keep then KReady else KTake) f m], h) ([], h')"
proof -
  let ?k = "if keep then KReady else KTake"
  have l: "job_lease ?k f h = takeLease h" by (simp add: job_lease_def)
  obtain x b where hd: "hold (e_now e) (e_nid e) (e_io e) m (takeLease h) (hbus h) = (x, b)" by fastforce
  show ?thesis
  proof (cases x)
    case (Inl y)
    obtain r r2 where r: "requeue (e_io2 e) m b = Some r" "reply e sid (err_frame (f_id f) (HBus y)) (h\<lparr>hbus := snd r\<rparr>) = Some r2"
      "h' = snd r2"
      using assms hd Inl by (auto simp: takeJob_def jobHold_def bind_eq_Some_conv)
    have c: "runs sid (complain sid f (HBus y), h\<lparr>hbus := snd r\<rparr>) ([], h')"
      using runs_reply [of e sid _ _ "fst r2" "snd r2" sid "[]" "[]"] r by (auto simp: complain_def)
    have "act_step (e\<lparr>e_io := e_io2 e\<rparr>) sid (ARequeue m) (h\<lparr>hbus := b\<rparr>) = Some ([], h\<lparr>hbus := snd r\<rparr>)"
      using r(1) by simp
    from runs_step [OF this, of "complain sid f (HBus y)"] c
    have "runs sid (ARequeue m # complain sid f (HBus y), h\<lparr>hbus := b\<rparr>) ([], h')" by simp
    then show ?thesis
      by (intro runs_step [of e sid "AHold ?k f m" h "ARequeue m # complain sid f (HBus y)" "h\<lparr>hbus := b\<rparr>" "[]"])
        (simp_all add: l hd Inl)
  next
    case (Inr d)
    let ?h1 = "h\<lparr>hbus := b\<rparr>" and ?h2 = "trackInflight sid (d_id d) (h\<lparr>hbus := b\<rparr>)"
    have dm: "d_msg d = m" using hd Inr by (auto simp: hold_def Let_def split: if_splits prod.splits option.splits)
    have js: "jobSend e sid keep f m d (jobTrack sid keep f m d ?h1) = Some h'"
      using assms hd Inr by (simp add: takeJob_def jobHold_def)
    note send = runs_send [OF js dm refl]
    let ?reply = "[AReply sid (job_out ?k f d) (if ?k = KTake then [AClaim (d_id d) True] else [])
      ((if ?k = KReserve then [] else [ADropRep (f_id (job_out ?k f d))]) @ [AClaim (d_id d) False])]"
    have "runs sid ((if keep then [ATrackRep (f_id (job_out ?k f d)) (d_id d)] else []) @ ?reply, ?h2) ([], h')"
    proof (cases keep)
      case True
      have o: "job_out KReady f d = jobFrame True f m d" using dm by (simp add: job_out_def)
      show ?thesis using send True
          runs_step [of e sid "ATrackRep (f_id (job_out KReady f d)) (d_id d)" ?h2 "[]" "jobTrack sid True f m d ?h1"]
        by (simp add: jobTrack_def o)
    next
      case False
      then show ?thesis using send by (simp add: jobTrack_def)
    qed
    then have "runs sid (job_acts sid ?k f d, ?h1) ([], h')"
      unfolding job_acts_def by (intro runs_step [of e sid "ATrack (d_id d)" ?h1 "[]" ?h2]) (simp_all split: if_splits)
    then show ?thesis
      by (intro runs_step [of e sid "AHold ?k f m" h "job_acts sid ?k f d" ?h1 "[]"]) (simp_all add: l hd Inr)
  qed
qed

subsection \<open>Concrete runs\<close>

theorem sections_handle_witness:
  "runs 1 (frame_acts 1 (no_frame\<lparr>f_op := OpTake, f_name := ''work''\<rparr>), hub0)
     ([ATake KTake (no_frame\<lparr>f_op := OpTake, f_name := ''work''\<rparr>)], touch env0 1 hub0)"
proof -
  let ?f = "no_frame\<lparr>f_op := OpTake, f_name := ''work''\<rparr>"
  have "run_frame env0 1 ?f hub0 = Some (SpawnTake False, touch env0 1 hub0)"
    by (simp add: run_frame_def handle_def op_defs)
  from sections_handle [OF this] show ?thesis by (simp add: spawn_acts_def)
qed

theorem sections_takeJob_witness:
  "\<exists>h'. takeJob env0 1 False (no_frame\<lparr>f_id := ''r''\<rparr>) job_b hub0 = Some h' \<and>
     runs 1 ([AHold KTake (no_frame\<lparr>f_id := ''r''\<rparr>) job_b], hub0) ([], h')"
proof -
  have ok: "bus_ok (hbus hub0)" by (simp add: bus_a_ok)
  obtain h' where t: "takeJob env0 1 False (no_frame\<lparr>f_id := ''r''\<rparr>) job_b hub0 = Some h'"
    using takeJob_ok [OF ok, of env0 1 False "no_frame\<lparr>f_id := ''r''\<rparr>" job_b] by auto
  from sections_takeJob [OF t] t show ?thesis by auto
qed

end
