(* ===== verification/Bus_Leases.thy ===== *)
theory Bus_Leases
  imports PubSub
begin

text \<open>
  What each critical section of the bus does to the leases, whatever the state: only \<open>Hold\<close> adds
  one, under the id it was given; \<open>Ack\<close> and \<open>Nack\<close> remove theirs, also when the file cannot be
  written; a sweep only removes; everything else leaves them alone.
\<close>

named_theorems lease_effects

lemma persist_inflight [lease_effects]: "persistLocked io b = (r, b') \<Longrightarrow> inflight b' = inflight b"
  by (auto simp: persistLocked_def split: if_splits)

lemma persist_snd_inflight [simp]: "inflight (snd (persistLocked io b)) = inflight b"
  by (simp add: persistLocked_def)

lemma deliver_inflight [lease_effects]: "deliverLocked m b = Some b' \<Longrightarrow> inflight b' = inflight b"
  by (auto simp: deliverLocked_def Let_def bind_eq_Some_conv split: list.splits)

lemma put_inflight [lease_effects]: "put now nid io n m b = Some (r, b') \<Longrightarrow> inflight b' = inflight b"
  by (auto simp: put_def putLocked_def Let_def bind_eq_Some_conv dest!: persist_inflight
      split: if_splits list.splits prod.splits option.splits)

lemma requeue_inflight [lease_effects]: "requeue io m b = Some (r, b') \<Longrightarrow> inflight b' = inflight b"
  by (auto simp: requeue_def bind_eq_Some_conv dest!: persist_inflight deliver_inflight split: if_splits)

lemma drop_lease_inflight [simp]: "inflight (drop_lease i d b) = (inflight b)(i := None)"
  by (simp add: drop_lease_def)

lemma ack_inflight [lease_effects]: "ack io i b = (r, b') \<Longrightarrow> inflight b' = (inflight b)(i := None)"
  by (auto simp: ack_def dest!: persist_inflight split: option.splits)

lemma nack_inflight [lease_effects]: "nack io i b = Some (r, b') \<Longrightarrow> inflight b' = (inflight b)(i := None)"
  by (auto simp: nack_def bind_eq_Some_conv dest!: persist_inflight deliver_inflight split: option.splits)

lemma hold_ok_inflight [lease_effects]:
  "hold now nid io m lease b = (Inr d, b') \<Longrightarrow> inflight b' = (inflight b)(nid \<mapsto> d) \<and> d_id d = nid \<and> d_msg d = m"
  by (auto simp: hold_def Let_def dest!: persist_inflight split: if_splits prod.splits option.splits)

lemma hold_fail_inflight [lease_effects]:
  "hold now nid io m lease b = (Inl e, b') \<Longrightarrow> inflight b' \<subseteq>\<^sub>m inflight b"
  by (auto simp: hold_def Let_def map_le_def dest!: persist_inflight split: if_splits prod.splits option.splits)

lemma map_le_drop: "m \<subseteq>\<^sub>m n(i := None) \<Longrightarrow> m \<subseteq>\<^sub>m n"
  by (auto simp: map_le_def) (metis domI fun_upd_apply option.distinct(1))

lemma requeueExpired_inflight [lease_effects]:
  "requeueExpiredLocked now od c b = Some (r, b') \<Longrightarrow> inflight b' \<subseteq>\<^sub>m inflight b"
proof (induction now od c b rule: requeueExpiredLocked.induct)
  case (2 now i js c b)
  show ?case
  proof (cases "inflight b i")
    case None
    then show ?thesis using 2 by simp
  next
    case (Some d)
    show ?thesis
    proof (cases "d_expires d < now")
      case True
      then obtain b1 where d: "deliverLocked (d_msg d) (drop_lease i d b) = Some b1"
        and r: "requeueExpiredLocked now js True b1 = Some (r, b')"
        using "2.prems" Some by (auto simp: bind_eq_Some_conv)
      have "inflight b' \<subseteq>\<^sub>m (inflight b)(i := None)"
        using "2.IH"(2) [OF Some True d r] unfolding deliver_inflight [OF d] drop_lease_inflight .
      then show ?thesis by (rule map_le_drop)
    next
      case False
      then show ?thesis using 2 Some by simp
    qed
  qed
qed simp

lemma expire_inflight [lease_effects]: "expireLeases now od io b = Some b' \<Longrightarrow> inflight b' \<subseteq>\<^sub>m inflight b"
  by (auto simp: expireLeases_def bind_eq_Some_conv dest!: requeueExpired_inflight split: if_splits)

lemma pop_front_inflight [lease_effects]: "pop_front io n m rest b = (r, b') \<Longrightarrow> inflight b' = inflight b"
  by (auto simp: pop_front_def dest!: persist_inflight split: prod.splits option.splits)

lemma takeStart_inflight [lease_effects]:
  assumes "takeStart now od io n b = Some (r, b')"
  shows "inflight b' \<subseteq>\<^sub>m inflight b"
proof (cases "n = '''' \<or> closed b")
  case True
  then show ?thesis using assms by (auto simp: takeStart_def takeChan_def split: if_splits)
next
  case False
  obtain x b1 where r: "requeueExpiredLocked now od False b = Some (x, b1)"
    using assms False by (auto simp: takeStart_def takeChan_def bind_eq_Some_conv)
  note le = requeueExpired_inflight [OF r]
  show ?thesis
  proof (cases "q_of (boxLocked n b1) n")
    case Nil
    then show ?thesis using assms False r le
      by (simp add: takeStart_def takeChan_def Let_def alloc_waiter_def) auto
  next
    case (Cons m rest)
    obtain e b2 where p: "pop_front io n m rest (boxLocked n b1) = (e, b2)" by fastforce
    have "inflight b' = inflight b2" using assms False r Cons p
      by (cases e) (simp_all add: takeStart_def takeChan_def Let_def alloc_full_def, auto)
    then show ?thesis using pop_front_inflight [OF p] le by simp
  qed
qed

lemma takeRecv_inflight [lease_effects]: "takeRecv ch b = (r, b') \<Longrightarrow> inflight b' = inflight b"
  by (auto simp: takeRecv_def split: recv.splits prod.splits)

lemma cancel_inflight [simp]: "inflight (cancelWaiter io n ch b) = inflight b"
  by (auto simp: cancelWaiter_def Let_def split: option.split recv.split prod.split)

lemma pub_inflight [lease_effects]: "pub now v t m b = Some (r, b') \<Longrightarrow> inflight b' = inflight b"
  by (auto simp: pub_def bind_eq_Some_conv split: if_splits)

lemma sub_inflight [lease_effects]: "sub od pre b = Some (r, b') \<Longrightarrow> inflight b' = inflight b"
  by (auto simp: sub_def Let_def bind_eq_Some_conv split: if_splits)

lemma unsub_inflight [lease_effects]: "unsub ch b = Some b' \<Longrightarrow> inflight b' = inflight b"
  by (auto simp: unsub_def bind_eq_Some_conv)

lemma closeBoxes_inflight: "closeBoxes ns b = Some b' \<Longrightarrow> inflight b' = inflight b"
  by (induction ns b rule: closeBoxes.induct) (auto simp: bind_eq_Some_conv split: option.splits)

lemma closeBus_inflight [lease_effects]: "closeBus od b = Some b' \<Longrightarrow> inflight b' = inflight b"
  by (auto simp: closeBus_def bind_eq_Some_conv dest!: closeBoxes_inflight split: if_splits)

end
