(* ===== verification/Refinement.thy ===== *)
theory Refinement
  imports Main
begin

text \<open>
  Forward simulation between a concrete and an abstract step system: every step of the concrete one
  is matched by a step of the abstract one or by none.  The concrete invariant may be proved with
  the help of the matching abstract state.
\<close>

locale simulation =
  fixes cinit :: "'c \<Rightarrow> bool" and cstep :: "'c \<Rightarrow> 'c \<Rightarrow> bool" and cinv :: "'c \<Rightarrow> bool"
    and areach :: "'a \<Rightarrow> bool" and astep :: "'a \<Rightarrow> 'a \<Rightarrow> bool" and match :: "'a \<Rightarrow> 'c \<Rightarrow> bool"
  assumes init: "cinit c \<Longrightarrow> cinv c \<and> (\<exists>a. areach a \<and> match a c)"
    and areach_step: "areach a \<Longrightarrow> astep a a' \<Longrightarrow> areach a'"
    and preserve: "cinv c \<Longrightarrow> areach a \<Longrightarrow> match a c \<Longrightarrow> cstep c c' \<Longrightarrow> cinv c'"
    and simulate: "cinv c \<Longrightarrow> areach a \<Longrightarrow> match a c \<Longrightarrow> cstep c c' \<Longrightarrow> \<exists>a'. (a' = a \<or> astep a a') \<and> match a' c'"
begin

inductive creach :: "'c \<Rightarrow> bool" where
  creach_init: "cinit c \<Longrightarrow> creach c"
| creach_step: "creach c \<Longrightarrow> cstep c c' \<Longrightarrow> creach c'"

text \<open>Every reachable concrete state matches a reachable abstract one.\<close>

lemma reach_match: "creach c \<Longrightarrow> cinv c \<and> (\<exists>a. areach a \<and> match a c)"
proof (induction rule: creach.induct)
  case (creach_step c c')
  then obtain a where a: "cinv c" "areach a" "match a c" by blast
  from simulate [OF this creach_step(2)] obtain a' where "a' = a \<or> astep a a'" "match a' c'" by blast
  then show ?case using areach_step [OF a(2)] a(2) preserve [OF a creach_step(2)] by blast
qed (rule init)

text \<open>So what holds in every reachable abstract state holds of the part the concrete one shares.\<close>

lemma transfer: "creach c \<Longrightarrow> (\<And>a. areach a \<Longrightarrow> match a c \<Longrightarrow> P) \<Longrightarrow> P"
  using reach_match by blast

end

end
