(* ===== verification/Hub_System.thy ===== *)
theory Hub_System
  imports Hub_Seq Bus_System Bus_Leases Refinement
begin

text \<open>
  All goroutines of the hub at once.  A state is the hub, the goroutines with their sessions and the
  sections they have still to make, the bytes written to each connection, the delivery ids handed
  out so far, the deliveries that were tracked in a session already closed, and the requests that
  were made, by session and id.  One step is one
  section of one goroutine, a frame or a connection that arrives, a cancelled \<open>Take\<close>, or the
  sweeper.  Frames are handled by goroutines of their own, so more orders are possible here than
  in the program, where the read loop of a session handles one frame at a time.
\<close>

record hsys =
  hs :: hub
  thr :: "nat \<rightharpoonup> nat \<times> act list"
  conn :: "nat \<Rightarrow> bytes"
  used :: "string set"
  orphans :: "string set"
  asked :: "(nat \<times> string) set"

text \<open>What a section writes: \<open>Write\<close> sends the header in one call and the JSON in another.\<close>

definition emit :: "env \<Rightarrow> act \<Rightarrow> hub \<Rightarrow> (nat \<Rightarrow> bytes) \<Rightarrow> nat \<Rightarrow> bytes" where
  "emit e a h w = (case a of
     AHeader t f good bad \<Rightarrow> (if is_open t h \<and> e_write e t f
       then w(t := w t @ header (length (marshal (with_version f)))) else w)
   | ABody t f good bad \<Rightarrow> (if is_open t h \<and> e_write e t f
       then w(t := w t @ marshal (with_version f)) else w)
   | _ \<Rightarrow> w)"

text \<open>Delivery ids are new; an eviction hits an entry of the cache; \<open>Close\<close> visits every mailbox.\<close>

definition env_ok :: "env \<Rightarrow> act \<Rightarrow> hsys \<Rightarrow> bool" where
  "env_ok e a s \<longleftrightarrow> (case a of
     AHold k f m \<Rightarrow> e_nid e \<notin> used s
   | APub f \<Rightarrow> dom (lastv (hbus (hs s))) \<noteq> {} \<longrightarrow> e_victim e \<in> dom (lastv (hbus (hs s)))
   | AHubClose \<Rightarrow> set (e_ord e) = dom (boxes (hbus (hs s)))
   | _ \<Rightarrow> True)"

definition take_id :: "env \<Rightarrow> act \<Rightarrow> string set \<Rightarrow> string set" where
  "take_id e a u = (case a of AHold k f m \<Rightarrow> insert (e_nid e) u | _ \<Rightarrow> u)"

definition add_orphan :: "nat \<Rightarrow> act \<Rightarrow> hub \<Rightarrow> string set \<Rightarrow> string set" where
  "add_orphan sid a h o1 = (case a of ATrack i \<Rightarrow> (if is_open sid h then o1 else insert i o1) | _ \<Rightarrow> o1)"

definition add_asked :: "nat \<Rightarrow> act \<Rightarrow> (nat \<times> string) set \<Rightarrow> (nat \<times> string) set" where
  "add_asked sid a q = (case a of AReqPend f \<Rightarrow> (if f_id f = '''' then q else insert (sid, f_id f) q) | _ \<Rightarrow> q)"

text \<open>The goroutines that are started for a session: a frame, the heartbeat, its end; and the end of
  the hub.\<close>

inductive starts :: "nat \<Rightarrow> act list \<Rightarrow> bool" where
  s_frame: "starts sid (frame_acts sid f)"
| s_beat: "starts sid [ABeat]"
| s_end: "starts sid [AClose sid, AUnreg sid]"
| s_stop: "starts sid [AHubClose]"

inductive hub_step :: "hsys \<Rightarrow> hsys \<Rightarrow> bool" where
  go: "thr s t = Some (sid, a # r) \<Longrightarrow> env_ok e a s \<Longrightarrow> act_step e sid a (hs s) = Some (new, h') \<Longrightarrow>
     hub_step s (s\<lparr>hs := h', thr := (thr s)(t \<mapsto> (sid, new @ r)), conn := emit e a (hs s) (conn s),
       used := take_id e a (used s), orphans := add_orphan sid a (hs s) (orphans s), asked := add_asked sid a (asked s)\<rparr>)"
| cancelled: "thr s t = Some (sid, ASelect k f ch # r) \<Longrightarrow>
     hub_step s (s\<lparr>hs := (hs s)\<lparr>hbus := cancelWaiter io (f_name f) ch (hbus (hs s))\<rparr>,
       thr := (thr s)(t \<mapsto> (sid, complain sid f (HBus ErrCtx) @ r))\<rparr>)"
| snap: "thr s t = Some (sid, ASnap # r) \<Longrightarrow> set ss = registered (hs s) \<Longrightarrow>
     hub_step s (s\<lparr>hs := (hs s)\<lparr>registered := {}\<rparr>, thr := (thr s)(t \<mapsto> (sid, map AClose ss @ r))\<rparr>)"
| finish: "thr s t = Some (sid, []) \<Longrightarrow> hub_step s (s\<lparr>thr := (thr s)(t := None)\<rparr>)"
| begin_go: "thr s t = None \<Longrightarrow> sess (hs s) sid \<noteq> None \<or> p = [AHubClose] \<Longrightarrow> starts sid p \<Longrightarrow>
     hub_step s (s\<lparr>thr := (thr s)(t \<mapsto> (sid, p))\<rparr>)"
| connect: "newSession e remote (hs s) = (sid, h') \<Longrightarrow> hub_step s (s\<lparr>hs := h'\<rparr>)"
| sweep: "expireLeases now od io (hbus (hs s)) = Some b \<Longrightarrow> hub_step s (s\<lparr>hs := (hs s)\<lparr>hbus := b\<rparr>\<rparr>)"

definition init_hub :: "bus \<Rightarrow> hsys" where
  "init_hub b = \<lparr>hs = newHub b, thr = Map.empty, conn = (\<lambda>_. []), used = {}, orphans = {}, asked = {}\<rparr>"

text \<open>A hub starts on a bus without leases; those of a reopened file belong to no session.\<close>

inductive hub_reach :: "hsys \<Rightarrow> bool" where
  hub_start: "init_bus b \<Longrightarrow> inflight b = Map.empty \<Longrightarrow> hub_reach (init_hub b)"
| hub_next: "hub_reach s \<Longrightarrow> hub_step s s' \<Longrightarrow> hub_reach s'"

subsection \<open>The goroutines of the bus\<close>

text \<open>Where a goroutine of the hub is as seen from the bus.\<close>

definition act_pc :: "act \<Rightarrow> pc option" where
  "act_pc a = (case a of ASelect k f ch \<Rightarrow> Some (PWait (f_name f) ch) | AHold k f m \<Rightarrow> Some (PHas m)
     | ARequeue m \<Rightarrow> Some (PPutBack m) | _ \<Rightarrow> None)"

definition head_pc :: "act list \<Rightarrow> pc option" where
  "head_pc p = (case p of [] \<Rightarrow> None | a # r \<Rightarrow> act_pc a)"

definition proj :: "(nat \<rightharpoonup> nat \<times> act list) \<Rightarrow> nat \<rightharpoonup> pc" where
  "proj T t = (case T t of None \<Rightarrow> None | Some (sid, p) \<Rightarrow> head_pc p)"

text \<open>Sections that are not inside a take, also in what they may do later.\<close>

fun quiet :: "act \<Rightarrow> bool" where
  "quiet (ASelect k f ch) = False"
| "quiet (AHold k f m) = False"
| "quiet (ARequeue m) = False"
| "quiet (AReply t f good bad) = (list_all quiet good \<and> list_all quiet bad)"
| "quiet (AHeader t f good bad) = (list_all quiet good \<and> list_all quiet bad)"
| "quiet (ABody t f good bad) = (list_all quiet good \<and> list_all quiet bad)"
| "quiet _ = True"

definition wf_go :: "act list \<Rightarrow> bool" where
  "wf_go p = (case p of [] \<Rightarrow> True | a # r \<Rightarrow> (quiet a \<or> act_pc a \<noteq> None) \<and> list_all quiet r)"

lemma quiet_pc: "quiet a \<Longrightarrow> act_pc a = None"
  by (cases a) (simp_all add: act_pc_def)

lemma quiet_complain [simp]: "list_all quiet (complain sid f x)" "list_all quiet (respond sid f out)"
  by (simp_all add: complain_def respond_def)

lemma quiet_maps [simp]: "list_all quiet (map AUnsub us)" "list_all quiet (map ANack ns)" "list_all quiet (map AClose cs)"
  by (simp_all add: list_all_iff)

lemma quiet_job [simp]: "list_all quiet (job_acts sid k f d)"
  by (simp add: job_acts_def)

lemma wf_quiet: "list_all quiet p \<Longrightarrow> wf_go p"
  by (auto simp: wf_go_def split: list.split)

lemma wf_append: "wf_go p \<Longrightarrow> list_all quiet r \<Longrightarrow> wf_go (p @ r)"
  by (cases p) (auto simp: wf_go_def wf_quiet split: list.split)

lemma starts_quiet: "starts sid p \<Longrightarrow> list_all quiet p"
  by (induction rule: starts.induct) (simp_all add: frame_acts_def)

text \<open>What a section leaves to do: nothing of a take unless it is one.\<close>

lemma act_quiet:
  "act_step e sid a h = Some (new, h') \<Longrightarrow> quiet a \<Longrightarrow> \<forall>k f. a \<noteq> ATake k f \<Longrightarrow> list_all quiet new"
proof (induction a)
  case (ABeat)
  then show ?case by (auto simp: Let_def split: if_splits option.splits)
qed (auto simp: Let_def bind_eq_Some_conv split: if_splits option.splits prod.splits sum.splits recv.splits bool.splits)

lemma step_sess:
  assumes "act_step e sid a h = Some (new, h')"
  shows "dom (sess h') = dom (sess h)"
proof (cases a)
  case (ASelect k f ch)
  then show ?thesis using assms by (auto split: prod.splits option.splits sum.splits)
next
  case (AHold k f m)
  then show ?thesis using assms by (auto split: prod.splits option.splits sum.splits)
qed (use assms in \<open>auto simp: Let_def bind_eq_Some_conv upd_sess_def touch_def dropInflight_def expirePendingLocked_def
      takeRepAck_def dropRepAck_def trackInflight_def trackRepAck_def claimInflight_def clearPending_def
      split: if_splits option.splits prod.splits recv.splits bool.splits\<close>)

text \<open>Every quiet section leaves the bus alone or makes one of its operations.\<close>

lemma step_bus:
  assumes "act_step e sid a h = Some (new, h')" and "quiet a" and "\<forall>k f. a \<noteq> ATake k f" and "a \<noteq> AHubClose"
    and "\<forall>f. a = APub f \<longrightarrow> dom (lastv (hbus h)) \<noteq> {} \<longrightarrow> e_victim e \<in> dom (lastv (hbus h))"
  shows "hbus h' = hbus h \<or> (\<exists>ins outs. bus_op (hbus h) ins outs (hbus h'))"
proof (cases a)
  case (APut f)
  then show ?thesis using assms(1) by (auto simp: bind_eq_Some_conv dest!: op_put)
next
  case (AReqPut f)
  then show ?thesis using assms(1) by (auto simp: bind_eq_Some_conv dest!: op_put)
next
  case (APub f)
  then show ?thesis using assms(1,5) by (auto simp: bind_eq_Some_conv dest!: op_pub)
next
  case (ASub f)
  then show ?thesis using assms(1) by (auto simp: bind_eq_Some_conv dest!: op_sub)
next
  case (AUnsub ch)
  then show ?thesis using assms(1) by (auto simp: bind_eq_Some_conv dest!: op_unsub)
next
  case (AAckCall f)
  then show ?thesis using assms(1) by (auto dest!: op_ack split: prod.splits option.splits)
next
  case (ANackCall f)
  then show ?thesis using assms(1) by (auto simp: bind_eq_Some_conv dest!: op_nack)
next
  case (AAck i)
  then show ?thesis using assms(1) op_ack [of "e_io e" i "hbus h"] by (cases "ack (e_io e) i (hbus h)") auto
next
  case (ANack i)
  then show ?thesis using assms(1) by (auto simp: bind_eq_Some_conv dest!: op_nack)
next
  case (APump ch)
  then show ?thesis using assms(1) by (auto dest!: op_recv split: prod.splits recv.splits)
qed (use assms in \<open>auto simp: Let_def bind_eq_Some_conv upd_sess_def touch_def dropInflight_def expirePendingLocked_def
      takeRepAck_def dropRepAck_def trackInflight_def trackRepAck_def claimInflight_def clearPending_def
      split: if_splits option.splits prod.splits bool.splits\<close>)

subsection \<open>Every execution of the hub is an execution of the bus\<close>

definition bus_match :: "sys \<Rightarrow> hsys \<Rightarrow> bool" where
  "bus_match x s \<longleftrightarrow> sbus x = hbus (hs s) \<and> pcs x = proj (thr s)"

lemma proj_upd [simp]: "proj (T(t \<mapsto> (sid, p))) = (proj T)(t := head_pc p)" "proj (T(t := None)) = (proj T)(t := None)"
  by (auto simp: proj_def fun_eq_iff)

lemma proj_at: "T t = Some (sid, p) \<Longrightarrow> proj T t = head_pc p"
  by (simp add: proj_def)

lemma head_quiet: "list_all quiet p \<Longrightarrow> head_pc p = None"
  by (auto simp: head_pc_def quiet_pc split: list.split)

lemma head_simps [simp]: "head_pc [] = None" "head_pc (a # p) = act_pc a"
  by (simp_all add: head_pc_def)

lemma act_pc_simps [simp]: "act_pc (ASelect k f ch) = Some (PWait (f_name f) ch)" "act_pc (AHold k f m) = Some (PHas m)"
  "act_pc (ARequeue m) = Some (PPutBack m)"
  by (simp_all add: act_pc_def)

text \<open>One step of the bus, or none, for one section of a goroutine.\<close>

lemma sim_quiet:
  assumes a: "quiet a" "\<forall>k f. a \<noteq> ATake k f" "a \<noteq> AHubClose" and st: "act_step e sid a h = Some (new, h')"
    and v: "\<forall>f. a = APub f \<longrightarrow> dom (lastv (hbus h)) \<noteq> {} \<longrightarrow> e_victim e \<in> dom (lastv (hbus h))"
    and x: "sbus x = hbus h" "pcs x t = None" and r: "list_all quiet r"
  shows "\<exists>x'. (x' = x \<or> sys_step x x') \<and> sbus x' = hbus h' \<and> pcs x' = (pcs x)(t := head_pc (new @ r))"
proof -
  have "list_all quiet (new @ r)" using act_quiet [OF st a(1,2)] r by simp
  then have p: "(pcs x)(t := head_pc (new @ r)) = pcs x" using x(2) by (simp add: head_quiet fun_upd_idem)
  from step_bus [OF st a v] show ?thesis
  proof
    assume "hbus h' = hbus h"
    then show ?thesis using x(1) p by auto
  next
    assume "\<exists>ins outs. bus_op (hbus h) ins outs (hbus h')"
    then obtain ins outs where "bus_op (sbus x) ins outs (hbus h')" using x(1) by auto
    then show ?thesis unfolding p by (intro exI conjI, intro disjI2, rule sys_step.call) simp_all
  qed
qed

lemma sim_take:
  assumes st: "act_step e sid (ATake k f) h = Some (new, h')"
    and x: "sbus x = hbus h" "pcs x t = None" and r: "list_all quiet r"
  shows "\<exists>x'. sys_step x x' \<and> sbus x' = hbus h' \<and> pcs x' = (pcs x)(t := head_pc (new @ r))"
proof -
  obtain y b where tk: "takeStart (e_now e) (e_ord e) (e_io e) (f_name f) (hbus h) = Some (y, b)"
    using st by (auto simp: bind_eq_Some_conv)
  show ?thesis
  proof (cases y)
    case (Inl z)
    have n: "new = complain sid f (HBus z)" "hbus h' = b" using st tk Inl by auto
    have "list_all quiet (new @ r)" using r n by simp
    then have p: "(pcs x)(t := head_pc (new @ r)) = pcs x" using x(2) by (simp add: head_quiet fun_upd_idem)
    show ?thesis unfolding p
      by (rule exI, rule conjI, rule take_fail [of "e_now e" "e_ord e" "e_io e" "f_name f" x z b])
        (use tk x Inl n in simp_all)
  next
    case (Inr ch)
    have n: "new = [ASelect k f ch]" "hbus h' = b" using st tk Inr by auto
    show ?thesis
      by (rule exI, rule conjI, rule take_wait [of x t "e_now e" "e_ord e" "e_io e" "f_name f" ch b])
        (use tk x Inr n in simp_all)
  qed
qed

lemma sim_select:
  assumes st: "act_step e sid (ASelect k f ch) h = Some (new, h')"
    and x: "sbus x = hbus h" "pcs x t = Some (PWait (f_name f) ch)" and r: "list_all quiet r"
  shows "\<exists>x'. (x' = x \<or> sys_step x x') \<and> sbus x' = hbus h' \<and> pcs x' = (pcs x)(t := head_pc (new @ r))"
proof -
  obtain y b where tk: "takeRecv ch (hbus h) = (y, b)" by fastforce
  show ?thesis
  proof (cases y)
    case None
    then have "b = hbus h" using tk by (auto simp: takeRecv_def split: recv.splits prod.splits)
    then have "new = [ASelect k f ch]" "hbus h' = hbus h" using st tk None by auto
    then show ?thesis using x by (intro exI [of _ x]) (simp add: fun_upd_idem)
  next
    case (Some z)
    show ?thesis
    proof (cases z)
      case (Inl w)
      have n: "new = complain sid f (HBus w)" "hbus h' = b" using st tk Some Inl by auto
      then have hp: "head_pc (new @ r) = None" using r head_quiet [of "new @ r"] by simp
      show ?thesis unfolding hp
        by (rule exI, rule conjI, rule disjI2, rule drained [of x t "f_name f" ch w b])
          (use tk x Some Inl n in simp_all)
    next
      case (Inr m)
      have n: "new = [AHold k f m]" "hbus h' = b" using st tk Some Inr by auto
      show ?thesis
        by (rule exI, rule conjI, rule disjI2, rule recv [of x t "f_name f" ch m b])
          (use tk x Some Inr n in simp_all)
    qed
  qed
qed

lemma sim_hold:
  assumes st: "act_step e sid (AHold k f m) h = Some (new, h')" and i: "inflight (hbus h) (e_nid e) = None"
    and x: "sbus x = hbus h" "pcs x t = Some (PHas m)" and r: "list_all quiet r"
  shows "\<exists>x'. sys_step x x' \<and> sbus x' = hbus h' \<and> pcs x' = (pcs x)(t := head_pc (new @ r))"
proof -
  obtain y b where hd: "hold (e_now e) (e_nid e) (e_io e) m (job_lease k f h) (hbus h) = (y, b)" by fastforce
  show ?thesis
  proof (cases y)
    case (Inl z)
    have n: "new = ARequeue m # complain sid f (HBus z)" "hbus h' = b" using st hd Inl by auto
    show ?thesis
      by (rule exI, rule conjI, rule hold_fail [of x t m "e_nid e" "e_now e" "e_io e" "job_lease k f h" z b])
        (use hd x Inl n i in simp_all)
  next
    case (Inr d)
    have n: "new = job_acts sid k f d" "hbus h' = b" using st hd Inr by auto
    then have hp: "head_pc (new @ r) = None" using r head_quiet [of "new @ r"] by simp
    show ?thesis unfolding hp
      by (rule exI, rule conjI, rule hold_ok [of x t m "e_nid e" "e_now e" "e_io e" "job_lease k f h" d b])
        (use hd x Inr n i in simp_all)
  qed
qed

lemma sim_requeue:
  assumes st: "act_step e sid (ARequeue m) h = Some (new, h')"
    and x: "sbus x = hbus h" "pcs x t = Some (PPutBack m)" and r: "list_all quiet r"
  shows "\<exists>x'. sys_step x x' \<and> sbus x' = hbus h' \<and> pcs x' = (pcs x)(t := head_pc (new @ r))"
proof -
  obtain y b where rq: "requeue (e_io e) m (hbus h) = Some (y, b)" using st by (auto simp: bind_eq_Some_conv)
  have n: "new = []" "hbus h' = b" "head_pc (new @ r) = None" using st rq r by (auto simp: head_quiet)
  show ?thesis unfolding n(3)
    by (rule exI, rule conjI, rule put_back [of x t m "e_io e" y b]) (use rq x n in simp_all)
qed

lemma sim_stop:
  assumes st: "act_step e sid AHubClose h = Some (new, h')" and o: "set (e_ord e) = dom (boxes (hbus h))"
    and x: "sbus x = hbus h" "pcs x t = None" and r: "list_all quiet r"
  shows "\<exists>x'. sys_step x x' \<and> sbus x' = hbus h' \<and> pcs x' = (pcs x)(t := head_pc (new @ r))"
proof -
  obtain b where cl: "closeBus (e_ord e) (hbus h) = Some b" using st by (auto simp: bind_eq_Some_conv)
  have n: "new = [ASnap]" "hbus h' = b" using st cl by auto
  then have p: "(pcs x)(t := head_pc (new @ r)) = pcs x" using x(2) by (simp add: act_pc_def fun_upd_idem)
  show ?thesis unfolding p
    by (rule exI, rule conjI, rule sys_step.close [of "e_ord e" x b]) (use cl x n o in simp_all)
qed

subsection \<open>Leases and sessions along a section\<close>

lemma le_dom: "m \<subseteq>\<^sub>m n \<Longrightarrow> dom m \<subseteq> dom n"
  by (rule map_le_implies_dom_le)

text \<open>No section but \<open>Hold\<close> adds a lease; the leases it leaves are the ones there were.\<close>

lemma step_leases:
  assumes st: "act_step e sid a h = Some (new, h')" and a: "\<forall>k f m. a \<noteq> AHold k f m"
  shows "inflight (hbus h') \<subseteq>\<^sub>m inflight (hbus h)"
proof -
  have d: "m(i := None) \<subseteq>\<^sub>m m" for m :: "string \<rightharpoonup> delivery" and i by (auto simp: map_le_def)
  show ?thesis
  proof (cases a)
    case (AAckCall f)
    then show ?thesis using st d by (auto dest!: ack_inflight split: prod.splits option.splits)
  next
    case (AAck i)
    then show ?thesis using st d ack_inflight [of "e_io e" i "hbus h"] by (cases "ack (e_io e) i (hbus h)") auto
  next
    case (ANackCall f)
    then show ?thesis using st d by (auto simp: bind_eq_Some_conv dest!: nack_inflight)
  next
    case (ANack i)
    then show ?thesis using st d by (auto simp: bind_eq_Some_conv dest!: nack_inflight)
  next
    case (ASelect k f ch)
    then show ?thesis using st by (auto dest!: takeRecv_inflight split: prod.splits option.splits sum.splits)
  qed (use st a in \<open>auto simp: Let_def bind_eq_Some_conv upd_sess_def touch_def dropInflight_def expirePendingLocked_def
      takeRepAck_def dropRepAck_def trackInflight_def trackRepAck_def claimInflight_def clearPending_def
      dest!: lease_effects split: if_splits option.splits prod.splits recv.splits bool.splits\<close>)
qed

lemma act_hold:
  assumes "act_step e sid (AHold k f m) h = Some (new, h')"
  shows "(inflight (hbus h') \<subseteq>\<^sub>m inflight (hbus h) \<and> (\<exists>x. new = ARequeue m # complain sid f x)) \<or>
    (\<exists>d. new = job_acts sid k f d \<and> d_id d = e_nid e \<and> inflight (hbus h') = (inflight (hbus h))(e_nid e \<mapsto> d))"
  using assms by (auto dest!: hold_ok_inflight hold_fail_inflight split: prod.splits sum.splits)

lemma step_used:
  assumes "act_step e sid a h = Some (new, h')" and "dom (inflight (hbus h)) \<subseteq> u"
  shows "dom (inflight (hbus h')) \<subseteq> take_id e a u"
proof (cases "\<exists>k f m. a = AHold k f m")
  case True
  then obtain k f m where a: "a = AHold k f m" by blast
  from act_hold [OF assms(1) [unfolded a]]
  have "dom (inflight (hbus h')) \<subseteq> insert (e_nid e) (dom (inflight (hbus h)))"
  proof
    assume "inflight (hbus h') \<subseteq>\<^sub>m inflight (hbus h) \<and> (\<exists>x. new = ARequeue m # complain sid f x)"
    then show ?thesis using le_dom [of "inflight (hbus h')" "inflight (hbus h)"] by blast
  qed auto
  then show ?thesis using assms(2) by (auto simp: a take_id_def)
next
  case False
  then have "take_id e a u = u" by (auto simp: take_id_def split: act.split)
  then show ?thesis using le_dom [OF step_leases [OF assms(1)]] False assms(2) by blast
qed

text \<open>The goroutine that closes the hub touches no session of its own.\<close>

definition is_stop :: "act \<Rightarrow> bool" where
  "is_stop a = (case a of AHubClose \<Rightarrow> True | ASnap \<Rightarrow> True | AClose t \<Rightarrow> True | AUnsub ch \<Rightarrow> True
     | ANack i \<Rightarrow> True | AClear t \<Rightarrow> True | _ \<Rightarrow> False)"

lemma step_stop: "act_step e sid a h = Some (new, h') \<Longrightarrow> is_stop a \<Longrightarrow> list_all is_stop new"
  by (cases a) (auto simp: is_stop_def list_all_iff bind_eq_Some_conv split: option.splits if_splits)

definition go_ok :: "hsys \<Rightarrow> bool" where
  "go_ok s \<longleftrightarrow> (\<forall>t sid p. thr s t = Some (sid, p) \<longrightarrow> wf_go p \<and> (sess (hs s) sid \<noteq> None \<or> list_all is_stop p)) \<and>
     dom (inflight (hbus (hs s))) \<subseteq> used s"

lemma go_okD:
  assumes "go_ok s"
  shows "thr s t = Some (sid, p) \<Longrightarrow> wf_go p" and "thr s t = Some (sid, p) \<Longrightarrow> sess (hs s) sid \<noteq> None \<or> list_all is_stop p"
    and "dom (inflight (hbus (hs s))) \<subseteq> used s"
  using assms by (auto simp: go_ok_def)

lemma go_okI:
  assumes "go_ok s" and "dom (inflight (hbus h')) \<subseteq> u" and "dom (sess (hs s)) \<subseteq> dom (sess h')"
    and "wf_go p" and "sess h' sid \<noteq> None \<or> list_all is_stop p"
    and "hs s' = h'" "thr s' = (thr s)(t \<mapsto> (sid, p))" "used s' = u"
  shows "go_ok s'"
  using assms unfolding go_ok_def by (auto split: if_splits) blast+

lemma wf_goD: "wf_go (a # r) \<Longrightarrow> list_all quiet r" "wf_go (a # r) \<Longrightarrow> quiet a \<or> act_pc a \<noteq> None"
  by (simp_all add: wf_go_def)

lemma wf_requeue: "list_all quiet p \<Longrightarrow> wf_go (ARequeue m # p)"
  by (simp add: wf_go_def)

lemma step_wf:
  assumes st: "act_step e sid a h = Some (new, h')" and w: "wf_go (a # r)"
  shows "wf_go (new @ r)"
proof -
  have "wf_go new"
  proof (cases "quiet a")
    case q: True
    show ?thesis
    proof (cases "\<exists>k f. a = ATake k f")
      case True
      then obtain k f y b where a: "a = ATake k f" "takeStart (e_now e) (e_ord e) (e_io e) (f_name f) (hbus h) = Some (y, b)"
        using st by (auto simp: bind_eq_Some_conv)
      then show ?thesis using st by (cases y) (auto simp: wf_go_def complain_def)
    next
      case False
      then show ?thesis using act_quiet [OF st q] by (simp add: wf_quiet)
    qed
  next
    case False
    then have "act_pc a \<noteq> None" using wf_goD(2) [OF w] by simp
    then show ?thesis
    proof (cases a)
      case (ASelect k f ch)
      then show ?thesis using st
        by (auto simp: wf_go_def complain_def split: prod.splits option.splits sum.splits)
    next
      case (AHold k f m)
      then show ?thesis using act_hold [of e sid k f m h new h'] st by (auto simp: wf_quiet wf_requeue)
    next
      case (ARequeue m)
      then show ?thesis using st by (auto simp: bind_eq_Some_conv wf_go_def)
    qed (auto simp: act_pc_def)
  qed
  then show ?thesis by (rule wf_append) (rule wf_goD(1) [OF w])
qed

lemma go_ok_go:
  assumes ok: "go_ok s" and t: "thr s t = Some (sid, a # r)" and st: "act_step e sid a (hs s) = Some (new, h')"
    and s': "hs s' = h'" "thr s' = (thr s)(t \<mapsto> (sid, new @ r))" "used s' = take_id e a (used s)"
  shows "go_ok s'"
proof (rule go_okI [OF ok step_used [OF st go_okD(3) [OF ok]] _ step_wf [OF st go_okD(1) [OF ok t]] _ s'])
  show "dom (sess (hs s)) \<subseteq> dom (sess h')" using step_sess [OF st] by simp
  show "sess h' sid \<noteq> None \<or> list_all is_stop (new @ r)"
    using go_okD(2) [OF ok t] step_stop [OF st] step_sess [OF st] by auto
qed

lemma starts_stop: "starts sid [AHubClose]" "is_stop AHubClose"
  by (simp_all add: s_stop is_stop_def)

lemma go_ok_step:
  assumes ok: "go_ok s" and st: "hub_step s s'"
  shows "go_ok s'"
  using st
proof cases
  case (go t sid a r e new h')
  show ?thesis by (rule go_ok_go [OF ok go(2,4)]) (simp_all add: go(1))
next
  case (cancelled t sid k f ch r io)
  have w: "list_all quiet r" using wf_goD(1) [OF go_okD(1) [OF ok cancelled(2)]] .
  have q: "list_all quiet (complain sid f (HBus ErrCtx) @ r)" using w by simp
  have se: "sess (hs s) sid \<noteq> None" using go_okD(2) [OF ok cancelled(2)] by (simp add: is_stop_def)
  show ?thesis
    by (rule go_okI [OF ok, where p = "complain sid f (HBus ErrCtx) @ r"])
      (use go_okD(3) [OF ok] se wf_quiet [OF q] in \<open>simp_all add: cancelled(1)\<close>)
next
  case (snap t sid r ss)
  have w: "list_all quiet r" using wf_goD(1) [OF go_okD(1) [OF ok snap(2)]] .
  have q: "list_all quiet (map AClose ss @ r)" using w by simp
  have se: "sess (hs s) sid \<noteq> None \<or> list_all is_stop (map AClose ss @ r)"
    using go_okD(2) [OF ok snap(2)] by (auto simp: is_stop_def list_all_iff)
  show ?thesis
    by (rule go_okI [OF ok, where p = "map AClose ss @ r"])
      (use go_okD(3) [OF ok] se wf_quiet [OF q] in \<open>simp_all add: snap(1)\<close>)
next
  case (finish t sid)
  then show ?thesis using ok by (auto simp: go_ok_def split: if_splits)
next
  case (begin_go t sid p)
  have se: "sess (hs s) sid \<noteq> None \<or> list_all is_stop p" using begin_go(3) starts_stop by auto
  show ?thesis
    by (rule go_okI [OF ok, where p = p])
      (use go_okD(3) [OF ok] se wf_quiet [OF starts_quiet [OF begin_go(4)]] in \<open>simp_all add: begin_go(1)\<close>)
next
  case (connect e remote sid h')
  then have h: "hbus h' = hbus (hs s)" "\<And>i. sess (hs s) i \<noteq> None \<Longrightarrow> sess h' i \<noteq> None"
    by (auto simp: newSession_def Let_def)
  show ?thesis using ok h(2) unfolding go_ok_def connect(1) by (simp add: h(1)) blast
next
  case (sweep now od io b)
  then have "dom (inflight b) \<subseteq> dom (inflight (hbus (hs s)))" using expire_inflight le_dom by blast
  then have "dom (inflight b) \<subseteq> used s" using go_okD(3) [OF ok] by (rule subset_trans)
  then show ?thesis using ok unfolding go_ok_def sweep(1) by simp
qed

text \<open>Every step of the hub is matched by a step of the bus or by none.\<close>

lemma hub_simulates:
  assumes ok: "go_ok s" and m: "bus_match x s" and st: "hub_step s s'"
  shows "\<exists>x'. (x' = x \<or> sys_step x x') \<and> bus_match x' s'"
  using st
proof cases
  case (go t sid a r e new h')
  have x: "sbus x = hbus (hs s)" "pcs x t = act_pc a" using m proj_at [of "thr s" t sid "a # r"] go(2) by (simp_all add: bus_match_def)
  note w = wf_goD [OF go_okD(1) [OF ok go(2)]]
  have "\<exists>x'. (x' = x \<or> sys_step x x') \<and> sbus x' = hbus h' \<and> pcs x' = (pcs x)(t := head_pc (new @ r))"
  proof (cases "quiet a")
    case q: True
    have n: "pcs x t = None" using x(2) quiet_pc [OF q] by simp
    consider (take) k f where "a = ATake k f" | (stop) "a = AHubClose" | (other) "\<forall>k f. a \<noteq> ATake k f" "a \<noteq> AHubClose" by blast
    then show ?thesis
    proof cases
      case take
      show ?thesis using sim_take [OF go(4) [unfolded take] x(1) n w(1)] by blast
    next
      case stop
      show ?thesis using sim_stop [OF go(4) [unfolded stop] _ x(1) n w(1)] go(3) stop by (auto simp: env_ok_def)
    next
      case other
      show ?thesis by (rule sim_quiet [OF q other go(4) _ x(1) n w(1)]) (use go(3) in \<open>auto simp: env_ok_def\<close>)
    qed
  next
    case False
    then have "act_pc a \<noteq> None" using w(2) by simp
    then show ?thesis
    proof (cases a)
      case (ASelect k f ch)
      show ?thesis using sim_select [OF go(4) [unfolded ASelect] x(1) _ w(1)] x(2) ASelect by simp
    next
      case (AHold k f n)
      have "inflight (hbus (hs s)) (e_nid e) = None" using go(3) go_okD(3) [OF ok] AHold by (auto simp: env_ok_def)
      from sim_hold [OF go(4) [unfolded AHold] this x(1) _ w(1)] show ?thesis using x(2) AHold by auto
    next
      case (ARequeue n)
      show ?thesis using sim_requeue [OF go(4) [unfolded ARequeue] x(1) _ w(1)] x(2) ARequeue by auto
    qed (auto simp: act_pc_def)
  qed
  then show ?thesis using m by (simp add: go(1) bus_match_def)
next
  case (cancelled t sid k f ch r io)
  have x: "sbus x = hbus (hs s)" "pcs x t = Some (PWait (f_name f) ch)"
    using m proj_at [where T = "thr s", OF cancelled(2)] by (simp_all add: bus_match_def)
  have "list_all quiet (complain sid f (HBus ErrCtx) @ r)" using wf_goD(1) [OF go_okD(1) [OF ok cancelled(2)]] by simp
  then show ?thesis using cancel [OF x(2), of io] x(1) m
    by (intro exI [of _ "x\<lparr>sbus := cancelWaiter io (f_name f) ch (sbus x), pcs := (pcs x)(t := None)\<rparr>"])
      (simp add: cancelled(1) bus_match_def head_quiet)
next
  case (snap t sid r ss)
  have "list_all quiet (map AClose ss @ r)" using wf_goD(1) [OF go_okD(1) [OF ok snap(2)]] by simp
  moreover have "pcs x t = None" using m proj_at [where T = "thr s", OF snap(2)] by (simp add: bus_match_def act_pc_def)
  ultimately show ?thesis using m
    by (intro exI [of _ x]) (simp add: snap(1) bus_match_def head_quiet fun_upd_idem)
next
  case (finish t sid)
  then have "pcs x t = None" using m proj_at [where T = "thr s", OF finish(2)] by (simp add: bus_match_def)
  then show ?thesis using m by (intro exI [of _ x]) (simp add: finish(1) bus_match_def fun_upd_idem)
next
  case (begin_go t sid p)
  have "proj (thr s) t = None" using begin_go(2) by (simp add: proj_def)
  then show ?thesis using m head_quiet [OF starts_quiet [OF begin_go(4)]]
    by (intro exI [of _ x]) (simp add: begin_go(1) bus_match_def fun_upd_idem)
next
  case (connect e remote sid h')
  then show ?thesis using m by (intro exI [of _ x]) (auto simp: bus_match_def newSession_def Let_def)
next
  case (sweep now od io b)
  have "bus_op (sbus x) {#} {#} b" using m sweep(2) op_expire by (simp add: bus_match_def)
  from sys_step.call [of x, OF this] show ?thesis using m
    by (intro exI [of _ "x\<lparr>sbus := b, accepted := accepted x + {#}, finished := finished x + {#}\<rparr>"])
      (simp add: sweep(1) bus_match_def)
qed

interpretation hub_bus: simulation "\<lambda>s. \<exists>b. init_bus b \<and> inflight b = Map.empty \<and> s = init_hub b" hub_step go_ok
  reachable sys_step bus_match
proof unfold_locales
  fix c
  assume "\<exists>b. init_bus b \<and> inflight b = Map.empty \<and> c = init_hub b"
  then obtain b where b: "init_bus b" "inflight b = Map.empty" "c = init_hub b" by blast
  have "go_ok c" by (simp add: b(2,3) go_ok_def init_hub_def newHub_def)
  moreover have "bus_match (init_sys b) c"
    by (simp add: b(3) bus_match_def init_hub_def newHub_def init_sys_def proj_def fun_eq_iff)
  ultimately show "go_ok c \<and> (\<exists>a. reachable a \<and> bus_match a c)" using reachable.start [OF b(1)] by blast
next
  show "reachable a \<Longrightarrow> sys_step a a' \<Longrightarrow> reachable a'" for a a' by (rule reachable.step)
next
  show "go_ok c \<Longrightarrow> reachable a \<Longrightarrow> bus_match a c \<Longrightarrow> hub_step c c' \<Longrightarrow> go_ok c'" for c a c' by (rule go_ok_step)
next
  show "go_ok c \<Longrightarrow> reachable a \<Longrightarrow> bus_match a c \<Longrightarrow> hub_step c c' \<Longrightarrow>
      \<exists>a'. (a' = a \<or> sys_step a a') \<and> bus_match a' c'" for c a c' by (rule hub_simulates)
qed

lemma hub_reach_creach: "hub_reach s \<Longrightarrow> hub_bus.creach s"
  by (induction rule: hub_reach.induct) (auto intro: hub_bus.creach.intros)

lemma hub_reach_bus:
  assumes "hub_reach s"
  obtains x where "reachable x" and "sbus x = hbus (hs s)" and "pcs x = proj (thr s)" and "go_ok s"
  using hub_bus.reach_match [OF hub_reach_creach [OF assms]] by (auto simp: bus_match_def)

lemma hub_reach_ok: "hub_reach s \<Longrightarrow> bus_ok (hbus (hs s))"
  by (rule hub_reach_bus) (auto simp: bus_ok_def dest!: reachable_inv simp: sys_inv_def)

end
