(* ===== verification/Hub_Leases.thy ===== *)
theory Hub_Leases
  imports Hub_System
begin

text \<open>
  Who gives a lease back.  In every interleaving a lease is in the list of an open session, or a
  goroutine is about to put it there or to settle it, or it was tracked in a session that had
  already been closed and only its expiry ends it.
\<close>

text \<open>The deliveries a goroutine is about to track or to settle.\<close>

definition duty :: "act list \<Rightarrow> string set" where
  "duty p = {i. ATrack i \<in> set p \<or> ANack i \<in> set p \<or> AAck i \<in> set p}"

definition listed :: "hub \<Rightarrow> string \<Rightarrow> bool" where
  "listed h i \<longleftrightarrow> (\<exists>sid s. sess h sid = Some s \<and> \<not> s_closed s \<and> i \<in> set (s_inflight s))"

lemma duty_simps [simp]:
  "duty [] = {}" "duty (p @ q) = duty p \<union> duty q"
  "duty (map AUnsub us) = {}" "duty (map ANack ns) = set ns" "duty (map AClose cs) = {}"
  by (auto simp: duty_def)

lemma duty_Cons: "duty (a # p) = duty [a] \<union> duty p"
  by (auto simp: duty_def)

lemma listed_bus [simp]: "listed (h\<lparr>hbus := b\<rparr>) i = listed h i" "listed (h\<lparr>pending := q\<rparr>) i = listed h i"
  "listed (h\<lparr>registered := x\<rparr>) i = listed h i"
  by (simp_all add: listed_def)

lemma listedI: "sess h u = Some s \<Longrightarrow> \<not> s_closed s \<Longrightarrow> i \<in> set (s_inflight s) \<Longrightarrow> listed h i"
  by (auto simp: listed_def)

lemma listed_more:
  assumes "listed h i" and "\<And>s. s_closed (f s) = s_closed s" and "\<And>s. i \<in> set (s_inflight s) \<Longrightarrow> i \<in> set (s_inflight (f s))"
  shows "listed (upd_sess sid f h) i"
proof -
  obtain u s where u: "sess h u = Some s" "\<not> s_closed s" "i \<in> set (s_inflight s)" using assms(1) by (auto simp: listed_def)
  show ?thesis
    by (rule listedI [of _ u "if u = sid then f s else s"]) (use u assms(2,3) in \<open>auto simp: upd_sess_def\<close>)
qed

lemma listed_upd [simp]:
  assumes "\<And>s. s_closed (f s) = s_closed s \<and> s_inflight (f s) = s_inflight s"
  shows "listed (upd_sess sid f h) i = listed h i"
proof
  assume "listed (upd_sess sid f h) i"
  then obtain u s where "sess (upd_sess sid f h) u = Some s" "\<not> s_closed s" "i \<in> set (s_inflight s)" by (auto simp: listed_def)
  then obtain s' where "sess h u = Some s'" "\<not> s_closed s'" "i \<in> set (s_inflight s')"
    using assms by (auto simp: upd_sess_def split: if_splits)
  then show "listed h i" by (rule listedI)
qed (use assms in \<open>simp add: listed_more\<close>)

lemma duty_in: "i \<in> duty [a] \<longleftrightarrow> a = ATrack i \<or> a = ANack i \<or> a = AAck i"
  by (auto simp: duty_def)

lemma duty_none: "\<forall>i. a \<noteq> ATrack i \<and> a \<noteq> ANack i \<and> a \<noteq> AAck i \<Longrightarrow> duty (a # p) = duty p"
  by (auto simp: duty_def)

text \<open>A delivery is taken off a session's list without being settled only after it was settled.\<close>

fun dropless :: "act \<Rightarrow> bool" where
  "dropless (ADropInflight i) = False"
| "dropless (AReply t f good bad) = (list_all dropless good \<and> list_all dropless bad)"
| "dropless (AHeader t f good bad) = (list_all dropless good \<and> list_all dropless bad)"
| "dropless (ABody t f good bad) = (list_all dropless good \<and> list_all dropless bad)"
| "dropless _ = True"

lemma dropless_complain [simp]: "list_all dropless (complain sid f x)" "list_all dropless (respond sid f out)"
  by (simp_all add: complain_def respond_def)

lemma dropless_maps [simp]:
  "list_all dropless (map AUnsub us)" "list_all dropless (map ANack ns)" "list_all dropless (map AClose cs)"
  by (simp_all add: list_all_iff)

lemma dropless_job [simp]: "list_all dropless (job_acts sid k f d)"
  by (simp add: job_acts_def)

lemma starts_dropless: "starts sid p \<Longrightarrow> list_all dropless p"
  by (induction rule: starts.induct) (simp_all add: frame_acts_def)

definition drops_ok :: "string set \<Rightarrow> bus \<Rightarrow> act list \<Rightarrow> bool" where
  "drops_ok u b p \<longleftrightarrow> (\<forall>a\<in>set p. dropless a \<or> (\<exists>i. a = ADropInflight i \<and> i \<in> u \<and> inflight b i = None))"

lemma drops_dropless: "list_all dropless p \<Longrightarrow> drops_ok u b p"
  by (auto simp: drops_ok_def list_all_iff)

lemma drops_simps [simp]: "drops_ok u b []" "drops_ok u b (p @ q) \<longleftrightarrow> drops_ok u b p \<and> drops_ok u b q"
  by (auto simp: drops_ok_def)

lemma drops_Cons: "drops_ok u b (a # p) \<longleftrightarrow> (dropless a \<or> (\<exists>i. a = ADropInflight i \<and> i \<in> u \<and> inflight b i = None)) \<and> drops_ok u b p"
  by (auto simp: drops_ok_def)

lemma drops_mono: "drops_ok u b p \<Longrightarrow> u \<subseteq> u' \<Longrightarrow> (\<And>i. i \<in> u \<Longrightarrow> inflight b i = None \<Longrightarrow> inflight b' i = None) \<Longrightarrow> drops_ok u' b' p"
  unfolding drops_ok_def by blast

subsection \<open>One section\<close>

lemma ack_some: "ack io i b = (None, b') \<Longrightarrow> inflight b i \<noteq> None"
  by (auto simp: ack_def split: option.splits)

lemma nack_some: "nack io i b = Some (None, b') \<Longrightarrow> inflight b i \<noteq> None"
  by (auto simp: nack_def split: option.splits)

text \<open>A lease that was not there can come only from \<open>Hold\<close>, and under a new id.\<close>

lemma step_gone:
  assumes st: "act_step e sid a h = Some (new, h')" and e: "\<forall>k f m. a = AHold k f m \<longrightarrow> e_nid e \<notin> u"
    and i: "i \<in> u" "inflight (hbus h) i = None"
  shows "inflight (hbus h') i = None"
proof (cases "\<exists>k f m. a = AHold k f m")
  case True
  then obtain k f m where a: "a = AHold k f m" by blast
  from act_hold [OF st [unfolded a]] show ?thesis
  proof
    assume "inflight (hbus h') \<subseteq>\<^sub>m inflight (hbus h) \<and> (\<exists>x. new = ARequeue m # complain sid f x)"
    then show ?thesis using le_dom [of "inflight (hbus h')" "inflight (hbus h)"] i(2) by blast
  next
    assume "\<exists>d. new = job_acts sid k f d \<and> d_id d = e_nid e \<and> inflight (hbus h') = (inflight (hbus h))(e_nid e \<mapsto> d)"
    then show ?thesis using e a i by auto
  qed
next
  case False
  then show ?thesis using le_dom [OF step_leases [OF st]] i(2) by blast
qed

lemma step_settled:
  assumes st: "act_step e sid a h = Some (new, h')" and s: "drops_ok u (hbus h) (a # r)"
    and e: "\<forall>k f m. a = AHold k f m \<longrightarrow> e_nid e \<notin> u" and u: "dom (inflight (hbus h)) \<subseteq> u" "u \<subseteq> u'"
  shows "drops_ok u' (hbus h') (new @ r)"
proof -
  have r: "drops_ok u' (hbus h') r"
    by (rule drops_mono [where u = u and b = "hbus h"]) (use s u(2) step_gone [OF st e] in \<open>auto simp: drops_Cons\<close>)
  have "drops_ok u' (hbus h') new"
  proof (cases a)
    case (AAckCall f)
    obtain x b where a: "ack (e_io e) (f_delivery f) (hbus h) = (x, b)" by fastforce
    show ?thesis
    proof (cases x)
      case None
      have "inflight b (f_delivery f) = None" using ack_inflight [OF a] by simp
      moreover have "f_delivery f \<in> u'" using ack_some [OF a [unfolded None]] u by blast
      ultimately show ?thesis using st AAckCall a None by (auto simp: drops_Cons drops_dropless)
    qed (use st AAckCall a in \<open>auto simp: drops_dropless\<close>)
  next
    case (ANackCall f)
    obtain x b where a: "nack (e_io e) (f_delivery f) (hbus h) = Some (x, b)"
      using st ANackCall by (auto simp: bind_eq_Some_conv)
    show ?thesis
    proof (cases x)
      case None
      have "inflight b (f_delivery f) = None" using nack_inflight [OF a] by simp
      moreover have "f_delivery f \<in> u'" using nack_some [OF a [unfolded None]] u by blast
      ultimately show ?thesis using st ANackCall a None by (auto simp: drops_Cons drops_dropless)
    qed (use st ANackCall a in \<open>auto simp: drops_dropless\<close>)
  next
    case (ATake k f)
    then obtain x b where "takeStart (e_now e) (e_ord e) (e_io e) (f_name f) (hbus h) = Some (x, b)"
      using st by (auto simp: bind_eq_Some_conv)
    then show ?thesis using st ATake by (cases x) (auto simp: drops_dropless)
  qed (use st s in \<open>auto simp: Let_def bind_eq_Some_conv drops_dropless drops_Cons
      split: if_splits option.splits prod.splits sum.splits recv.splits bool.splits\<close>)
  then show ?thesis using r by simp
qed

lemma step_sids: "act_step e sid a h = Some (new, h') \<Longrightarrow> sids h' = sids h"
proof (cases a)
  case (ATake k f)
  assume st: "act_step e sid a h = Some (new, h')"
  then obtain x b where "takeStart (e_now e) (e_ord e) (e_io e) (f_name f) (hbus h) = Some (x, b)"
    using ATake by (auto simp: bind_eq_Some_conv)
  then show ?thesis using st ATake by (cases x) auto
qed (auto simp: Let_def bind_eq_Some_conv upd_sess_def touch_def dropInflight_def expirePendingLocked_def
      takeRepAck_def dropRepAck_def trackInflight_def trackRepAck_def claimInflight_def clearPending_def
      split: if_splits option.splits prod.splits sum.splits recv.splits bool.splits)

text \<open>The list of an open session changes only under the operations that say so.\<close>

lemma step_listed:
  assumes st: "act_step e sid a h = Some (new, h')" and i: "listed h i" and a: "a \<noteq> ADropInflight i"
  shows "listed h' i \<or> i \<in> duty new"
proof (cases a)
  case (AClose t)
  obtain u s where u: "sess h u = Some s" "\<not> s_closed s" "i \<in> set (s_inflight s)" using i by (auto simp: listed_def)
  show ?thesis
  proof (cases "u = t")
    case True
    then show ?thesis using st u AClose by auto
  next
    case False
    then have "sess h' u = Some s" using st u AClose by (auto simp: upd_sess_def split: option.splits if_splits)
    then show ?thesis using u by (auto simp: listed_def)
  qed
next
  case (AClaim j good)
  obtain u s where u: "sess h u = Some s" "\<not> s_closed s" "i \<in> set (s_inflight s)" using i by (auto simp: listed_def)
  show ?thesis
  proof (cases "u = sid \<and> j = i")
    case True
    then show ?thesis using st u AClaim by (auto simp: claimInflight_def duty_def split: if_splits)
  next
    case False
    then have "\<exists>s'. sess h' u = Some s' \<and> \<not> s_closed s' \<and> i \<in> set (s_inflight s')"
      using st u AClaim
      by (cases "u = sid") (auto simp: claimInflight_def dropInflight_def upd_sess_def split: option.splits if_splits)
    then show ?thesis by (auto simp: listed_def)
  qed
next
  case (ATake k f)
  then obtain x b where "takeStart (e_now e) (e_ord e) (e_io e) (f_name f) (hbus h) = Some (x, b)"
    using st by (auto simp: bind_eq_Some_conv)
  then show ?thesis using st ATake i by (cases x) auto
next
  case (ASelect k f ch)
  then show ?thesis using st i by (auto split: prod.splits option.splits sum.splits)
next
  case (AHold k f m)
  then show ?thesis using st i by (auto split: prod.splits sum.splits)
next
  case (ATrack j)
  then show ?thesis using st listed_more [OF i] by (auto simp: trackInflight_def)
next
  case (ADropInflight j)
  then show ?thesis using st a listed_more [OF i] by (auto simp: dropInflight_def)
qed (use st i a in \<open>auto simp: Let_def bind_eq_Some_conv touch_def expirePendingLocked_def
      takeRepAck_def dropRepAck_def trackRepAck_def clearPending_def
      split: if_splits option.splits prod.splits recv.splits\<close>)

lemma track_listed: "act_step e sid (ATrack i) h = Some (new, h') \<Longrightarrow> is_open sid h \<Longrightarrow> listed h' i"
  by (auto simp: trackInflight_def upd_sess_def is_open_def listed_def split: option.splits)

lemma hold_duty: "i \<in> duty (job_acts sid k f d) \<longleftrightarrow> i = d_id d"
  by (auto simp: duty_def job_acts_def)

subsection \<open>The invariant\<close>

definition cared :: "hsys \<Rightarrow> string \<Rightarrow> bool" where
  "cared s i \<longleftrightarrow> i \<in> orphans s \<or> listed (hs s) i \<or> (\<exists>t sid p. thr s t = Some (sid, p) \<and> i \<in> duty p)"

definition lease_ok :: "hsys \<Rightarrow> bool" where
  "lease_ok s \<longleftrightarrow> (\<forall>i. inflight (hbus (hs s)) i \<noteq> None \<longrightarrow> cared s i) \<and>
     (\<forall>t sid p. thr s t = Some (sid, p) \<longrightarrow> drops_ok (used s) (hbus (hs s)) p) \<and>
     (\<forall>sid. sess (hs s) sid \<noteq> None \<longrightarrow> sid \<le> sids (hs s))"

lemma lease_okD:
  assumes "lease_ok s"
  shows "inflight (hbus (hs s)) i \<noteq> None \<Longrightarrow> cared s i"
    and "thr s t = Some (sid, p) \<Longrightarrow> drops_ok (used s) (hbus (hs s)) p"
    and "sess (hs s) sid \<noteq> None \<Longrightarrow> sid \<le> sids (hs s)"
  using assms by (auto simp: lease_ok_def)

text \<open>Replacing the sections of one goroutine: what has to be shown again.\<close>

lemma lease_okI:
  assumes ok: "lease_ok s" and b: "\<And>i. i \<in> used s \<Longrightarrow> inflight (hbus (hs s)) i = None \<Longrightarrow> inflight (hbus h') i = None"
    and u: "used s \<subseteq> used s'" and own: "\<And>i. inflight (hbus h') i \<noteq> None \<Longrightarrow> cared s' i"
    and p: "drops_ok (used s') (hbus h') p" and d: "dom (sess h') = dom (sess (hs s))" "sids h' = sids (hs s)"
    and s': "hs s' = h'" "thr s' = (thr s)(t \<mapsto> (sid, p))"
  shows "lease_ok s'"
proof -
  have "drops_ok (used s') (hbus h') q" if q: "thr s t' = Some (u', q)" for t' u' q
    by (rule drops_mono [OF lease_okD(2) [OF ok q] u b])
  moreover have "u \<le> sids h'" if "sess h' u \<noteq> None" for u
    using lease_okD(3) [OF ok, of u] that d by (metis domIff)
  ultimately show ?thesis using own p unfolding lease_ok_def s' by (auto split: if_splits)
qed

lemma cared_go:
  assumes ok: "lease_ok s" and t: "thr s t = Some (sid, a # r)" and st: "act_step e sid a (hs s) = Some (new, h')"
    and s': "hs s' = h'" "thr s' = (thr s)(t \<mapsto> (sid, new @ r))" "orphans s' = add_orphan sid a (hs s) (orphans s)"
    and i: "inflight (hbus h') i \<noteq> None"
  shows "cared s' i"
proof -
  have own: "i \<in> duty new \<or> listed h' i \<or> i \<in> orphans s' \<Longrightarrow> cared s' i"
    unfolding cared_def s'(1,2) by (auto intro!: exI [of _ t])
  have new: "inflight (hbus (hs s)) i \<noteq> None \<or> i \<in> duty new"
  proof (cases "\<exists>k f m. a = AHold k f m")
    case True
    then obtain k f m where a: "a = AHold k f m" by blast
    from act_hold [OF st [unfolded a]] show ?thesis
    proof
      assume "inflight (hbus h') \<subseteq>\<^sub>m inflight (hbus (hs s)) \<and> (\<exists>x. new = ARequeue m # complain sid f x)"
      then show ?thesis using i le_dom [of "inflight (hbus h')" "inflight (hbus (hs s))"] by blast
    next
      assume "\<exists>d. new = job_acts sid k f d \<and> d_id d = e_nid e \<and>
        inflight (hbus h') = (inflight (hbus (hs s)))(e_nid e \<mapsto> d)"
      then show ?thesis using i by (auto simp: hold_duty split: if_splits)
    qed
  next
    case False
    then show ?thesis using i le_dom [OF step_leases [OF st]] by blast
  qed
  show ?thesis
  proof (cases "i \<in> duty new")
    case True
    then show ?thesis using own by blast
  next
    case False
    then have "cared s i" using new lease_okD(1) [OF ok] by blast
    then consider (orphan) "i \<in> orphans s" | (listed) "listed (hs s) i"
      | (mine) "i \<in> duty (a # r)" | (theirs) t' u p where "t' \<noteq> t" "thr s t' = Some (u, p)" "i \<in> duty p"
      unfolding cared_def using t by (metis option.inject prod.inject)
    then show ?thesis
    proof cases
      case orphan
      then show ?thesis using own s'(3) by (auto simp: add_orphan_def split: act.splits)
    next
      case listed
      have "a \<noteq> ADropInflight i"
        using lease_okD(2) [OF ok t] new False by (auto simp: drops_Cons)
      then show ?thesis using step_listed [OF st listed] own by blast
    next
      case mine
      then consider "i \<in> duty r" | "a = ATrack i" | "a = ANack i" | "a = AAck i"
        using duty_Cons [of a r] by (auto simp: duty_in)
      then show ?thesis
      proof cases
        case 1
        then show ?thesis unfolding cared_def s'(2) by (auto intro!: exI [of _ t])
      next
        case 2
        then show ?thesis using own track_listed [of e sid i "hs s" new h'] st s'(3)
          by (auto simp: add_orphan_def split: if_splits)
      next
        case 3
        then show ?thesis using st i by (auto simp: bind_eq_Some_conv dest!: nack_inflight)
      next
        case 4
        then show ?thesis using st i ack_inflight [of "e_io e" i "hbus (hs s)"]
          by (cases "ack (e_io e) i (hbus (hs s))") auto
      qed
    next
      case theirs
      then show ?thesis unfolding cared_def s'(2) by (metis fun_upd_apply)
    qed
  qed
qed

text \<open>Steps that leave the leases, the lists and what the goroutines have to settle.\<close>

lemma cared_keep:
  assumes "cared s i" and "orphans s' = orphans s" and "listed (hs s) i \<Longrightarrow> listed (hs s') i"
    and "\<And>t sid p. thr s t = Some (sid, p) \<Longrightarrow> i \<in> duty p \<Longrightarrow> \<exists>t sid p. thr s' t = Some (sid, p) \<and> i \<in> duty p"
  shows "cared s' i"
  using assms unfolding cared_def by metis

lemma other_duty:
  assumes "thr s t = Some (sid, p)" and "duty p \<subseteq> duty q" and "thr s' = (thr s)(t \<mapsto> (u, q))"
    and "thr s t' = Some (sid', p')" and "i \<in> duty p'"
  shows "\<exists>t sid p. thr s' t = Some (sid, p) \<and> i \<in> duty p"
proof (cases "t' = t")
  case True
  then show ?thesis using assms by (intro exI [of _ t] exI [of _ u] exI [of _ q]) auto
next
  case False
  then show ?thesis using assms by (intro exI [of _ t'] exI [of _ sid'] exI [of _ p']) auto
qed

lemma lease_ok_step:
  assumes ok: "lease_ok s" and go: "go_ok s" and st: "hub_step s s'"
  shows "lease_ok s'"
  using st
proof cases
  case (go t sid a r e new h')
  have u: "used s \<subseteq> take_id e a (used s)" by (auto simp: take_id_def split: act.split)
  have e: "\<forall>k f m. a = AHold k f m \<longrightarrow> e_nid e \<notin> used s" using go(3) by (auto simp: env_ok_def)
  show ?thesis
  proof (rule lease_okI [OF ok, of h' s' "new @ r" t sid])
    show "drops_ok (used s') (hbus h') (new @ r)"
      using step_settled [OF go(4) lease_okD(2) [OF ok go(2)] e go_okD(3) [OF assms(2)] u] by (simp add: go(1))
    show "cared s' i" if "inflight (hbus h') i \<noteq> None" for i
      by (rule cared_go [OF ok go(2,4) _ _ _ that]) (simp_all add: go(1))
  qed (use step_gone [OF go(4) e] u step_sess [OF go(4)] step_sids [OF go(4)] in \<open>simp_all add: go(1)\<close>)
next
  case (cancelled t sid k f ch r io)
  have d: "duty (ASelect k f ch # r) = duty r" by (simp add: duty_none)
  show ?thesis
  proof (rule lease_okI [OF ok, of "hs s'" s' "complain sid f (HBus ErrCtx) @ r" t sid])
    show "drops_ok (used s') (hbus (hs s')) (complain sid f (HBus ErrCtx) @ r)"
      using drops_mono [OF lease_okD(2) [OF ok cancelled(2)], of "used s'" "hbus (hs s')"]
      by (simp add: cancelled(1) drops_Cons drops_dropless)
    show "cared s' i" if i: "inflight (hbus (hs s')) i \<noteq> None" for i
    proof (rule cared_keep [of s])
      show "cared s i" using lease_okD(1) [OF ok] i by (simp add: cancelled(1))
      show "\<exists>t sid p. thr s' t = Some (sid, p) \<and> i \<in> duty p" if "thr s t' = Some (u, q)" "i \<in> duty q" for t' u q
        by (rule other_duty [OF cancelled(2) _ _ that]) (auto simp: d cancelled(1))
    qed (simp_all add: cancelled(1))
  qed (simp_all add: cancelled(1))
next
  case (snap t sid r ss)
  have d: "duty (ASnap # r) = duty r" by (simp add: duty_none)
  show ?thesis
  proof (rule lease_okI [OF ok, of "hs s'" s' "map AClose ss @ r" t sid])
    show "drops_ok (used s') (hbus (hs s')) (map AClose ss @ r)"
      using lease_okD(2) [OF ok snap(2)] by (simp add: snap(1) drops_Cons drops_dropless)
    show "cared s' i" if i: "inflight (hbus (hs s')) i \<noteq> None" for i
    proof (rule cared_keep [of s])
      show "cared s i" using lease_okD(1) [OF ok] i by (simp add: snap(1))
      show "\<exists>t sid p. thr s' t = Some (sid, p) \<and> i \<in> duty p" if "thr s t' = Some (u, q)" "i \<in> duty q" for t' u q
        by (rule other_duty [OF snap(2) _ _ that]) (auto simp: d snap(1))
    qed (simp_all add: snap(1))
  qed (simp_all add: snap(1))
next
  case (finish t sid)
  have "cared s' i" if i: "inflight (hbus (hs s')) i \<noteq> None" for i
  proof (rule cared_keep [of s])
    show "cared s i" using lease_okD(1) [OF ok] i by (simp add: finish(1))
    show "\<exists>t sid p. thr s' t = Some (sid, p) \<and> i \<in> duty p" if "thr s t' = Some (u, q)" "i \<in> duty q" for t' u q
      using that finish(2) by (intro exI [of _ t'] exI [of _ u] exI [of _ q]) (auto simp: finish(1))
  qed (simp_all add: finish(1))
  then show ?thesis using ok unfolding lease_ok_def by (auto simp: finish(1) split: if_splits)
next
  case (begin_go t sid p)
  show ?thesis
  proof (rule lease_okI [OF ok, of "hs s'" s' p t sid])
    show "drops_ok (used s') (hbus (hs s')) p" by (rule drops_dropless [OF starts_dropless [OF begin_go(4)]])
    show "cared s' i" if i: "inflight (hbus (hs s')) i \<noteq> None" for i
    proof (rule cared_keep [of s])
      show "cared s i" using lease_okD(1) [OF ok] i by (simp add: begin_go(1))
      show "\<exists>t sid p. thr s' t = Some (sid, p) \<and> i \<in> duty p" if "thr s t' = Some (u, q)" "i \<in> duty q" for t' u q
        using that begin_go(2) by (intro exI [of _ t'] exI [of _ u] exI [of _ q]) (auto simp: begin_go(1))
    qed (simp_all add: begin_go(1))
  qed (simp_all add: begin_go(1))
next
  case (connect e remote sid h')
  have h: "h' = snd (newSession e remote (hs s))" "sid = Suc (sids (hs s))" using connect(2) by (auto simp: newSession_def Let_def)
  have fresh: "sess (hs s) (Suc (sids (hs s))) = None"
    by (rule ccontr) (use lease_okD(3) [OF ok, of "Suc (sids (hs s))"] in simp)
  have "cared s' i" if i: "inflight (hbus (hs s')) i \<noteq> None" for i
  proof (rule cared_keep [of s])
    show "cared s i" using lease_okD(1) [OF ok] i by (simp add: connect(1) h newSession_def Let_def)
    show "listed (hs s') i" if l: "listed (hs s) i"
    proof -
      obtain u x where u: "sess (hs s) u = Some x" "\<not> s_closed x" "i \<in> set (s_inflight x)"
        using l by (auto simp: listed_def)
      then have "u \<noteq> Suc (sids (hs s))" using fresh by auto
      then have "sess (hs s') u = Some x" using u(1) by (simp add: connect(1) h newSession_def Let_def)
      then show ?thesis by (rule listedI) (use u in simp_all)
    qed
  qed (auto simp: connect(1))
  then show ?thesis using ok unfolding lease_ok_def by (auto simp: connect(1) h newSession_def Let_def le_SucI)
next
  case (sweep now od io b)
  note le = expire_inflight [OF sweep(2)]
  have gone: "inflight b i = None" if "inflight (hbus (hs s)) i = None" for i using le_dom [OF le] that by blast
  have "cared s' i" if i: "inflight (hbus (hs s')) i \<noteq> None" for i
  proof (rule cared_keep [of s])
    show "cared s i" by (rule lease_okD(1) [OF ok], rule notI) (use i gone [of i] in \<open>simp add: sweep(1)\<close>)
  qed (auto simp: sweep(1))
  moreover have "drops_ok (used s) b p" if "thr s t = Some (sid, p)" for t sid p
    by (rule drops_mono [OF lease_okD(2) [OF ok that]]) (simp_all add: gone)
  ultimately show ?thesis using ok unfolding lease_ok_def by (simp add: sweep(1))
qed

lemma hub_reach_lease: "hub_reach s \<Longrightarrow> lease_ok s"
proof (induction rule: hub_reach.induct)
  case (hub_start b)
  then show ?case by (simp add: lease_ok_def init_hub_def newHub_def)
next
  case (hub_next s s')
  show ?case by (rule lease_ok_step [OF hub_next(3) hub_reach_bus [OF hub_next(1)] hub_next(2)])
qed

end
