(* ===== verification/Hub_Requests.thy ===== *)
theory Hub_Requests
  imports Hub_Leases
begin

text \<open>
  Requests and their answers in every interleaving: what the pending table holds, and where the
  answer of a worker goes.
\<close>

text \<open>A slot of the pending table belongs to a request that its session made.\<close>

definition slot_ok :: "(nat \<times> string) set \<Rightarrow> string \<Rightarrow> pendingReq \<Rightarrow> bool" where
  "slot_ok q k p \<longleftrightarrow> k = scopedID (p_sess p) (p_client p) \<and> p_client p \<noteq> '''' \<and> (p_sess p, p_client p) \<in> q"

text \<open>A goroutine that is about to send an answer sends it to a session that asked.\<close>

definition rep_ok :: "(nat \<times> string) set \<Rightarrow> nat \<Rightarrow> frame \<Rightarrow> bool" where
  "rep_ok q t g \<longleftrightarrow> (f_op g = OpRep \<longrightarrow> (t, f_id g) \<in> q)"

fun fits :: "(nat \<times> string) set \<Rightarrow> act \<Rightarrow> bool" where
  "fits q (ARepSend f p) = slot_ok q (f_id f) p"
| "fits q (AReply t g good bad) = (rep_ok q t g \<and> list_all (fits q) good \<and> list_all (fits q) bad)"
| "fits q (AHeader t g good bad) = (rep_ok q t g \<and> list_all (fits q) good \<and> list_all (fits q) bad)"
| "fits q (ABody t g good bad) = (rep_ok q t g \<and> list_all (fits q) good \<and> list_all (fits q) bad)"
| "fits q _ = True"

lemma fits_mono: "fits q a \<Longrightarrow> q \<subseteq> q' \<Longrightarrow> fits q' a"
  by (induction q a rule: fits.induct) (auto simp: slot_ok_def rep_ok_def list_all_iff)

lemma fits_all_mono: "list_all (fits q) p \<Longrightarrow> q \<subseteq> q' \<Longrightarrow> list_all (fits q') p"
  using fits_mono by (auto simp: list_all_iff)

lemma rep_other [simp]: "f_op g \<noteq> OpRep \<Longrightarrow> rep_ok q t g"
  by (simp add: rep_ok_def)

lemma frame_ops [simp]:
  "f_op (err_frame i x) \<noteq> OpRep" "f_op (ok_frame f) \<noteq> OpRep" "f_op (msgFrame i m) \<noteq> OpRep" "f_op (job_out k f d) \<noteq> OpRep"
  "OpPong \<noteq> OpRep" "OpPing \<noteq> OpRep" "OpErr \<noteq> OpRep"
  by (auto simp: err_frame_def ok_frame_def msgFrame_def job_out_def reserveFrame_def jobFrame_def Let_def op_defs)

lemma fits_respond [simp]: "list_all (fits q) (complain sid f x)" "f_op out \<noteq> OpRep \<Longrightarrow> list_all (fits q) (respond sid f out)"
  by (simp_all add: complain_def respond_def)

lemma fits_maps [simp]: "list_all (fits q) (map AUnsub us)" "list_all (fits q) (map ANack ns)" "list_all (fits q) (map AClose cs)"
  by (simp_all add: list_all_iff)

lemma fits_job [simp]: "list_all (fits q) (job_acts sid k f d)"
  by (simp add: job_acts_def)

lemma starts_fits: "starts sid p \<Longrightarrow> list_all (fits q) p"
  by (induction rule: starts.induct) (simp_all add: frame_acts_def)

definition pend_ok :: "(nat \<times> string) set \<Rightarrow> hub \<Rightarrow> bool" where
  "pend_ok q h \<longleftrightarrow> (\<forall>k p. pending h k = Some p \<longrightarrow> slot_ok q k p)"

definition outs :: "hub \<Rightarrow> nat \<rightharpoonup> frame list" where
  "outs h u = map_option s_out (sess h u)"

definition outs_ok :: "(nat \<times> string) set \<Rightarrow> hub \<Rightarrow> bool" where
  "outs_ok q h \<longleftrightarrow> (\<forall>u fs. outs h u = Some fs \<longrightarrow> list_all (rep_ok q u) fs)"

subsection \<open>One section\<close>

lemma step_pending:
  assumes st: "act_step e sid a h = Some (new, h')" and a: "\<forall>f. a \<noteq> AReqPend f"
  shows "pending h' \<subseteq>\<^sub>m pending h"
proof (cases a)
  case (ATake k f)
  then obtain x b where "takeStart (e_now e) (e_ord e) (e_io e) (f_name f) (hbus h) = Some (x, b)"
    using st by (auto simp: bind_eq_Some_conv)
  then show ?thesis using st ATake by (cases x) auto
qed (use assms in \<open>auto simp: Let_def bind_eq_Some_conv upd_sess_def touch_def dropInflight_def map_le_def
      takeRepAck_def dropRepAck_def trackInflight_def trackRepAck_def claimInflight_def clearPending_def
      split: if_splits option.splits prod.splits sum.splits recv.splits bool.splits\<close>)

lemma step_pend_ok:
  assumes st: "act_step e sid a h = Some (new, h')" and p: "pend_ok q h"
  shows "pend_ok (add_asked sid a q) h'"
proof (cases "\<exists>f. a = AReqPend f")
  case True
  then obtain f where a: "a = AReqPend f" by blast
  show ?thesis
  proof (cases "f_id f = ''''")
    case True
    then show ?thesis using st p by (simp add: a add_asked_def)
  next
    case False
    have le: "pending (expirePendingLocked now h) \<subseteq>\<^sub>m pending h" for now
      by (auto simp: expirePendingLocked_def map_le_def split: option.splits if_splits)
    have old: "slot_ok (insert (sid, f_id f) q) k r" if "pending (expirePendingLocked now h) k = Some r" for now k r
    proof -
      have "pending h k = Some r" using le [of now] that by (metis domI map_le_def)
      then show ?thesis using p by (auto simp: pend_ok_def slot_ok_def)
    qed
    have "slot_ok (insert (sid, f_id f) q) (scopedID sid (f_id f)) \<lparr>p_sess = sid, p_client = f_id f, p_expires = x\<rparr>" for x
      using False by (simp add: slot_ok_def)
    then show ?thesis using st False old by (auto simp: a add_asked_def pend_ok_def Let_def split: if_splits)
  qed
next
  case False
  then have "add_asked sid a q = q" by (auto simp: add_asked_def split: act.split)
  moreover have "pend_ok q h'" unfolding pend_ok_def
  proof (intro allI impI)
    fix k r
    assume "pending h' k = Some r"
    then have "pending h k = Some r" using step_pending [OF st] False by (metis domI map_le_def)
    then show "slot_ok q k r" using p by (simp add: pend_ok_def)
  qed
  ultimately show ?thesis by simp
qed

lemma outs_simps [simp]:
  "outs (h\<lparr>hbus := b\<rparr>) = outs h" "outs (h\<lparr>pending := x\<rparr>) = outs h" "outs (h\<lparr>registered := y\<rparr>) = outs h"
  by (simp_all add: outs_def fun_eq_iff)

lemma outs_upd [simp]:
  assumes "\<And>s. s_out (f s) = s_out s"
  shows "outs (upd_sess sid f h) = outs h"
  using assms by (auto simp: outs_def upd_sess_def fun_eq_iff option.map_comp comp_def)

lemma outs_body: "outs (upd_sess t (\<lambda>s. s\<lparr>s_out := s_out s @ [f]\<rparr>) h) =
    (outs h)(t := map_option (\<lambda>fs. fs @ [f]) (outs h t))"
  by (auto simp: outs_def upd_sess_def fun_eq_iff option.map_comp comp_def)

lemma step_outs:
  assumes st: "act_step e sid a h = Some (new, h')" and a: "\<forall>t f g b. a \<noteq> ABody t f g b"
  shows "outs h' = outs h"
proof (cases a)
  case (ATake k f)
  then obtain x b where "takeStart (e_now e) (e_ord e) (e_io e) (f_name f) (hbus h) = Some (x, b)"
    using st by (auto simp: bind_eq_Some_conv)
  then show ?thesis using st ATake by (cases x) auto
qed (use assms in \<open>auto simp: Let_def bind_eq_Some_conv touch_def dropInflight_def expirePendingLocked_def
      takeRepAck_def dropRepAck_def trackInflight_def trackRepAck_def claimInflight_def clearPending_def
      split: if_splits option.splits prod.splits sum.splits recv.splits bool.splits\<close>)

lemma step_outs_ok:
  assumes st: "act_step e sid a h = Some (new, h')" and f: "fits q a" and o1: "outs_ok q h"
  shows "outs_ok q h'"
proof (cases "\<exists>t f g b. a = ABody t f g b")
  case True
  then obtain t f g b where a: "a = ABody t f g b" by blast
  show ?thesis using st f o1
    by (auto simp: a outs_ok_def outs_body list_all_iff split: if_splits)
next
  case False
  then show ?thesis using step_outs [OF st] o1 by (simp add: outs_ok_def)
qed

lemma outs_mono: "outs_ok q h \<Longrightarrow> q \<subseteq> q' \<Longrightarrow> outs_ok q' h"
  unfolding outs_ok_def rep_ok_def list_all_iff by blast

lemma step_fits:
  assumes st: "act_step e sid a h = Some (new, h')" and f: "fits q a" and p: "pend_ok q h"
  shows "list_all (fits q) new"
proof (cases a)
  case (ATake k g)
  then obtain x b where "takeStart (e_now e) (e_ord e) (e_io e) (f_name g) (hbus h) = Some (x, b)"
    using st by (auto simp: bind_eq_Some_conv)
  then show ?thesis using st ATake by (cases x) auto
next
  case (ARepSend g r)
  then have "(p_sess r, p_client r) \<in> q" using f by (simp add: slot_ok_def)
  then show ?thesis using st ARepSend by (auto simp: rep_ok_def)
next
  case (ARepDest g)
  then show ?thesis using st p by (auto simp: pend_ok_def split: option.splits)
qed (use assms in \<open>auto simp: Let_def bind_eq_Some_conv
      split: if_splits option.splits prod.splits sum.splits recv.splits bool.splits\<close>)

subsection \<open>The invariant\<close>

definition req_ok :: "hsys \<Rightarrow> bool" where
  "req_ok s \<longleftrightarrow> pend_ok (asked s) (hs s) \<and> outs_ok (asked s) (hs s) \<and>
     (\<forall>t sid p. thr s t = Some (sid, p) \<longrightarrow> list_all (fits (asked s)) p) \<and>
     (\<forall>u i. (u, i) \<in> asked s \<longrightarrow> sess (hs s) u \<noteq> None)"

lemma req_okD:
  assumes "req_ok s"
  shows "pend_ok (asked s) (hs s)" "outs_ok (asked s) (hs s)" "thr s t = Some (sid, p) \<Longrightarrow> list_all (fits (asked s)) p"
    "(u, i) \<in> asked s \<Longrightarrow> sess (hs s) u \<noteq> None"
  using assms by (auto simp: req_ok_def)

lemma req_okI:
  assumes ok: "req_ok s" and q: "asked s \<subseteq> asked s'" and "pend_ok (asked s') (hs s')" and "outs_ok (asked s') (hs s')"
    and p: "list_all (fits (asked s')) p" and d: "dom (sess (hs s)) \<subseteq> dom (sess (hs s'))"
    and n: "\<And>u i. (u, i) \<in> asked s' \<Longrightarrow> (u, i) \<notin> asked s \<Longrightarrow> sess (hs s') u \<noteq> None"
    and t: "thr s' = (thr s)(t \<mapsto> (sid, p))"
  shows "req_ok s'"
proof -
  have "list_all (fits (asked s')) r" if "thr s' t' = Some (u, r)" for t' u r
    using that p fits_all_mono [OF req_okD(3) [OF ok] q] by (auto simp: t split: if_splits)
  moreover have "sess (hs s') u \<noteq> None" if "(u, i) \<in> asked s'" for u i
    using that n req_okD(4) [OF ok] d by (cases "(u, i) \<in> asked s") blast+
  ultimately show ?thesis using assms(3,4) unfolding req_ok_def by blast
qed

lemma req_ok_step:
  assumes ok: "req_ok s" and go: "go_ok s" and st: "hub_step s s'"
  shows "req_ok s'"
  using st
proof cases
  case (go t sid a r e new h')
  have q: "asked s \<subseteq> add_asked sid a (asked s)" by (auto simp: add_asked_def split: act.split)
  have f: "fits (asked s) a" "list_all (fits (asked s)) r" using req_okD(3) [OF ok go(2)] by simp_all
  show ?thesis
  proof (rule req_okI [OF ok, where p = "new @ r" and t = t and sid = sid])
    show "list_all (fits (asked s')) (new @ r)"
      using fits_all_mono [OF step_fits [OF go(4) f(1) req_okD(1) [OF ok]] q] fits_all_mono [OF f(2) q] by (simp add: go(1))
    show "sess (hs s') u \<noteq> None" if "(u, i) \<in> asked s'" "(u, i) \<notin> asked s" for u i
    proof -
      have "u = sid \<and> \<not> is_stop a" using that by (auto simp: go(1) add_asked_def is_stop_def split: act.splits if_splits)
      then show ?thesis using go_okD(2) [OF assms(2) go(2)] step_sess [OF go(4)] by (auto simp: go(1))
    qed
  qed (use q step_pend_ok [OF go(4) req_okD(1) [OF ok]] outs_mono [OF step_outs_ok [OF go(4) f(1) req_okD(2) [OF ok]] q]
      step_sess [OF go(4)] in \<open>simp_all add: go(1)\<close>)
next
  case (cancelled t sid k f ch r io)
  show ?thesis
    by (rule req_okI [OF ok, where p = "complain sid f (HBus ErrCtx) @ r" and t = t and sid = sid])
      (use req_okD(1,2) [OF ok] req_okD(3) [OF ok cancelled(2)] in \<open>simp_all add: cancelled(1) pend_ok_def outs_ok_def\<close>)
next
  case (snap t sid r ss)
  show ?thesis
    by (rule req_okI [OF ok, where p = "map AClose ss @ r" and t = t and sid = sid])
      (use req_okD(1,2) [OF ok] req_okD(3) [OF ok snap(2)] in \<open>simp_all add: snap(1) pend_ok_def outs_ok_def\<close>)
next
  case (finish t sid)
  then show ?thesis using ok by (auto simp: req_ok_def split: if_splits)
next
  case (begin_go t sid p)
  show ?thesis
    by (rule req_okI [OF ok, where p = p and t = t and sid = sid])
      (use req_okD(1,2) [OF ok] starts_fits [OF begin_go(4)] in \<open>simp_all add: begin_go(1)\<close>)
next
  case (connect e remote sid h')
  have h: "pending h' = pending (hs s)" "outs h' = (outs (hs s))(sid \<mapsto> [])" "sess h' u = None \<Longrightarrow> sess (hs s) u = None" for u
    using connect(2) by (auto simp: newSession_def Let_def outs_def fun_eq_iff split: if_splits)
  have "outs_ok (asked s) h'" using req_okD(2) [OF ok] by (auto simp: outs_ok_def h(2))
  moreover have "sess h' u \<noteq> None" if "(u, i) \<in> asked s" for u i using req_okD(4) [OF ok that] h(3) [of u] by metis
  ultimately show ?thesis using ok h(1) unfolding req_ok_def by (simp add: connect(1) pend_ok_def)
next
  case (sweep now od io b)
  then show ?thesis using ok by (simp add: req_ok_def pend_ok_def outs_ok_def)
qed

lemma hub_reach_req: "hub_reach s \<Longrightarrow> req_ok s"
proof (induction rule: hub_reach.induct)
  case (hub_start b)
  then show ?case by (simp add: req_ok_def init_hub_def newHub_def pend_ok_def outs_ok_def outs_def)
next
  case (hub_next s s')
  show ?case by (rule req_ok_step [OF hub_next(3) hub_reach_bus [OF hub_next(1)] hub_next(2)])
qed

end
