(* ===== verification/Hub_System_Props.thy ===== *)
theory Hub_System_Props
  imports Hub_Requests Job_Delivery
begin

text \<open>
  What holds of the hub in every interleaving of its goroutines: it refines the bus, no section
  panics or blocks under a mutex, every lease has somebody who will give it back, and what two
  writers can do to one connection.
\<close>

subsection \<open>Refinement\<close>


subsection \<open>No section panics\<close>

lemma requeue_total: "bus_inv b \<Longrightarrow> \<exists>r. requeue io m b = Some r"
  by (cases "closed b \<or> m_name m = []") (auto simp: requeue_def intro: requeue_moves [of b m io])

text \<open>C4 (no panic in any interleaving). Whatever section any goroutine of the hub makes next, in any
  reachable state and with any values from outside, it completes: no send on a closed channel, no
  second close, no goroutine blocked while it holds a mutex.\<close>

theorem sections_complete:
  assumes s: "hub_reach s" and t: "thr s t = Some (sid, a # r)" and e: "env_ok e a s"
  shows "\<exists>new h'. act_step e sid a (hs s) = Some (new, h')"
proof -
  note ok = hub_reach_ok [OF s]
  note inv = bus_okD(1) [OF ok] and ps = bus_okD(2) [OF ok]
  have put: "\<exists>r. put now nid io n m (hbus (hs s)) = Some r" for now nid io n m by (rule put_moves [OF inv]) blast
  have take: "\<exists>r. takeStart now od io n (hbus (hs s)) = Some r" for now od io n
    by (rule takeChan_moves [OF inv, of now od io n]) (auto simp: takeStart_def)
  have nack: "\<exists>r. nack io i (hbus (hs s)) = Some r" for io i by (rule nack_bus_ok [OF ok]) blast
  have sub: "\<exists>r. sub od p (hbus (hs s)) = Some r" for od p by (rule sub_ok [OF inv ps]) blast
  have unsub: "\<exists>r. unsub ch (hbus (hs s)) = Some r" for ch by (rule unsub_ok [OF inv ps]) blast
  have req: "\<exists>r. requeue io m (hbus (hs s)) = Some r" for io m by (rule requeue_total [OF inv])
  have cl: "\<exists>r. closeBus od (hbus (hs s)) = Some r" for od by (rule closeBus_ok [OF inv ps]) blast
  show ?thesis
  proof (cases a)
    case (APub f)
    have "dom (lastv (hbus (hs s))) \<noteq> {} \<longrightarrow> e_victim e \<in> dom (lastv (hbus (hs s)))" using e by (simp add: APub env_ok_def)
    then obtain z where "pub (e_now e) (e_victim e) (f_name f) (client_msg_of sid (f_id f) f (hs s)) (hbus (hs s)) = Some z"
      by (rule pub_ok [OF inv ps]) blast
    then show ?thesis by (simp add: APub)
  qed (use put take nack sub unsub req cl in
    \<open>auto simp: Let_def bind_eq_Some_conv split: option.splits prod.splits sum.splits recv.splits bool.splits\<close>)
qed

subsection \<open>Concrete executions\<close>

text \<open>Sections in a given order, each with its values from outside; a goroutine at its end
  finishes.\<close>

fun sched :: "(nat \<times> env) list \<Rightarrow> hsys \<Rightarrow> hsys option" where
  "sched [] s = Some s"
| "sched ((t, e) # xs) s = (case thr s t of
     None \<Rightarrow> None
   | Some (sid, []) \<Rightarrow> sched xs (s\<lparr>thr := (thr s)(t := None)\<rparr>)
   | Some (sid, a # r) \<Rightarrow> (if env_ok e a s then (case act_step e sid a (hs s) of
         None \<Rightarrow> None
       | Some (new, h') \<Rightarrow> sched xs (s\<lparr>hs := h', thr := (thr s)(t \<mapsto> (sid, new @ r)), conn := emit e a (hs s) (conn s),
           used := take_id e a (used s), orphans := add_orphan sid a (hs s) (orphans s), asked := add_asked sid a (asked s)\<rparr>)) else None))"

lemma sched_steps: "sched xs s = Some s' \<Longrightarrow> hub_step\<^sup>*\<^sup>* s s'"
proof (induction xs s rule: sched.induct)
  case (2 t e xs s)
  obtain sid p where t: "thr s t = Some (sid, p)" using "2.prems" by (cases "thr s t") auto
  show ?case
  proof (cases p)
    case Nil
    then have "sched xs (s\<lparr>thr := (thr s)(t := None)\<rparr>) = Some s'" using "2.prems" t by simp
    then have "hub_step\<^sup>*\<^sup>* (s\<lparr>thr := (thr s)(t := None)\<rparr>) s'" using "2.IH" t Nil by simp
    moreover have "hub_step s (s\<lparr>thr := (thr s)(t := None)\<rparr>)" by (rule finish) (simp add: t Nil)
    ultimately show ?thesis by (rule converse_rtranclp_into_rtranclp [rotated])
  next
    case (Cons a r)
    obtain new h' where a: "env_ok e a s" "act_step e sid a (hs s) = Some (new, h')"
      using "2.prems" t Cons by (auto split: if_splits option.splits)
    let ?s = "s\<lparr>hs := h', thr := (thr s)(t \<mapsto> (sid, new @ r)), conn := emit e a (hs s) (conn s),
           used := take_id e a (used s), orphans := add_orphan sid a (hs s) (orphans s), asked := add_asked sid a (asked s)\<rparr>"
    have "sched xs ?s = Some s'" using "2.prems" t Cons a by simp
    then have "hub_step\<^sup>*\<^sup>* ?s s'" using "2.IH" t Cons a by simp
    moreover have "hub_step s ?s" by (rule go) (simp_all add: t Cons a)
    ultimately show ?thesis by (rule converse_rtranclp_into_rtranclp [rotated])
  qed
qed simp

lemma reach_steps: "hub_step\<^sup>*\<^sup>* s s' \<Longrightarrow> hub_reach s \<Longrightarrow> hub_reach s'"
  by (induction rule: rtranclp_induct) (auto intro: hub_next)

text \<open>A session is connected to the bus that has one job, with the goroutines \<open>T\<close> started for it.\<close>

definition run0 :: "(nat \<rightharpoonup> nat \<times> act list) \<Rightarrow> hsys" where
  "run0 T = \<lparr>hs = hub0, thr = T, conn = (\<lambda>_. []), used = {}, orphans = {}, asked = {}\<rparr>"

lemma run0_fields [simp]:
  "hs (run0 T) = hub0" "thr (run0 T) = T" "conn (run0 T) = (\<lambda>_. [])" "used (run0 T) = {}" "orphans (run0 T) = {}"
  by (simp_all add: run0_def)

lemma init_bus_a: "init_bus bus_a"
  using bus_a_inv bus_a_ok by (simp add: init_bus_def bus_ok_def wake_ok_def jobs_def held_bus_a transit_def job_a_def)

lemma run0_reach: "hub_reach (run0 Map.empty)"
proof -
  have "newSession env0 ''peer'' (hs (init_hub bus_a)) = (1, hub0)"
    by (simp add: init_hub_def hub0_def newSession_def newHub_def Let_def)
  from hub_next [OF hub_start [OF init_bus_a] connect [OF this]] show ?thesis
    by (simp add: init_hub_def run0_def)
qed

lemma run0_more:
  assumes "hub_reach (run0 T)" and "T t = None" and "starts 1 p"
  shows "hub_reach (run0 (T(t \<mapsto> (1, p))))"
proof -
  have "hub_step (run0 T) (run0 T\<lparr>thr := (thr (run0 T))(t \<mapsto> (1, p))\<rparr>)"
    by (rule begin_go) (use assms in simp_all)
  then show ?thesis using hub_next [OF assms(1)] by (simp add: run0_def)
qed

text \<open>One goroutine has taken the job for a \<open>ready\<close> and has still to track its delivery.\<close>

definition ask :: frame where
  "ask = no_frame\<lparr>f_op := OpReady, f_id := ''r'', f_name := ''work''\<rparr>"

definition d_L :: delivery where
  "d_L = \<lparr>d_id = ''L'', d_msg = job_a, d_expires = 60000000005\<rparr>"

lemma d_L_id [simp]: "d_id d_L = ''L''"
  by (simp add: d_L_def)

lemma takeLease_hub0: "takeLease hub0 = ns_minute"
  by (simp add: takeLease_def ns_minute_def ns_second_def wrap64_def)

definition taken_a :: bus where
  "taken_a = bus_a\<lparr>boxes := [''work'' \<mapsto> \<lparr>bq = [], bwaiters = []\<rparr>],
     dedup := indexDelLocked job_a (indexAddLocked job_a Map.empty), nextT := 1,
     tchan := [0 \<mapsto> \<lparr>buf = [job_a], chClosed = True\<rparr>]\<rparr>"

lemma take_a: "takeStart 5 [] True ''work'' bus_a = Some (Inr 0, taken_a)"
  by (simp add: takeStart_def takeChan_def taken_a_def Let_def boxLocked_def pop_front_def persistLocked_def
      index_del_def set_q_def alloc_full_def box_of_def)

lemma recv_a: "takeRecv 0 taken_a = (Some (Inr job_a), taken_a\<lparr>tchan := [0 \<mapsto> \<lparr>buf = [], chClosed = True\<rparr>]\<rparr>)"
  by (simp add: takeRecv_def taken_a_def ch_recv_def)

lemma hold_a: "hold 5 ''L'' True job_a ns_minute (taken_a\<lparr>tchan := [0 \<mapsto> \<lparr>buf = [], chClosed = True\<rparr>]\<rparr>) =
   (Inr d_L, index_add job_a (taken_a\<lparr>tchan := [0 \<mapsto> \<lparr>buf = [], chClosed = True\<rparr>], inflight := [''L'' \<mapsto> d_L]\<rparr>))"
  by (simp add: hold_def taken_a_def index_add_def persistLocked_def d_L_def lease_or_default_def ns_minute_def
      ns_second_def) (simp add: job_a_def Let_def)

definition ready_go :: "nat \<rightharpoonup> nat \<times> act list" where
  "ready_go = [0 \<mapsto> (1, frame_acts 1 ask), 1 \<mapsto> (1, [AClose 1, AUnreg 1])]"

lemma ready_go_reach: "hub_reach (run0 ready_go)"
  unfolding ready_go_def
  by (rule run0_more [OF run0_more [OF run0_reach _ s_frame]]) (simp_all add: s_end)

lemma touch0 [simp]: "touch env0 1 hub0 = hub0" "touch env0 (Suc 0) hub0 = hub0"
  by (simp_all add: touch_def upd_sess_def hub.equality)

lemma takeLease_bus [simp]: "takeLease (h\<lparr>hbus := b\<rparr>) = takeLease h"
  by (simp add: takeLease_def Let_def)

definition hub_h :: hub where
  "hub_h = hub0\<lparr>hbus := index_add job_a (taken_a\<lparr>tchan := [0 \<mapsto> \<lparr>buf = [], chClosed = True\<rparr>], inflight := [''L'' \<mapsto> d_L]\<rparr>)\<rparr>"

lemma hub_h_fields [simp]:
  "sess hub_h = sess hub0" "pending hub_h = Map.empty" "registered hub_h = {1}"
  "inflight (hbus hub_h) = [''L'' \<mapsto> d_L]"
  by (simp_all add: hub_h_def index_add_def)

definition run_held :: hsys where
  "run_held = \<lparr>hs = hub_h, thr = [0 \<mapsto> (1, job_acts 1 KReady ask d_L), 1 \<mapsto> (1, [AClose 1, AUnreg 1])],
     conn = (\<lambda>_. []), used = {''L''}, orphans = {}, asked = {}\<rparr>"

lemma sched_held: "sched [(0, env0), (0, env0), (0, env0), (0, env0)] (run0 ready_go) = Some run_held"
  by (simp add: run0_def run_held_def ready_go_def frame_acts_def ask_def env_ok_def take_a recv_a hold_a job_lease_def
      takeLease_hub0 take_id_def add_orphan_def add_asked_def emit_def op_defs hub_h_def fun_upd_twist)

lemma held_reach: "hub_reach run_held"
  by (rule reach_steps [OF sched_steps [OF sched_held] ready_go_reach])

lemma held_fields [simp]:
  "hs run_held = hub_h" "orphans run_held = {}" "thr run_held 0 = Some (1, ATrack ''L'' # tl (job_acts 1 KReady ask d_L))"
  by (simp_all add: run_held_def job_acts_def d_L_def)


theorem sections_complete_witness: "\<exists>new h'. act_step env0 1 (ATrack ''L'') hub_h = Some (new, h')"
  using sections_complete [OF held_reach held_fields(3), of env0] by (simp add: env_ok_def)

subsection \<open>Every lease has somebody who gives it back\<close>



text \<open>The other goroutine now closes the session, and then the first one goes on.\<close>

lemma job_out_id [simp]: "f_id (job_out KReady ask d_L) = ''a''"
  by (simp add: job_out_def jobFrame_def msgFrame_def first_def d_L_def job_a_def no_frame_def Let_def)

definition hub_s :: hub where
  "hub_s = (upd_sess 1 (\<lambda>s. s\<lparr>s_closed := True\<rparr>) hub_h)\<lparr>registered := {}\<rparr>"

definition run_shut :: hsys where
  "run_shut = \<lparr>hs = hub_s, thr = [0 \<mapsto> (1, job_acts 1 KReady ask d_L)], conn = (\<lambda>_. []), used = {''L''}, orphans = {}, asked = {}\<rparr>"

lemma sched_shut: "sched [(1, env0), (1, env0), (1, env0), (1, env0)] run_held = Some run_shut"
  by (simp add: run_held_def run_shut_def env_ok_def take_id_def add_orphan_def add_asked_def emit_def upd_sess_def clearPending_def
      hub_s_def fun_upd_twist)

lemma hub_s_fields [simp]:
  "\<not> is_open 1 hub_s" "hbus hub_s = hbus hub_h"
  by (simp_all add: hub_s_def is_open_def upd_sess_def)

definition hub_t :: hub where
  "hub_t = trackRepAck 1 ''a'' ''L'' (trackInflight 1 ''L'' hub_s)"

lemma hub_t_sess: "\<exists>x. sess hub_t = [1 \<mapsto> x] \<and> s_closed x"
  by (simp add: hub_t_def hub_s_def trackRepAck_def trackInflight_def upd_sess_def)
    (rule exI, rule conjI, rule refl, simp)

lemma hub_t_fields [simp]:
  "\<not> is_open 1 hub_t" "hbus hub_t = hbus hub_h" "claimInflight 1 i (dropRepAck 1 k hub_t) = (False, dropRepAck 1 k hub_t)"
proof -
  obtain x where x: "sess hub_t = [1 \<mapsto> x]" "s_closed x" using hub_t_sess by blast
  show "\<not> is_open 1 hub_t" "claimInflight 1 i (dropRepAck 1 k hub_t) = (False, dropRepAck 1 k hub_t)"
    by (simp_all add: is_open_def x claimInflight_def dropRepAck_def upd_sess_def)
  show "hbus hub_t = hbus hub_h" by (simp add: hub_t_def trackRepAck_def trackInflight_def upd_sess_def)
qed

definition run_orphan :: hsys where
  "run_orphan = \<lparr>hs = dropRepAck 1 ''a'' hub_t, thr = Map.empty, conn = (\<lambda>_. []), used = {''L''}, orphans = {''L''}, asked = {}\<rparr>"

lemma sched_orphan: "sched [(0, env0), (0, env0), (0, env0), (0, env0), (0, env0), (0, env0)] run_shut = Some run_orphan"
  by (simp add: run_shut_def run_orphan_def env_ok_def take_id_def add_orphan_def add_asked_def emit_def job_acts_def
      hub_t_def [symmetric] del: One_nat_def)

text \<open>C33 (the exception happens). The exception is real: there is an execution in which the session ends between
  \<open>Hold\<close> and \<open>trackInflight\<close>; after it no goroutine runs, no session is open, and the job is
  still leased.\<close>

theorem orphan_happens:
  "\<exists>s. hub_reach s \<and> (\<forall>t. thr s t = None) \<and> (\<forall>u. \<not> is_open u (hs s)) \<and>
     inflight (hbus (hs s)) ''L'' = Some d_L \<and> orphans s = {''L''}"
proof -
  have "hub_reach run_orphan"
    by (rule reach_steps [OF sched_steps [OF sched_orphan] reach_steps [OF sched_steps [OF sched_shut] held_reach]])
  moreover obtain x where "sess hub_t = [1 \<mapsto> x]" "s_closed x" using hub_t_sess by blast
  ultimately show ?thesis
    by (intro exI [of _ run_orphan]) (simp add: run_orphan_def dropRepAck_def upd_sess_def is_open_def)
qed

subsection \<open>Two writers on one connection\<close>

lemma is_open_out [simp]: "is_open t (upd_sess u (\<lambda>s. s\<lparr>s_out := x s\<rparr>) h) = is_open t h"
  by (auto simp: is_open_def upd_sess_def split: option.split)

lemma emit_io [simp]:
  "emit e (AHeader t f good bad) h w = (if is_open t h \<and> e_write e t f
       then w(t := w t @ header (length (marshal (with_version f)))) else w)"
  "emit e (ABody t f good bad) h w = (if is_open t h \<and> e_write e t f
       then w(t := w t @ marshal (with_version f)) else w)"
  by (simp_all add: emit_def)

lemma io_simps [simp]:
  "env_ok e (AHeader t f good bad) s" "env_ok e (ABody t f good bad) s"
  "take_id e (AHeader t f good bad) u = u" "take_id e (ABody t f good bad) u = u"
  "add_orphan sid (AHeader t f good bad) h o1 = o1" "add_orphan sid (ABody t f good bad) h o1 = o1"
  "add_asked sid (AHeader t f good bad) q = q" "add_asked sid (ABody t f good bad) q = q"
  by (simp_all add: env_ok_def take_id_def add_orphan_def add_asked_def)

lemma good_bytes:
  assumes "good_frame f"
  shows "snd (write_frame True True f) = [header (length (marshal (with_version f))), marshal (with_version f)]"
  using assms by (auto simp: good_frame_def write_frame_def Let_def split: if_splits)

text \<open>C28 (two writers in one session). Whenever two goroutines are about to write to one open
  connection - an answer and a heartbeat, or two jobs - the hub can go on so that both frames are written one
  after the other, and so that both headers come before the bodies. In the first case the peer
  reads the first frame whole; in the second its read fails inside a frame, while the hub has
  reported both as sent.\<close>

theorem writers_corrupt:
  assumes o: "is_open c (hs s)" and t: "thr s t = Some (u, AHeader c f g1 b1 # r)"
    and t': "thr s t' = Some (u', AHeader c g g2 b2 # r')" and n: "t \<noteq> t'"
    and f: "good_frame f" and g: "good_frame g"
  shows "\<exists>s1 s2 w1 w2. hub_step\<^sup>*\<^sup>* s s1 \<and> conn s1 c = conn s c @ w1 \<and> fst (read_counted w1) = Inr (carried f) \<and>
    hub_step\<^sup>*\<^sup>* s s2 \<and> conn s2 c = conn s c @ w2 \<and> fst (read_counted w2) = Inl JsonError \<and>
    thr s1 t = Some (u, g1 @ r) \<and> thr s2 t = Some (u, g1 @ r) \<and> thr s1 t' = Some (u', g2 @ r') \<and> thr s2 t' = Some (u', g2 @ r')"
proof -
  let ?hf = "header (length (marshal (with_version f)))" and ?bf = "marshal (with_version f)"
  let ?hg = "header (length (marshal (with_version g)))" and ?bg = "marshal (with_version g)"
  note t [simp] and t' [simp] and o [simp] and n [simp] and n [symmetric, simp]
  have "\<exists>s1. sched [(t, env0), (t, env0), (t', env0), (t', env0)] s = Some s1 \<and> conn s1 c = conn s c @ ?hf @ ?bf @ ?hg @ ?bg \<and>
    thr s1 t = Some (u, g1 @ r) \<and> thr s1 t' = Some (u', g2 @ r')"
    by simp
  moreover have "\<exists>s2. sched [(t, env0), (t', env0), (t, env0), (t', env0)] s = Some s2 \<and> conn s2 c = conn s c @ ?hf @ ?hg @ ?bf @ ?bg \<and>
    thr s2 t = Some (u, g1 @ r) \<and> thr s2 t' = Some (u', g2 @ r')"
    by simp
  moreover have "fst (read_counted (?hf @ ?bf @ ?hg @ ?bg)) = Inr (carried f)"
    "fst (read_counted (?hf @ ?hg @ ?bf @ ?bg)) = Inl JsonError"
    using interleaved_writes [OF f g good_bytes [OF f] good_bytes [OF g]] by simp_all
  ultimately show ?thesis using sched_steps by blast
qed

text \<open>A peer that pings when it has been silent for one interval of the heartbeat.\<close>

definition ping_a :: frame where
  "ping_a = no_frame\<lparr>f_op := OpPing, f_id := ''p''\<rparr>"

definition pong_a :: frame where
  "pong_a = no_frame\<lparr>f_op := OpPong, f_id := ''p''\<rparr>"

definition beat_a :: frame where
  "beat_a = no_frame\<lparr>f_op := OpPing\<rparr>"

definition ping_go :: "nat \<rightharpoonup> nat \<times> act list" where
  "ping_go = [0 \<mapsto> (1, frame_acts 1 ping_a), 1 \<mapsto> (1, [ABeat])]"

definition run_two :: hsys where
  "run_two = \<lparr>hs = hub0, thr = [0 \<mapsto> (1, [AHeader 1 pong_a [] (complain 1 ping_a HWrite)]),
     1 \<mapsto> (1, [AHeader 1 beat_a [ABeat] [AClose 1]])], conn = (\<lambda>_. []), used = {}, orphans = {}, asked = {}\<rparr>"

lemma is_open0 [simp]: "is_open 1 hub0" "is_open (Suc 0) hub0"
  by (simp_all add: is_open_def)

lemma ping_acts: "frame_acts sid ping_a = [ATouch, AReply sid pong_a [] (complain sid ping_a HWrite)]"
  by (simp add: frame_acts_def ping_a_def pong_a_def respond_def op_defs)

lemma sched_two: "sched [(0, env0), (0, env0), (1, env0\<lparr>e_now := 5000000005\<rparr>), (1, env0)] (run0 ping_go) = Some run_two"
  by (simp add: run0_def run_two_def ping_go_def ping_acts env_ok_def take_id_def add_orphan_def add_asked_def emit_def
      wrap64_def beat_a_def)

lemma two_reach: "hub_reach run_two"
proof (rule reach_steps [OF sched_steps [OF sched_two]])
  show "hub_reach (run0 ping_go)"
    unfolding ping_go_def by (rule run0_more [OF run0_more [OF run0_reach _ s_frame]]) (simp_all add: s_beat)
qed

theorem writers_corrupt_witness:
  "\<exists>s1 s2 w1 w2. hub_reach s1 \<and> conn s1 1 = w1 \<and> fst (read_counted w1) = Inr (carried pong_a) \<and>
    hub_reach s2 \<and> conn s2 1 = w2 \<and> fst (read_counted w2) = Inl JsonError"
proof -
  have g: "good_frame pong_a" "good_frame beat_a"
    by (auto intro!: short_reply_good simp: pong_a_def beat_a_def no_frame_def OpPong_def OpPing_def)
  have o: "is_open 1 (hs run_two)" by (simp add: run_two_def)
  have t: "thr run_two 0 = Some (1, AHeader 1 pong_a [] (complain 1 ping_a HWrite) # [])"
    "thr run_two 1 = Some (1, AHeader 1 beat_a [ABeat] [AClose 1] # [])" "conn run_two 1 = []"
    by (simp_all add: run_two_def)
  from writers_corrupt [OF o t(1,2) zero_neq_one g] show ?thesis
    unfolding t(3) append_Nil using reach_steps [OF _ two_reach] by blast
qed

subsection \<open>Requests and answers\<close>

text \<open>C7 (the pending table). In every interleaving, every slot of the pending table stands under the key
  made of the session and the id it is for, belongs to a session of the hub, and was made by a
  request of that session with that id, which is not empty.\<close>

theorem pending_typed:
  assumes "hub_reach s" and "pending (hs s) k = Some p"
  shows "k = scopedID (p_sess p) (p_client p) \<and> p_client p \<noteq> '''' \<and> (p_sess p, p_client p) \<in> asked s \<and>
    sess (hs s) (p_sess p) \<noteq> None"
proof -
  note ok = hub_reach_req [OF assms(1)]
  have p: "slot_ok (asked s) k p" using req_okD(1) [OF ok] assms(2) by (simp add: pend_ok_def)
  then show ?thesis using req_okD(4) [OF ok] by (auto simp: slot_ok_def)
qed


text \<open>A request, and an answer to it.\<close>

definition req_a :: frame where
  "req_a = no_frame\<lparr>f_op := OpReq, f_id := ''q'', f_name := ''work'', f_text := ''hi''\<rparr>"

definition rep_a :: frame where
  "rep_a = no_frame\<lparr>f_op := OpRep, f_id := ''s1:q'', f_text := ''yo''\<rparr>"

definition slot_a :: pendingReq where
  "slot_a = \<lparr>p_sess = 1, p_client = ''q'', p_expires = 600000000005\<rparr>"

definition job_q :: msg where
  "job_q = \<lparr>m_id = ''s1:q'', m_name = ''work'', m_from = ''peer'', m_body = ''hi'', m_at = 5\<rparr>"

definition bus_q :: bus where
  "bus_q = bus_a\<lparr>boxes := [''work'' \<mapsto> \<lparr>bq = [job_a, job_q], bwaiters = []\<rparr>],
     dedup := indexAddLocked job_q (indexAddLocked job_a Map.empty)\<rparr>"

definition hub_q :: hub where
  "hub_q = hub0\<lparr>hbus := bus_q, pending := [''s1:q'' \<mapsto> slot_a]\<rparr>"

definition run_asked :: hsys where
  "run_asked = \<lparr>hs = hub_q, thr = [0 \<mapsto> (1, []), 1 \<mapsto> (1, frame_acts 1 rep_a)], conn = (\<lambda>_. []), used = {}, orphans = {},
     asked = {(1, ''q'')}\<rparr>"

lemma scoped_q: "scopedID 1 ''q'' = ''s1:q''"
  by code_simp

lemma put_q: "put 5 ''L'' True ''work'' (job_q\<lparr>m_name := '''', m_at := 0\<rparr>) bus_a = Some (None, bus_q)"
proof -
  have "stamp 5 ''L'' ''work'' (job_q\<lparr>m_name := '''', m_at := 0\<rparr>) = job_q" by (simp add: stamp_def job_q_def)
  moreover have "\<not> indexedLocked ''work'' ''s1:q'' (indexAddLocked job_a Map.empty)"
    by (simp add: job_a_def indexedLocked_def indexAddLocked_def dedupKey_def)
  ultimately show ?thesis
    by (simp add: put_def putLocked_def Let_def persistLocked_def index_add_def set_q_def boxLocked_def bus_q_def box_of_def)
      (simp add: job_q_def)
qed

lemma msg_q: "client_msg_of 1 ''s1:q'' req_a (hub0\<lparr>pending := x\<rparr>) = job_q\<lparr>m_name := '''', m_at := 0\<rparr>"
  by (simp add: client_msg_of_def s_from_def payload_def req_a_def job_q_def no_frame_def)

lemma req_acts: "frame_acts sid req_a = [ATouch, AReqPend req_a]" "f_id req_a = ''q''" "f_name req_a = ''work''"
  by (simp_all add: frame_acts_def req_a_def op_defs)

lemma expire0: "expirePendingLocked now hub0 = hub0"
  by (rule hub.equality) (simp_all add: expirePendingLocked_def)

lemma sched_asked: "sched [(0, env0), (0, env0), (0, env0)]
    (run0 [0 \<mapsto> (1, frame_acts 1 req_a), 1 \<mapsto> (1, frame_acts 1 rep_a)]) = Some run_asked"
proof -
  have t: "(5::int) + pendingTTL hub0 = 600000000005"
    by (simp add: pendingTTL_def DefaultPendingTTL_def ns_minute_def ns_second_def)
  show ?thesis
    by (simp add: run0_def run_asked_def req_acts scoped_q expire0 t msg_q put_q env_ok_def take_id_def add_orphan_def
      add_asked_def emit_def Let_def hub_q_def slot_a_def del: One_nat_def) (simp add: fun_upd_twist)
qed

lemma asked_reach: "hub_reach run_asked"
  by (rule reach_steps [OF sched_steps [OF sched_asked]])
    (rule run0_more [OF run0_more [OF run0_reach _ s_frame]]; simp add: s_frame)

theorem pending_typed_witness:
  "''s1:q'' = scopedID (p_sess slot_a) (p_client slot_a) \<and> p_client slot_a \<noteq> '''' \<and>
     (p_sess slot_a, p_client slot_a) \<in> asked run_asked \<and> sess (hs run_asked) (p_sess slot_a) \<noteq> None"
  by (rule pending_typed [OF asked_reach]) (simp add: run_asked_def hub_q_def)

definition ans_a :: frame where
  "ans_a = no_frame\<lparr>f_op := OpRep, f_id := ''q'', f_from := ''peer'', f_text := ''yo''\<rparr>"

lemma rep_acts: "frame_acts sid rep_a = [ATouch, ARepTake rep_a]" "f_id rep_a = ''s1:q''"
  by (simp_all add: frame_acts_def rep_a_def op_defs)

text \<open>The sections of the answer: its \<open>ok\<close> to the worker, then the answer to the client.\<close>

definition hub_ok :: hub where
  "hub_ok = upd_sess 1 (\<lambda>s. s\<lparr>s_out := s_out s @ [ok_frame rep_a]\<rparr>) (hub_q\<lparr>pending := Map.empty\<rparr>)"

definition hub_ans :: hub where
  "hub_ans = upd_sess 1 (\<lambda>s. s\<lparr>s_out := s_out s @ [ans_a]\<rparr>) hub_ok"

lemma touch_q: "touch env0 1 hub_q = hub_q"
  by (rule hub.equality) (simp_all add: hub_q_def touch_def upd_sess_def)

lemma rep_take_q: "takeRepAck 1 k hub_q = ('''', hub_q)"
  by (simp add: takeRepAck_def dropRepAck_def hub_q_def upd_sess_def)

lemma is_open_q [simp]: "is_open 1 hub_q" "is_open 1 (hub_q\<lparr>pending := x\<rparr>)" "is_open 1 hub_ok"
  by (simp_all add: hub_ok_def) (simp_all add: is_open_def hub_q_def)

lemma ans_step: "p_sess slot_a = 1" "no_frame\<lparr>f_op := OpRep, f_id := p_client slot_a, f_name := f_name rep_a,
    f_from := s_from 1 rep_a hub_ok, f_body := f_body rep_a, f_text := f_text rep_a\<rparr> = ans_a"
  by (simp_all add: slot_a_def rep_a_def ans_a_def no_frame_def s_from_def hub_ok_def hub_q_def upd_sess_def)

lemma sched_ans: "\<exists>s. sched [(1, env0), (1, env0), (1, env0), (1, env0), (1, env0), (1, env0), (1, env0), (1, env0), (1, env0), (1, env0)]
    run_asked = Some s \<and> hs s = hub_ans \<and> asked s = {(1, ''q'')}"
proof -
  have p: "pending hub_q = [''s1:q'' \<mapsto> slot_a]" by (simp add: hub_q_def)
  show ?thesis
    by (simp add: run_asked_def rep_acts touch_q rep_take_q p ans_step hub_ok_def [symmetric] hub_ans_def [symmetric]
      env_ok_def take_id_def add_orphan_def add_asked_def emit_def del: One_nat_def)
qed


end
