(* ===== verification/Node.thy ===== *)
theory Node
  imports Hub Store Addr
begin

text \<open>
  The sidecar (\<open>src/node.go\<close>): \<open>Serve\<close>, \<open>Join\<close>, what they open, the ports they serve, and
  \<open>Close\<close>.  Listening, tailcat and the mailbox file are outside: whether each call succeeds is
  the record \<open>nenv\<close>.  What a node holds open is its list of closers; the trace of \<open>nevent\<close>s
  is what it opened and closed, in order.
\<close>

definition MailboxPort :: "16 word" where "MailboxPort = 7"

record config =
  g_mailbox :: string
  g_heartbeat :: int
  g_listen :: string
  g_local :: bool
  g_forward :: "16 word list"

datatype closer = CListener | CHub | CSocketFile | CServer | CClient | CForward "16 word"

datatype nevent = Opened closer | Closed closer

record nenv =
  w_uid :: nat
  w_listen :: bool               \<comment> \<open>\<open>net.Listen\<close> on the local address\<close>
  w_store :: readres             \<comment> \<open>what reading the mailbox file gives\<close>
  w_bord :: "string list"
  w_iord :: "string list"
  w_start :: bool                \<comment> \<open>\<open>tailcat.Server.Start\<close>\<close>
  w_ping :: bool                 \<comment> \<open>\<open>tailcat.Client.Ping\<close>\<close>
  w_fwd :: "16 word \<Rightarrow> bool"     \<comment> \<open>\<open>net.Listen\<close> on a forwarded port\<close>
  w_token :: string              \<comment> \<open>\<open>ConnBlob\<close>\<close>
  w_close :: "closer \<Rightarrow> bool"     \<comment> \<open>which closers return nil\<close>

record node =
  n_hub :: "hub option"
  n_token :: string
  n_listen :: string
  n_closers :: "closer list"

datatype nerror = NAddr addr_error | NListen | NStorage gerr | NTailServe | NEmptyToken | NLocalJoin
  | NTailPing | NForward "16 word" | NClose closer

subsection \<open>Closing\<close>

definition addCloser :: "closer \<Rightarrow> node \<Rightarrow> node" where
  "addCloser c n = n\<lparr>n_closers := n_closers n @ [c]\<rparr>"

text \<open>The loop of \<open>Close\<close> over the closers from the last to the first; it returns the first error.\<close>

fun close_all :: "(closer \<Rightarrow> bool) \<Rightarrow> closer list \<Rightarrow> nerror option \<times> nevent list" where
  "close_all ok [] = (None, [])"
| "close_all ok (c # cs) = (case close_all ok cs of (e, tr) \<Rightarrow>
     (if ok c then e else Some (NClose c), Closed c # tr))"

definition node_close :: "nenv \<Rightarrow> node \<Rightarrow> nerror option \<times> node \<times> nevent list" where
  "node_close w n = (case close_all (w_close w) (rev (n_closers n)) of
     (e, tr) \<Rightarrow> (e, n\<lparr>n_closers := []\<rparr>, tr))"

subsection \<open>Serving\<close>

definition listen_addr :: "nenv \<Rightarrow> config \<Rightarrow> string" where
  "listen_addr w g = (if g_listen g = '''' then default_addr (w_uid w) else g_listen g)"

definition node_bus :: "nenv \<Rightarrow> config \<Rightarrow> gerr + bus" where
  "node_bus w g = (if g_mailbox g \<noteq> ''''
     then openPath (g_mailbox g) DefaultMaxQueue DefaultMaxBody (w_store w) (w_bord w) (w_iord w)
     else Inr newBus)"

definition node_hub :: "config \<Rightarrow> bus \<Rightarrow> hub" where
  "node_hub g b = (let h = newHub b in
     if g_heartbeat g < 0 then h\<lparr>heartbeat := 0\<rparr>
     else if 0 < g_heartbeat g then h\<lparr>heartbeat := g_heartbeat g\<rparr> else h)"

definition newLocal :: "nenv \<Rightarrow> config \<Rightarrow> (nerror + node) \<times> nevent list" where
  "newLocal w g =
     (case listen_calls (w_uid w) (listen_addr w g) of
        Inl e \<Rightarrow> (Inl (NAddr e), [])
      | Inr calls \<Rightarrow>
          if \<not> w_listen w then (Inl NListen, [])
          else (case node_bus w g of
              Inl e \<Rightarrow> (Inl (NStorage e), [Opened CListener, Closed CListener])
            | Inr b \<Rightarrow>
                (let n = \<lparr>n_hub = Some (node_hub g b), n_token = '''', n_listen = listen_addr w g, n_closers = []\<rparr>
                 in (Inr (addCloser CHub (addCloser CListener n)), [Opened CListener, Opened CHub]))))"

definition Serve :: "nenv \<Rightarrow> config \<Rightarrow> (nerror + node) \<times> nevent list" where
  "Serve w g =
     (case newLocal w g of
        (Inl e, tr) \<Rightarrow> (Inl e, tr)
      | (Inr n, tr) \<Rightarrow>
          if g_local g then (Inr n, tr)
          else if \<not> w_start w then (Inl NTailServe, tr @ snd (snd (node_close w n)))
          else (Inr (addCloser CServer (n\<lparr>n_token := w_token w\<rparr>)), tr @ [Opened CServer]))"

subsection \<open>Joining\<close>

text \<open>One listener per forwarded port; the first that fails closes the node.\<close>

fun join_forwards :: "nenv \<Rightarrow> 16 word list \<Rightarrow> node \<Rightarrow> nevent list \<Rightarrow> (nerror + node) \<times> nevent list" where
  "join_forwards w [] n tr = (Inr n, tr)"
| "join_forwards w (p # ps) n tr =
     (if \<not> w_fwd w p then (Inl (NForward p), tr @ snd (snd (node_close w n)))
      else join_forwards w ps (addCloser (CForward p) n) (tr @ [Opened (CForward p)]))"

definition Join :: "nenv \<Rightarrow> string \<Rightarrow> config \<Rightarrow> (nerror + node) \<times> nevent list" where
  "Join w token g =
     (if token = '''' then (Inl NEmptyToken, [])
      else if g_local g then (Inl NLocalJoin, [])
      else (case listen_calls (w_uid w) (listen_addr w g) of
        Inl e \<Rightarrow> (Inl (NAddr e), [])
      | Inr calls \<Rightarrow>
          if \<not> w_listen w then (Inl NListen, [])
          else
            (let n = \<lparr>n_hub = None, n_token = token, n_listen = listen_addr w g, n_closers = []\<rparr>;
                 n1 = addCloser CClient (addCloser CSocketFile (addCloser CListener n));
                 tr = [Opened CListener, Opened CSocketFile, Opened CClient]
             in if \<not> w_ping w then (Inl NTailPing, tr @ snd (snd (node_close w n1)))
                else join_forwards w (g_forward g) n1 tr)))"

subsection \<open>Ports\<close>

text \<open>A \<open>filter.PortRange\<close> with its first and last port.\<close>

definition portRanges :: "16 word list \<Rightarrow> (16 word \<times> 16 word) list" where
  "portRanges ps = map (\<lambda>p. (p, p)) ps"

fun containsPort :: "16 word list \<Rightarrow> 16 word \<Rightarrow> bool" where
  "containsPort [] p = False"
| "containsPort (x # xs) p = (x = p \<or> containsPort xs p)"

datatype handler = ServeHub | ForwardLocal "16 word"

text \<open>The server's \<open>ServedTCPPorts\<close> and \<open>OnTCP\<close>.\<close>

definition served_ranges :: "config \<Rightarrow> (16 word \<times> 16 word) list" where
  "served_ranges g = portRanges (MailboxPort # g_forward g)"

definition on_tcp :: "config \<Rightarrow> 16 word \<Rightarrow> handler option" where
  "on_tcp g p =
     (if p = MailboxPort then Some ServeHub
      else if \<not> containsPort (g_forward g) p then None
      else Some (ForwardLocal p))"

definition trimToken :: "string \<Rightarrow> string" where
  "trimToken s = (if length s < 16 then s else take 12 s @ [CHR 0xE2, CHR 0x80, CHR 0xA6])"

text \<open>How a client reaches the sidecar of a node.\<close>

definition listenDial :: "nat \<Rightarrow> string \<Rightarrow> addr_error + sys_call list" where
  "listenDial uid listen = dial_calls uid (if listen = '''' then default_addr uid else listen)"

subsection \<open>Splicing two connections\<close>

text \<open>
  \<open>splice\<close>: one goroutine per direction copies chunk by chunk, and \<open>splice\<close> returns when the
  first of them is done, after which its callers close both connections.  A direction has the
  bytes its sender has not been read yet, whether the sender ends the stream after them, the
  chunk that has been read and not written, and the bytes delivered.
\<close>

record pipe =
  p_src :: bytes
  p_eof :: bool
  p_chunk :: bytes
  p_dst :: bytes

datatype way = AB | BA

type_synonym spliced = "(way \<Rightarrow> pipe) \<times> bool"  \<comment> \<open>the two directions; both connections closed\<close>

inductive splice_step :: "spliced \<Rightarrow> spliced \<Rightarrow> bool" where
  copy_read: "p_chunk (P d) = [] \<Longrightarrow> 0 < k \<Longrightarrow> k \<le> length (p_src (P d)) \<Longrightarrow>
    splice_step (P, False)
      (P(d := (P d)\<lparr>p_src := drop k (p_src (P d)), p_chunk := take k (p_src (P d))\<rparr>), False)"
| copy_write: "p_chunk (P d) \<noteq> [] \<Longrightarrow>
    splice_step (P, False) (P(d := (P d)\<lparr>p_chunk := [], p_dst := p_dst (P d) @ p_chunk (P d)\<rparr>), False)"
| sender: "\<not> p_eof (P d) \<Longrightarrow> splice_step (P, False) (P(d := (P d)\<lparr>p_src := p_src (P d) @ s, p_eof := e\<rparr>), False)"
| copy_end: "p_chunk (P d) = [] \<Longrightarrow> p_src (P d) = [] \<Longrightarrow> p_eof (P d) \<Longrightarrow> splice_step (P, False) (P, True)"

inductive_cases splice_stepE: "splice_step x y"

end
