(* ===== verification/Node_Props.thy ===== *)
theory Node_Props
  imports Node
begin

text \<open>
  Properties of the sidecar: nothing it opened stays open after an error or after \<open>Close\<close>, the
  ports it advertises are the ports it handles, and what \<open>splice\<close> keeps and loses.
\<close>

subsection \<open>Resources\<close>

text \<open>A trace is well nested when every \<open>Closed\<close> ends the resource opened last.\<close>

fun open_after :: "nevent list \<Rightarrow> closer list \<Rightarrow> closer list option" where
  "open_after [] st = Some st"
| "open_after (Opened c # tr) st = open_after tr (c # st)"
| "open_after (Closed c # tr) st = (case st of
     [] \<Rightarrow> None
   | x # r \<Rightarrow> if x = c then open_after tr r else None)"

lemma open_after_append: "open_after (tr @ tr') st = Option.bind (open_after tr st) (open_after tr')"
  by (induction tr st rule: open_after.induct) (auto split: list.splits)

lemma close_all_trace: "open_after (snd (close_all ok cs)) (cs @ st) = Some st"
  by (induction cs) (auto split: prod.splits)

lemma node_close_trace: "open_after (snd (snd (node_close w n))) (rev (n_closers n)) = Some []"
  using close_all_trace [of "w_close w" "rev (n_closers n)" "[]"]
  by (cases "close_all (w_close w) (rev (n_closers n))") (simp add: node_close_def)

text \<open>What a start-up may return: an error with everything closed again, or a node with exactly its
  closers open.\<close>

definition tidy :: "(nerror + node) \<times> nevent list \<Rightarrow> bool" where
  "tidy r = (case r of
     (Inl e, tr) \<Rightarrow> open_after tr [] = Some []
   | (Inr n, tr) \<Rightarrow> open_after tr [] = Some (rev (n_closers n)))"

lemma tidy_error: "open_after tr [] = Some (rev (n_closers n)) \<Longrightarrow> tidy (Inl e, tr @ snd (snd (node_close w n)))"
  by (simp add: tidy_def open_after_append node_close_trace)

lemma tidy_more:
  "open_after tr [] = Some (rev (n_closers n)) \<Longrightarrow>
     open_after (tr @ [Opened c]) [] = Some (rev (n_closers (addCloser c n)))"
  by (simp add: open_after_append addCloser_def)

lemma newLocal_tidy: "tidy (newLocal w g)"
  by (simp add: newLocal_def tidy_def addCloser_def Let_def split: sum.split)

lemma Serve_tidy: "tidy (Serve w g)"
proof (cases "newLocal w g")
  case (Pair r tr)
  have t: "tidy (r, tr)" using newLocal_tidy [of w g] Pair by simp
  show ?thesis
  proof (cases r)
    case (Inl e)
    then show ?thesis using t Pair by (simp add: Serve_def)
  next
    case (Inr n)
    then have o: "open_after tr [] = Some (rev (n_closers n))" using t by (simp add: tidy_def)
    have "tidy (Inl NTailServe, tr @ snd (snd (node_close w n)))" by (rule tidy_error [OF o])
    moreover have "tidy (Inr (addCloser CServer (n\<lparr>n_token := w_token w\<rparr>)), tr @ [Opened CServer])"
      using o by (simp add: tidy_def open_after_append addCloser_def)
    ultimately show ?thesis using t Pair Inr by (simp add: Serve_def)
  qed
qed

lemma join_forwards_tidy:
  "open_after tr [] = Some (rev (n_closers n)) \<Longrightarrow> tidy (join_forwards w ps n tr)"
proof (induction ps arbitrary: n tr)
  case Nil
  then show ?case by (simp add: tidy_def)
next
  case (Cons p ps)
  show ?case
    using Cons.IH [OF tidy_more [OF Cons.prems]] tidy_error [OF Cons.prems] by simp
qed

lemma Join_tidy: "tidy (Join w token g)"
proof -
  let ?n = "addCloser CClient (addCloser CSocketFile (addCloser CListener
    \<lparr>n_hub = None, n_token = token, n_listen = listen_addr w g, n_closers = []\<rparr>))"
  let ?tr = "[Opened CListener, Opened CSocketFile, Opened CClient]"
  have o: "open_after ?tr [] = Some (rev (n_closers ?n))" by (simp add: addCloser_def)
  have e: "tidy (Inl x, [])" for x by (simp add: tidy_def)
  show ?thesis
    using tidy_error [OF o, of NTailPing w] join_forwards_tidy [OF o, of w "g_forward g"] e
    by (simp add: Join_def Let_def split: sum.split)
qed

text \<open>C35 (no leaks). Whatever fails while a node starts - the address, the listener, the mailbox
  file, tailcat, a forwarded port - \<open>Serve\<close> and \<open>Join\<close> have closed everything they opened, in
  reverse order, when they return an error; when they return a node, \<open>Close\<close> closes everything
  that is open, in reverse order, once, also when a closer fails, and a second \<open>Close\<close> nothing.\<close>

theorem node_no_leak:
  shows "(case Serve w g of
      (Inl e, tr) \<Rightarrow> open_after tr [] = Some []
    | (Inr n, tr) \<Rightarrow> open_after (tr @ snd (snd (node_close w n))) [] = Some []) \<and>
    (case Join w token g of
      (Inl e, tr) \<Rightarrow> open_after tr [] = Some []
    | (Inr n, tr) \<Rightarrow> open_after (tr @ snd (snd (node_close w n))) [] = Some []) \<and>
    node_close w (fst (snd (node_close w n0))) = (None, fst (snd (node_close w n0)), [])"
proof -
  have "case x of (Inl e, tr) \<Rightarrow> open_after tr [] = Some []
    | (Inr n, tr) \<Rightarrow> open_after (tr @ snd (snd (node_close w n))) [] = Some []" if "tidy x" for x
    using that by (auto simp: tidy_def open_after_append node_close_trace split: prod.splits sum.splits)
  from this [OF Serve_tidy [of w g]] this [OF Join_tidy [of w token g]] show ?thesis
    by (simp add: node_close_def split: prod.splits)
qed

subsection \<open>Ports\<close>

lemma containsPort_iff: "containsPort ps p \<longleftrightarrow> p \<in> set ps"
  by (induction ps) auto

text \<open>The ports a serving node advertises through the tunnel are exactly those for which
  it has a handler: the mailbox port goes to the hub, also when it is in the forward list, and
  every other forwarded port to the same port of the local host.\<close>

theorem served_ports:
  shows "((\<exists>r \<in> set (served_ranges g). fst r \<le> p \<and> p \<le> snd r) \<longleftrightarrow> on_tcp g p \<noteq> None) \<and>
    (on_tcp g p = Some ServeHub \<longleftrightarrow> p = MailboxPort) \<and>
    (on_tcp g p = Some (ForwardLocal q) \<longleftrightarrow> q = p \<and> p \<in> set (g_forward g) \<and> p \<noteq> MailboxPort)"
  by (auto simp: served_ranges_def portRanges_def on_tcp_def containsPort_iff intro: antisym)

text \<open>A client that is given the same listen string as the node, also the empty one, dials the
  address on which the node listens.\<close>

theorem dial_reaches_node:
  assumes "listen_calls (w_uid w) (listen_addr w g) = Inr cs"
  obtains network address where "last cs = NetListen network address"
    and "listenDial (w_uid w) (g_listen g) = Inr [NetDial network address]"
  using listen_dial_agree [OF assms] by (auto simp: listenDial_def listen_addr_def)

subsection \<open>Splicing\<close>

text \<open>The bytes of a direction, wherever they are.\<close>

definition stream :: "pipe \<Rightarrow> bytes" where
  "stream p = p_dst p @ p_chunk p @ p_src p"

lemma splice_step_stream: "splice_step x y \<Longrightarrow> \<exists>t. stream (fst y d) = stream (fst x d) @ t"
proof (induction rule: splice_step.induct)
  case (copy_read P d' k)
  then show ?case by (simp add: stream_def)
next
  case (copy_write P d')
  then show ?case by (simp add: stream_def)
next
  case (sender P d' s e)
  then show ?case by (simp add: stream_def)
next
  case (copy_end P d')
  then show ?case by simp
qed

lemma splice_step_done:
  "splice_step x y \<Longrightarrow> \<not> snd y \<or> (\<exists>d'. p_eof (fst y d') \<and> p_dst (fst y d') = stream (fst y d'))"
  by (induction rule: splice_step.induct) (auto simp: stream_def)

lemma splice_closed: "splice_step x y \<Longrightarrow> \<not> snd x"
  by (cases rule: splice_stepE) auto

definition pipe_of :: "bytes \<Rightarrow> bool \<Rightarrow> pipe" where
  "pipe_of s e = \<lparr>p_src = s, p_eof = e, p_chunk = [], p_dst = []\<rparr>"

definition two_pipes :: "bytes \<Rightarrow> bytes \<Rightarrow> way \<Rightarrow> pipe" where
  "two_pipes a b d = (case d of AB \<Rightarrow> pipe_of a True | BA \<Rightarrow> pipe_of b False)"

text \<open>As long as two connections are spliced, what has been delivered in each
  direction is a prefix of what was sent in it, with nothing duplicated or reordered; and when
  they are closed, at least one sender had ended its stream and everything it sent was
  delivered.\<close>

theorem splice_order:
  assumes "splice_step\<^sup>*\<^sup>* x y" and "\<not> snd x"
  shows "(\<exists>t. stream (fst y d) = stream (fst x d) @ t) \<and> (\<exists>u. stream (fst y d) = p_dst (fst y d) @ u) \<and>
    (\<not> snd y \<or> (\<exists>d'. p_eof (fst y d') \<and> p_dst (fst y d') = stream (fst y d')))"
  using assms
proof (induction rule: rtranclp_induct)
  case base
  then show ?case by (auto simp: stream_def)
next
  case (step y z)
  obtain t where t: "stream (fst y d) = stream (fst x d) @ t" using step by blast
  obtain t' where "stream (fst z d) = stream (fst y d) @ t'" using splice_step_stream [OF step(2)] by blast
  then have "stream (fst z d) = stream (fst x d) @ t @ t'" using t by simp
  moreover have "\<exists>u. stream (fst z d) = p_dst (fst z d) @ u" by (simp add: stream_def)
  ultimately show ?case using splice_step_done [OF step(2)] by blast
qed

theorem splice_order_witness:
  "splice_step (two_pipes [] ''x'', False) (two_pipes [] ''x'', True) \<and>
   (\<exists>d'. p_eof (two_pipes [] ''x'' d') \<and> p_dst (two_pipes [] ''x'' d') = stream (two_pipes [] ''x'' d'))"
proof -
  have s: "splice_step (two_pipes [] ''x'', False) (two_pipes [] ''x'', True)"
    by (rule copy_end [of _ AB]) (simp_all add: two_pipes_def pipe_of_def)
  from splice_order [of "(two_pipes [] ''x'', False)" "(two_pipes [] ''x'', True)" AB] s show ?thesis by auto
qed

text \<open>C38 (a half-closed connection loses the answer). When one side has sent its request and ended its
  stream, the splice can close both connections as soon as the request is delivered: whatever
  the other side has already sent in answer is never delivered.\<close>

theorem splice_truncates:
  shows "\<exists>P. splice_step\<^sup>*\<^sup>* (two_pipes a b, False) (P, True) \<and> p_dst (P AB) = a \<and>
    p_dst (P BA) = [] \<and> stream (P BA) = b \<and> \<not> (\<exists>z. splice_step (P, True) z)"
proof -
  let ?P0 = "two_pipes a b"
  let ?P1 = "?P0(AB := (?P0 AB)\<lparr>p_src := drop (length a) a, p_chunk := take (length a) a\<rparr>)"
  let ?P2 = "?P1(AB := (?P1 AB)\<lparr>p_chunk := [], p_dst := p_dst (?P1 AB) @ p_chunk (?P1 AB)\<rparr>)"
  have ab: "?P0 AB = pipe_of a True" "?P0 BA = pipe_of b False" by (simp_all add: two_pipes_def)
  have no: "\<not> splice_step (P, True) z" for P z using splice_closed [of "(P, True)" z] by auto
  show ?thesis
  proof (cases "a = []")
    case True
    then have "splice_step (?P0, False) (?P0, True)"
      using ab by (intro copy_end [of _ AB]) (simp_all add: pipe_of_def)
    then show ?thesis using True ab no by (intro exI [of _ ?P0]) (auto simp: pipe_of_def stream_def)
  next
    case False
    have s1: "splice_step (?P0, False) (?P1, False)"
      using copy_read [of ?P0 AB "length a"] ab False by (simp add: pipe_of_def)
    have s2: "splice_step (?P1, False) (?P2, False)"
      by (rule copy_write) (use ab False in \<open>simp add: pipe_of_def\<close>)
    have s3: "splice_step (?P2, False) (?P2, True)"
      by (rule copy_end [of _ AB]) (use ab in \<open>simp_all add: pipe_of_def\<close>)
    from s1 s2 s3 have "splice_step\<^sup>*\<^sup>* (?P0, False) (?P2, True)" by (meson converse_rtranclp_into_rtranclp r_into_rtranclp)
    then show ?thesis using ab no by (intro exI [of _ ?P2]) (auto simp: pipe_of_def stream_def)
  qed
qed

end
