(* ===== verification/Node_System.thy ===== *)
theory Node_System
  imports Node_Props
begin

text \<open>
  A running node: its accept loops and one goroutine per connection.  A connection that was
  accepted is served by the hub, or a second connection is dialled for it and the two are
  spliced.  The state says which listeners are open, which loops still run, where each goroutine
  is and which connections are open.
\<close>

datatype loop = LoopHub | LoopProxy | LoopForward "16 word"

text \<open>Where a goroutine dials: through the tunnel (\<open>DialTCPPort\<close>), or 127.0.0.1.\<close>

datatype target = Tunnel "16 word" | Local "16 word"

datatype cgo = Serving | Dialing target | Copying target "way \<Rightarrow> pipe" | Ended

record nsys =
  y_loops :: "loop set"
  y_listen :: "loop set"        \<comment> \<open>listeners that are open, by their loop\<close>
  y_server :: bool              \<comment> \<open>the tailcat server is up\<close>
  y_go :: "nat \<rightharpoonup> cgo"
  y_local :: "nat set"          \<comment> \<open>accepted connections that are open\<close>
  y_remote :: "nat set"         \<comment> \<open>dialled connections that are open\<close>

definition spliceDial :: "16 word \<Rightarrow> cgo" where
  "spliceDial p = Dialing (Tunnel p)"

definition forwardLocal :: "16 word \<Rightarrow> cgo" where
  "forwardLocal p = Dialing (Local p)"

text \<open>The goroutine that each accept loop starts, and each handler of \<open>OnTCP\<close>.\<close>

fun accepts :: "loop \<Rightarrow> cgo" where
  "accepts LoopHub = Serving"
| "accepts LoopProxy = spliceDial MailboxPort"
| "accepts (LoopForward p) = spliceDial p"

fun handles :: "handler \<Rightarrow> cgo" where
  "handles ServeHub = Serving"
| "handles (ForwardLocal p) = forwardLocal p"

text \<open>The listener that a closer closes.\<close>

definition closes :: "closer \<Rightarrow> nsys \<Rightarrow> nsys" where
  "closes x s = (case x of
     CListener \<Rightarrow> s\<lparr>y_listen := y_listen s - {LoopHub, LoopProxy}\<rparr>
   | CForward p \<Rightarrow> s\<lparr>y_listen := y_listen s - {LoopForward p}\<rparr>
   | CServer \<Rightarrow> s\<lparr>y_server := False\<rparr>
   | _ \<Rightarrow> s)"

text \<open>\<open>Accept\<close> can also fail while its listener is open, for instance when the process has no file
  descriptor left; the loop returns on any error.\<close>

inductive node_step :: "config \<Rightarrow> nsys \<Rightarrow> nsys \<Rightarrow> bool" for g where
  accepted: "l \<in> y_loops s \<Longrightarrow> l \<in> y_listen s \<Longrightarrow> y_go s c = None \<Longrightarrow>
    node_step g s (s\<lparr>y_go := (y_go s)(c \<mapsto> accepts l), y_local := insert c (y_local s)\<rparr>)"
| accept_error: "l \<in> y_loops s \<Longrightarrow> node_step g s (s\<lparr>y_loops := y_loops s - {l}\<rparr>)"
| tunnelled: "y_server s \<Longrightarrow> on_tcp g p = Some f \<Longrightarrow> y_go s c = None \<Longrightarrow>
    node_step g s (s\<lparr>y_go := (y_go s)(c \<mapsto> handles f), y_local := insert c (y_local s)\<rparr>)"
| served: "y_go s c = Some Serving \<Longrightarrow>
    node_step g s (s\<lparr>y_go := (y_go s)(c \<mapsto> Ended), y_local := y_local s - {c}\<rparr>)"
| dial_fails: "y_go s c = Some (Dialing t) \<Longrightarrow>
    node_step g s (s\<lparr>y_go := (y_go s)(c \<mapsto> Ended), y_local := y_local s - {c}\<rparr>)"
| dialled: "y_go s c = Some (Dialing t) \<Longrightarrow>
    node_step g s (s\<lparr>y_go := (y_go s)(c \<mapsto> Copying t (\<lambda>_. pipe_of [] False)), y_remote := insert c (y_remote s)\<rparr>)"
| copies: "y_go s c = Some (Copying t P) \<Longrightarrow> splice_step (P, False) (P', False) \<Longrightarrow>
    node_step g s (s\<lparr>y_go := (y_go s)(c \<mapsto> Copying t P')\<rparr>)"
| copied: "y_go s c = Some (Copying t P) \<Longrightarrow> splice_step (P, False) (P', True) \<Longrightarrow>
    node_step g s (s\<lparr>y_go := (y_go s)(c \<mapsto> Ended), y_local := y_local s - {c}, y_remote := y_remote s - {c}\<rparr>)"
| closing: "node_step g s (closes x s)"

text \<open>The loops of a node that \<open>Serve\<close> or \<open>Join\<close> has returned, by what it has open.\<close>

definition node_loops :: "node \<Rightarrow> loop set" where
  "node_loops n = (if CListener \<in> set (n_closers n) then {if n_hub n = None then LoopProxy else LoopHub} else {}) \<union>
     {LoopForward p |p. CForward p \<in> set (n_closers n)}"

definition running :: "node \<Rightarrow> nsys" where
  "running n = \<lparr>y_loops = node_loops n, y_listen = node_loops n, y_server = (CServer \<in> set (n_closers n)),
     y_go = Map.empty, y_local = {}, y_remote = {}\<rparr>"

inductive node_reach :: "config \<Rightarrow> nsys \<Rightarrow> bool" for g where
  by_serve: "Serve w g = (Inr n, tr) \<Longrightarrow> node_reach g (running n)"
| by_join: "Join w token g = (Inr n, tr) \<Longrightarrow> node_reach g (running n)"
| node_next: "node_reach g s \<Longrightarrow> node_step g s s' \<Longrightarrow> node_reach g s'"

subsection \<open>The invariant\<close>

text \<open>What may be dialled under a configuration.\<close>

fun target_ok :: "config \<Rightarrow> target \<Rightarrow> bool" where
  "target_ok g (Tunnel p) = (p = MailboxPort \<or> p \<in> set (g_forward g))"
| "target_ok g (Local p) = (p \<noteq> MailboxPort \<and> p \<in> set (g_forward g))"

definition loop_ok :: "config \<Rightarrow> loop \<Rightarrow> bool" where
  "loop_ok g l = (case l of LoopForward p \<Rightarrow> p \<in> set (g_forward g) | _ \<Rightarrow> True)"

text \<open>A goroutine holds its connection until it ends, and the dialled one while it copies.\<close>

definition go_fits :: "config \<Rightarrow> cgo option \<Rightarrow> bool \<Rightarrow> bool \<Rightarrow> bool" where
  "go_fits g x l r = (case x of
     None \<Rightarrow> \<not> l \<and> \<not> r
   | Some Serving \<Rightarrow> l \<and> \<not> r
   | Some (Dialing t) \<Rightarrow> l \<and> \<not> r \<and> target_ok g t
   | Some (Copying t P) \<Rightarrow> l \<and> r \<and> target_ok g t
   | Some Ended \<Rightarrow> \<not> l \<and> \<not> r)"

definition node_ok :: "config \<Rightarrow> nsys \<Rightarrow> bool" where
  "node_ok g s \<longleftrightarrow> (\<forall>l\<in>y_loops s. loop_ok g l) \<and> (\<forall>c. go_fits g (y_go s c) (c \<in> y_local s) (c \<in> y_remote s))"

lemma accepts_fits: "loop_ok g l \<Longrightarrow> go_fits g (Some (accepts l)) True False"
  by (cases l) (auto simp: go_fits_def loop_ok_def spliceDial_def)

lemma handles_fits: "on_tcp g p = Some f \<Longrightarrow> go_fits g (Some (handles f)) True False"
  by (cases f) (auto simp: go_fits_def on_tcp_def forwardLocal_def containsPort_iff split: if_splits)

lemma node_okD:
  assumes "node_ok g s"
  shows "l \<in> y_loops s \<Longrightarrow> loop_ok g l" and "go_fits g (y_go s c) (c \<in> y_local s) (c \<in> y_remote s)"
  using assms by (auto simp: node_ok_def)

text \<open>A step of one goroutine concerns its connection alone.\<close>

lemma node_okI:
  assumes ok: "node_ok g s" and "y_loops s' \<subseteq> y_loops s" and "go_fits g (Some x) (c \<in> y_local s') (c \<in> y_remote s')"
    and "y_go s' = (y_go s)(c \<mapsto> x)" "y_local s' - {c} = y_local s - {c}" "y_remote s' - {c} = y_remote s - {c}"
  shows "node_ok g s'"
proof -
  have "go_fits g (y_go s' d) (d \<in> y_local s') (d \<in> y_remote s')" for d
  proof (cases "d = c")
    case False
    then have "d \<in> y_local s' \<longleftrightarrow> d \<in> y_local s" "d \<in> y_remote s' \<longleftrightarrow> d \<in> y_remote s" using assms(5,6) by auto
    then show ?thesis using node_okD(2) [OF ok, of d] False assms(4) by simp
  qed (use assms in simp)
  then show ?thesis using ok assms(2) by (auto simp: node_ok_def)
qed

lemma closes_keep: "y_loops (closes x s) = y_loops s" "y_go (closes x s) = y_go s"
  "y_local (closes x s) = y_local s" "y_remote (closes x s) = y_remote s" "y_listen (closes x s) \<subseteq> y_listen s"
  by (auto simp: closes_def split: closer.split)

lemma node_ok_step:
  assumes ok: "node_ok g s" and st: "node_step g s s'"
  shows "node_ok g s'"
  using st
proof cases
  case (accepted l c)
  have "c \<notin> y_remote s" using node_okD(2) [OF ok, of c] accepted by (simp add: go_fits_def)
  then show ?thesis using accepts_fits [OF node_okD(1) [OF ok accepted(2)]]
    by (intro node_okI [OF ok, of s' "accepts l" c]) (auto simp: accepted(1))
next
  case (tunnelled p f c)
  have "c \<notin> y_remote s" using node_okD(2) [OF ok, of c] tunnelled by (simp add: go_fits_def)
  then show ?thesis using handles_fits [OF tunnelled(3)]
    by (intro node_okI [OF ok, of s' "handles f" c]) (auto simp: tunnelled(1))
next
  case (accept_error l)
  then show ?thesis using ok by (simp add: node_ok_def)
next
  case (closing x)
  then show ?thesis using ok by (simp add: node_ok_def closes_keep)
next
  case (served c)
  then show ?thesis using node_okD(2) [OF ok, of c]
    by (intro node_okI [OF ok, of s' Ended c]) (auto simp: go_fits_def)
next
  case (dial_fails c t)
  then show ?thesis using node_okD(2) [OF ok, of c]
    by (intro node_okI [OF ok, of s' Ended c]) (auto simp: go_fits_def)
next
  case (dialled c t)
  then show ?thesis using node_okD(2) [OF ok, of c]
    by (intro node_okI [OF ok, of s' "Copying t (\<lambda>_. pipe_of [] False)" c]) (auto simp: go_fits_def)
next
  case (copies c t P P')
  then show ?thesis using node_okD(2) [OF ok, of c]
    by (intro node_okI [OF ok, of s' "Copying t P'" c]) (auto simp: go_fits_def)
next
  case (copied c t P P')
  then show ?thesis using node_okD(2) [OF ok, of c]
    by (intro node_okI [OF ok, of s' Ended c]) (auto simp: go_fits_def)
qed

lemma serve_closers: "Serve w g = (Inr n, tr) \<Longrightarrow> set (n_closers n) \<subseteq> {CListener, CHub, CServer}"
  by (auto simp: Serve_def newLocal_def addCloser_def Let_def split: sum.splits prod.splits if_splits)

lemma join_forwards_closers:
  "join_forwards w ps n tr = (Inr n', tr') \<Longrightarrow> set (n_closers n') = set (n_closers n) \<union> CForward ` set ps"
  by (induction w ps n tr rule: join_forwards.induct) (auto simp: addCloser_def split: if_splits)

lemma join_closers: "Join w token g = (Inr n, tr) \<Longrightarrow>
    set (n_closers n) = {CListener, CSocketFile, CClient} \<union> CForward ` set (g_forward g)"
  by (auto simp: Join_def addCloser_def Let_def split: sum.splits if_splits dest!: join_forwards_closers)

lemma running_ok: "(\<And>p. CForward p \<in> set (n_closers n) \<Longrightarrow> p \<in> set (g_forward g)) \<Longrightarrow> node_ok g (running n)"
  by (auto simp: node_ok_def running_def node_loops_def loop_ok_def go_fits_def)

lemma node_reach_ok: "node_reach g s \<Longrightarrow> node_ok g s"
proof (induction rule: node_reach.induct)
  case (by_serve w n tr)
  then show ?case using serve_closers [OF by_serve] by (intro running_ok) auto
next
  case (by_join w token n tr)
  then show ?case using join_closers [OF by_join] by (intro running_ok) auto
qed (rule node_ok_step)

lemma steps_reach: "(node_step g)\<^sup>*\<^sup>* s s' \<Longrightarrow> node_reach g s \<Longrightarrow> node_reach g s'"
  by (induction rule: rtranclp_induct) (auto intro: node_next)


subsection \<open>Closing a running node\<close>

text \<open>\<open>Node.Close\<close>: every closer, from the last to the first.\<close>

definition close_running :: "node \<Rightarrow> nsys \<Rightarrow> nsys" where
  "close_running n s = fold closes (rev (n_closers n)) s"

text \<open>Nothing can be accepted any more.\<close>

definition deaf :: "nsys \<Rightarrow> bool" where
  "deaf s \<longleftrightarrow> y_listen s = {} \<and> \<not> y_server s"

lemma deaf_step: "node_step g s s' \<Longrightarrow> deaf s \<Longrightarrow> deaf s' \<and> dom (y_go s') = dom (y_go s)"
proof (induction rule: node_step.induct)
  case (closing s x)
  then show ?case using closes_keep [of x s] by (auto simp: deaf_def closes_def split: closer.splits)
qed (auto simp: deaf_def)

lemma listen_step:
  "node_step g s s' \<Longrightarrow> y_listen s' \<subseteq> y_listen s \<and> (y_server s' \<longrightarrow> y_server s)"
proof (induction rule: node_step.induct)
  case (closing s x)
  then show ?case by (auto simp: closes_def split: closer.splits)
qed auto

lemma listen_steps: "(node_step g)\<^sup>*\<^sup>* s s' \<Longrightarrow> y_listen s' \<subseteq> y_listen s \<and> (y_server s' \<longrightarrow> y_server s)"
proof (induction rule: rtranclp_induct)
  case (step y z)
  then show ?case using listen_step [OF step(2)] by blast
qed simp

lemma fold_closes:
  "l \<in> y_listen (fold closes xs s) \<longleftrightarrow> l \<in> y_listen s \<and>
     (case l of LoopForward p \<Rightarrow> CForward p \<notin> set xs | _ \<Rightarrow> CListener \<notin> set xs)"
  "y_server (fold closes xs s) \<longleftrightarrow> y_server s \<and> CServer \<notin> set xs"
  "y_go (fold closes xs s) = y_go s"
proof (induction xs arbitrary: s)
  case (Cons x xs)
  { case 1 then show ?case using Cons.IH(1) [of "closes x s"]
      by (cases l; cases x) (auto simp: closes_def) }
  { case 2 then show ?case using Cons.IH(2) [of "closes x s"] by (cases x) (auto simp: closes_def) }
  { case 3 then show ?case using Cons.IH(3) [of "closes x s"] by (simp add: closes_keep) }
qed (auto split: loop.split)


text \<open>An accept loop that gives up.  The loops return on the first error of \<open>Accept\<close>, also on
  one that passes, such as a lack of file descriptors: from then on the node runs with its
  listener open, and no connection to it is ever accepted again.\<close>

theorem accept_gives_up:
  assumes "l \<in> y_loops s" and "l \<in> y_listen s"
  shows "\<exists>s1. node_step g s s1 \<and> y_listen s1 = y_listen s \<and> y_go s1 = y_go s \<and>
    (\<forall>s2. (node_step g)\<^sup>*\<^sup>* s1 s2 \<longrightarrow> l \<notin> y_loops s2)"
proof -
  let ?s = "s\<lparr>y_loops := y_loops s - {l}\<rparr>"
  have "l \<notin> y_loops s2" if "(node_step g)\<^sup>*\<^sup>* ?s s2" for s2
    using that
  proof (induction rule: rtranclp_induct)
    case (step y z)
    from step(2) have "y_loops z \<subseteq> y_loops y" by cases (auto simp: closes_keep)
    then show ?case using step(3) by blast
  qed simp
  then show ?thesis using accept_error [OF assms(1), of g] by (intro exI [of _ ?s]) simp
qed

subsection \<open>A node that joins and forwards one port\<close>

definition w_ok :: nenv where
  "w_ok = \<lparr>w_uid = 0, w_listen = True, w_store = Missing, w_bord = [], w_iord = [], w_start = True, w_ping = True,
     w_fwd = (\<lambda>_. True), w_token = ''t'', w_close = (\<lambda>_. True)\<rparr>"

definition g_fwd :: config where
  "g_fwd = \<lparr>g_mailbox = '''', g_heartbeat = 0, g_listen = ''tcp://127.0.0.1:1'', g_local = False, g_forward = [8080]\<rparr>"

definition n_fwd :: node where
  "n_fwd = \<lparr>n_hub = None, n_token = ''t'', n_listen = ''tcp://127.0.0.1:1'',
     n_closers = [CListener, CSocketFile, CClient, CForward 8080]\<rparr>"

lemma joins: "\<exists>tr. Join w_ok ''t'' g_fwd = (Inr n_fwd, tr)"
proof -
  have "\<not> isl (listen_calls 0 ''tcp://127.0.0.1:1'')"
    by code_simp
  then obtain cs where "listen_calls 0 ''tcp://127.0.0.1:1'' = Inr cs" by (metis sum.collapse(2))
  then show ?thesis
    by (simp add: Join_def w_ok_def g_fwd_def n_fwd_def listen_addr_def addCloser_def Let_def)
qed

text \<open>A connection to the forwarded port is accepted and dialled.\<close>

definition n_run :: nsys where
  "n_run = (running n_fwd)\<lparr>y_go := [7 \<mapsto> Copying (Tunnel 8080) (\<lambda>_. pipe_of [] False)], y_local := {7}, y_remote := {7}\<rparr>"

lemma fwd_steps: "(node_step g_fwd)\<^sup>*\<^sup>* (running n_fwd) n_run"
proof -
  let ?s = "(running n_fwd)\<lparr>y_go := [7 \<mapsto> spliceDial 8080], y_local := {7}\<rparr>"
  have "node_step g_fwd (running n_fwd) ?s"
    using accepted [of "LoopForward 8080" "running n_fwd" 7 g_fwd]
    by (simp add: running_def node_loops_def n_fwd_def)
  moreover have "node_step g_fwd ?s n_run"
    using dialled [of ?s 7 "Tunnel 8080" g_fwd] by (simp add: n_run_def spliceDial_def running_def)
  ultimately show ?thesis by (meson converse_rtranclp_into_rtranclp r_into_rtranclp)
qed

lemma fwd_reach: "node_reach g_fwd n_run"
  using steps_reach [OF fwd_steps] joins by_join by metis



theorem accept_gives_up_witness:
  "\<exists>s1. node_step g_fwd n_run s1 \<and> LoopProxy \<in> y_listen s1 \<and> LoopProxy \<notin> y_loops s1"
proof -
  have l: "LoopProxy \<in> y_loops n_run" "LoopProxy \<in> y_listen n_run"
    by (simp_all add: n_run_def running_def node_loops_def n_fwd_def)
  from accept_gives_up [OF l, of g_fwd] l(2) show ?thesis by auto
qed

end
