(* ===== verification/Cli.thy ===== *)
theory Cli
  imports Addr
begin

text \<open>
  The command line (\<open>cmd/zmqcat/args.go\<close> and the values of \<open>main.go\<close>).  A flag set is what
  \<open>fs.Lookup\<close> finds: nothing, a boolean flag, or a flag with a value.  \<open>flag_parse\<close> is
  \<open>FlagSet.Parse\<close> of Go's \<open>flag\<close> package: the assignments it makes, in order, and the
  remaining arguments, or its error.
\<close>

datatype flag_kind = BoolFlag | ValueFlag

type_synonym flagset = "string \<rightharpoonup> flag_kind"

datatype flag_error = BadSyntax string | Undefined string | MissingValue string | BadValue string string

fun trim_left :: "string \<Rightarrow> string" where
  "trim_left [] = []"
| "trim_left (c # cs) = (if c = CHR ''-'' then trim_left cs else c # cs)"

text \<open>\<open>args\<close>: split into flags and positionals; \<open>parseArgs\<close> then parses them in order.\<close>

fun split_args :: "flagset \<Rightarrow> string list \<Rightarrow> string list \<times> string list" where
  "split_args fs [] = ([], [])"
| "split_args fs (a # rest) =
     (if a = ''--'' then ([], rest)
      else if \<not> has_prefix a ''-'' \<or> a = ''-'' then
        (case split_args fs rest of (flags, pos) \<Rightarrow> (flags, a # pos))
      else if CHR ''='' \<in> set (trim_left a) then
        (case split_args fs rest of (flags, pos) \<Rightarrow> (a # flags, pos))
      else (case fs (trim_left a) of
          None \<Rightarrow> (case split_args fs rest of (flags, pos) \<Rightarrow> (a # flags, pos))
        | Some BoolFlag \<Rightarrow> (case split_args fs rest of (flags, pos) \<Rightarrow> (a # flags, pos))
        | Some ValueFlag \<Rightarrow> (case rest of
              [] \<Rightarrow> ([a], [])
            | v # rest' \<Rightarrow> (case split_args fs rest' of (flags, pos) \<Rightarrow> (a # v # flags, pos)))))"

fun cut_eq :: "string \<Rightarrow> string \<times> string option" where
  "cut_eq [] = ([], None)"
| "cut_eq (c # cs) = (if c = CHR ''='' then ([], Some cs)
     else case cut_eq cs of (n, v) \<Rightarrow> (c # n, v))"

text \<open>\<open>parseOne\<close>: the name after one or two dashes.\<close>

definition flag_body :: "string \<Rightarrow> string" where
  "flag_body a = (if has_prefix a ''--'' then drop 2 a else drop 1 a)"

fun flag_parse :: "flagset \<Rightarrow> string list \<Rightarrow> flag_error + (string \<times> string) list \<times> string list" where
  "flag_parse fs [] = Inr ([], [])"
| "flag_parse fs (a # rest) =
     (if length a < 2 \<or> \<not> has_prefix a ''-'' then Inr ([], a # rest)
      else if a = ''--'' then Inr ([], rest)
      else let b = flag_body a in
        if b = '''' \<or> has_prefix b ''-'' \<or> has_prefix b ''='' then Inl (BadSyntax a)
        else case cut_eq b of (n, v) \<Rightarrow>
          (case fs n of
             None \<Rightarrow> Inl (Undefined n)
           | Some BoolFlag \<Rightarrow> (case flag_parse fs rest of
                 Inl e \<Rightarrow> Inl e
               | Inr (sets, pos) \<Rightarrow> Inr ((n, case v of None \<Rightarrow> ''true'' | Some x \<Rightarrow> x) # sets, pos))
           | Some ValueFlag \<Rightarrow> (case v of
                 Some x \<Rightarrow> (case flag_parse fs rest of
                     Inl e \<Rightarrow> Inl e | Inr (sets, pos) \<Rightarrow> Inr ((n, x) # sets, pos))
               | None \<Rightarrow> (case rest of
                     [] \<Rightarrow> Inl (MissingValue n)
                   | x # rest' \<Rightarrow> (case flag_parse fs rest' of
                         Inl e \<Rightarrow> Inl e | Inr (sets, pos) \<Rightarrow> Inr ((n, x) # sets, pos))))))"

definition parseArgs :: "flagset \<Rightarrow> string list \<Rightarrow> flag_error + (string \<times> string) list \<times> string list" where
  "parseArgs fs args = (case split_args fs args of
     (flags, pos) \<Rightarrow> flag_parse fs (flags @ ''--'' # pos))"

subsection \<open>Command lines as a user means them\<close>

datatype item =
    Pos string            \<comment> \<open>a positional\<close>
  | FlagEq string string  \<comment> \<open>\<open>--name=value\<close>\<close>
  | FlagVal string string \<comment> \<open>\<open>--name value\<close>\<close>
  | FlagBool string       \<comment> \<open>\<open>--name\<close>\<close>

fun render :: "item \<Rightarrow> string list" where
  "render (Pos a) = [a]"
| "render (FlagEq n v) = [''--'' @ n @ ''='' @ v]"
| "render (FlagVal n v) = [''--'' @ n, v]"
| "render (FlagBool n) = [''--'' @ n]"

definition good_name :: "string \<Rightarrow> bool" where
  "good_name n \<longleftrightarrow> n \<noteq> '''' \<and> hd n \<noteq> CHR ''-'' \<and> CHR ''='' \<notin> set n"

fun good_item :: "flagset \<Rightarrow> item \<Rightarrow> bool" where
  "good_item fs (Pos a) = (\<not> has_prefix a ''-'' \<or> a = ''-'')"
| "good_item fs (FlagEq n v) = (good_name n \<and> fs n \<noteq> None)"
| "good_item fs (FlagVal n v) = (good_name n \<and> fs n = Some ValueFlag)"
| "good_item fs (FlagBool n) = (good_name n \<and> fs n = Some BoolFlag)"

fun settings :: "item list \<Rightarrow> (string \<times> string) list" where
  "settings [] = []"
| "settings (Pos a # is) = settings is"
| "settings (FlagEq n v # is) = (n, v) # settings is"
| "settings (FlagVal n v # is) = (n, v) # settings is"
| "settings (FlagBool n # is) = (n, ''true'') # settings is"

fun positionals :: "item list \<Rightarrow> string list" where
  "positionals [] = []"
| "positionals (Pos a # is) = a # positionals is"
| "positionals (FlagEq n v # is) = positionals is"
| "positionals (FlagVal n v # is) = positionals is"
| "positionals (FlagBool n # is) = positionals is"

fun is_flag :: "item \<Rightarrow> bool" where
  "is_flag (Pos a) = False"
| "is_flag x = True"

lemma trim_left_good: "good_name n \<Longrightarrow> trim_left (CHR ''-'' # CHR ''-'' # n @ r) = n @ r"
  by (cases n) (auto simp: good_name_def)

lemma cut_eq_none: "CHR ''='' \<notin> set n \<Longrightarrow> cut_eq n = (n, None)"
  by (induction n) auto

lemma cut_eq_some: "CHR ''='' \<notin> set n \<Longrightarrow> cut_eq (n @ CHR ''='' # v) = (n, Some v)"
  by (induction n) auto

lemma good_prefix:
  assumes "good_name n"
  shows "n @ r \<noteq> []" "\<not> has_prefix (n @ r) ''-''" "\<not> has_prefix (n @ r) ''=''"
  using assms by (cases n; auto simp: good_name_def)+

lemma split_render:
  assumes "\<forall>x\<in>set is. good_item fs x"
  shows "split_args fs (concat (map render is) @ tail) =
    (concat (map render (filter is_flag is)) @ fst (split_args fs tail),
     positionals is @ snd (split_args fs tail))"
  using assms
proof (induction "is")
  case Nil
  then show ?case by simp
next
  case (Cons x js)
  then have g: "good_item fs x" by simp
  note IH = Cons.IH [OF ballI]
  show ?case
  proof (cases x)
    case (Pos a)
    then show ?thesis using g Cons by auto
  next
    case (FlagEq n v)
    then have "good_name n" using g by simp
    then show ?thesis
      using FlagEq Cons trim_left_good [of n "CHR ''='' # v"] good_prefix(1) [of n "[]"] by auto
  next
    case (FlagVal n v)
    then have n: "good_name n" "fs n = Some ValueFlag" using g by simp_all
    then show ?thesis
      using FlagVal Cons trim_left_good [of n "[]"] good_prefix(1) [of n "[]"]
      by (auto simp: good_name_def)
  next
    case (FlagBool n)
    then have n: "good_name n" "fs n = Some BoolFlag" using g by simp_all
    then show ?thesis
      using FlagBool Cons trim_left_good [of n "[]"] good_prefix(1) [of n "[]"]
      by (auto simp: good_name_def)
  qed
qed

lemma flag_parse_render:
  assumes "\<forall>x\<in>set is. good_item fs x"
  shows "flag_parse fs (concat (map render (filter is_flag is)) @ ''--'' # pos) = Inr (settings is, pos)"
  using assms
proof (induction "is")
  case Nil
  then show ?case by simp
next
  case (Cons x js)
  then have g: "good_item fs x" by simp
  show ?case
  proof (cases x)
    case (Pos a)
    then show ?thesis using Cons by simp
  next
    case (FlagEq n v)
    then have n: "good_name n" "fs n \<noteq> None" using g by simp_all
    then have "cut_eq (n @ CHR ''='' # v) = (n, Some v)" by (intro cut_eq_some) (simp add: good_name_def)
    moreover obtain k where "fs n = Some k" using n by auto
    ultimately show ?thesis
      using FlagEq Cons n good_prefix [OF n(1)]
      by (cases k) (auto simp: flag_body_def Let_def)
  next
    case (FlagVal n v)
    then have n: "good_name n" "fs n = Some ValueFlag" using g by simp_all
    then have "cut_eq n = (n, None)" by (intro cut_eq_none) (simp add: good_name_def)
    then show ?thesis
      using FlagVal Cons n good_prefix [OF n(1), of "[]"] by (auto simp: flag_body_def Let_def)
  next
    case (FlagBool n)
    then have n: "good_name n" "fs n = Some BoolFlag" using g by simp_all
    then have "cut_eq n = (n, None)" by (intro cut_eq_none) (simp add: good_name_def)
    then show ?thesis
      using FlagBool Cons n good_prefix [OF n(1), of "[]"] by (auto simp: flag_body_def Let_def)
  qed
qed

lemma parse_items:
  assumes "\<forall>x\<in>set is. good_item fs x"
  shows "parseArgs fs (concat (map render is)) = Inr (settings is, positionals is)"
  using split_render [OF assms, of "[]"] flag_parse_render [OF assms] by (simp add: parseArgs_def)


definition join_flags :: flagset where
  "join_flags = [''listen'' \<mapsto> ValueFlag, ''quiet'' \<mapsto> BoolFlag, ''forward'' \<mapsto> ValueFlag]"


text \<open>When the last argument is a flag that needs a value, Go's parser
  reports it; \<open>parseArgs\<close> instead lets the flag take the terminator it inserts itself, so the
  flag is silently set to \<open>--\<close> and the command goes on.\<close>

theorem parseArgs_missing_value:
  assumes "good_name n" and "fs n = Some ValueFlag" and "\<forall>p\<in>set ps. \<not> has_prefix p ''-''"
  shows "flag_parse fs [''--'' @ n] = Inl (MissingValue n) \<and>
    parseArgs fs (ps @ [''--'' @ n]) = Inr ([(n, ''--'')], ps)"
proof -
  have b: "cut_eq n = (n, None)" using assms(1) by (intro cut_eq_none) (simp add: good_name_def)
  note g = good_prefix [OF assms(1), of "[]"]
  have t: "trim_left (CHR ''-'' # CHR ''-'' # n) = n" using trim_left_good [OF assms(1), of "[]"] by simp
  have ne: "CHR ''='' \<notin> set n" using assms(1) by (simp add: good_name_def)
  have s: "split_args fs [''--'' @ n] = ([''--'' @ n], [])" using t ne assms(2) g by simp
  have "split_args fs (ps @ [''--'' @ n]) = ([''--'' @ n], ps)"
    using assms(3)
  proof (induction ps)
    case Nil
    then show ?case using s by simp
  next
    case (Cons p ps)
    then have "p \<noteq> ''--''" by auto
    then show ?case using Cons by simp
  qed
  moreover have "flag_parse fs [''--'' @ n] = Inl (MissingValue n)"
    using assms(2) b g by (simp add: flag_body_def Let_def)
  moreover have "flag_parse fs ps = Inr ([], ps)" using assms(3) by (cases ps) auto
  then have "flag_parse fs ((''--'' @ n) # ''--'' # ps) = Inr ([(n, ''--'')], ps)"
    using assms(2) b g by (simp add: flag_body_def Let_def)
  ultimately show ?thesis by (simp add: parseArgs_def)
qed

theorem parseArgs_missing_value_witness:
  "parseArgs join_flags [''--listen''] = Inr ([(''listen'', ''--'')], [])"
proof -
  have g: "good_name ''listen''" "join_flags ''listen'' = Some ValueFlag"
    by (simp_all add: good_name_def join_flags_def)
  have "\<forall>p\<in>set []. \<not> has_prefix p ''-''" by simp
  from parseArgs_missing_value [of "''listen''" join_flags "[]", OF g this] show ?thesis
    by simp
qed

end
