(* ===== verification/Commands.thy ===== *)
theory Commands
  imports Cli Client Node
begin

text \<open>
  The command line (\<open>cmd/zmqcat/main.go\<close>): its flag values and what each command does with the
  client and the node.  The terminal, the host name, dialling, the bytes that arrive during each
  call and the parsers of durations, integers and node keys are arguments.
\<close>

subsection \<open>Flag values\<close>

text \<open>The last assignment wins.\<close>

definition flag_value :: "string \<Rightarrow> string \<Rightarrow> (string \<times> string) list \<Rightarrow> string" where
  "flag_value n dflt sets = (case filter (\<lambda>(k, v). k = n) sets of [] \<Rightarrow> dflt | xs \<Rightarrow> snd (last xs))"

text \<open>\<open>strconv.ParseUint(v, 10, 16)\<close>.\<close>

definition parse_uint16 :: "string \<Rightarrow> nat option" where
  "parse_uint16 s = (if s = '''' \<or> \<not> list_all is_digit s \<or> 65535 < dec_value 0 s then None
     else Some (dec_value 0 s))"

text \<open>\<open>portList.Set\<close>.\<close>

definition port_set :: "string \<Rightarrow> 16 word list \<Rightarrow> string + 16 word list" where
  "port_set v ports = (case parse_uint16 v of
     None \<Rightarrow> Inl (''forward: bad port '' @ v)
   | Some n \<Rightarrow> if n = 0 then Inl (''forward: bad port '' @ v) else Inr (ports @ [of_nat n]))"

fun ports_of :: "(string \<times> string) list \<Rightarrow> 16 word list \<Rightarrow> string + 16 word list" where
  "ports_of [] ports = Inr ports"
| "ports_of ((k, v) # sets) ports =
     (if k = ''forward'' then (case port_set v ports of Inl e \<Rightarrow> Inl e | Inr ps \<Rightarrow> ports_of sets ps)
      else ports_of sets ports)"

definition hostname :: "string option \<Rightarrow> string" where
  "hostname h = (case h of None \<Rightarrow> ''zmqcat'' | Some s \<Rightarrow> if s = '''' then ''zmqcat'' else s)"

definition clientFlags :: flagset where
  "clientFlags = [''listen'' \<mapsto> ValueFlag, ''name'' \<mapsto> ValueFlag]"

subsection \<open>Client commands\<close>

datatype stdin = Terminal | Piped bytes | PipeFails

record cli =
  x_host :: "string option"
  x_stdin :: stdin
  x_uid :: nat
  x_dial :: "sys_call \<Rightarrow> bool"    \<comment> \<open>whether a call of \<open>net.Dial\<close> succeeds\<close>
  x_cenv :: cenv
  x_int :: "string \<Rightarrow> int option"  \<comment> \<open>the value of an integer flag\<close>
  x_dur :: "string \<Rightarrow> int option"  \<comment> \<open>the value of a duration flag, in nanoseconds\<close>
  x_key :: "string \<Rightarrow> bool"        \<comment> \<open>whether a node key is well formed\<close>
  x_arr :: "nat \<Rightarrow> bytes"   \<comment> \<open>what arrives during the \<open>k\<close>-th call of the command\<close>

datatype cmd_error = CmdMissing string | CmdStdin | CmdDial | CmdClient cerror

datatype outcome = Usage flag_error | Fails cmd_error | Prints bytes
  | PrintsThenFails bytes cmd_error

fun join_spaces :: "string list \<Rightarrow> string" where
  "join_spaces [] = []"
| "join_spaces [a] = a"
| "join_spaces (a # b # r) = a @ CHR '' '' # join_spaces (b # r)"

text \<open>\<open>payload\<close>: the words, or what is piped in, or nothing on a terminal.\<close>

definition cmd_payload :: "cli \<Rightarrow> string list \<Rightarrow> bytes option" where
  "cmd_payload x args = (if args \<noteq> [] then Some (join_spaces args)
     else (case x_stdin x of Terminal \<Rightarrow> Some [] | Piped s \<Rightarrow> Some s | PipeFails \<Rightarrow> None))"

text \<open>\<open>Dial\<close> says hello without a name, \<open>dial\<close> says it again with the name.\<close>

definition Dial :: "cli \<Rightarrow> string \<Rightarrow> cmd_error + client" where
  "Dial x listen = (case listenDial (x_uid x) listen of
     Inl e \<Rightarrow> Inl CmdDial
   | Inr calls \<Rightarrow>
       if \<not> list_all (x_dial x) calls then Inl CmdDial
       else (case Hello (x_cenv x) '''' (arrive (x_arr x 0) new_client) of
         (Some e, c) \<Rightarrow> Inl (CmdClient e)
       | (None, c) \<Rightarrow> Inr c))"

definition dial :: "cli \<Rightarrow> string \<Rightarrow> string \<Rightarrow> cmd_error + client" where
  "dial x listen name = (case Dial x listen of
     Inl e \<Rightarrow> Inl e
   | Inr c \<Rightarrow>
       if name = '''' then Inr c
       else (case Hello (x_cenv x) name (arrive (x_arr x 1) c) of
         (Some e, c1) \<Rightarrow> Inl (CmdClient e)
       | (None, c1) \<Rightarrow> Inr c1))"

text \<open>
  \<open>Set\<close> of each kind of flag, over the assignments in order: the first bad value is reported.
  (Go reports it before a syntax error further on; both end the process with status 2.)
\<close>

definition parse_bool :: "string \<Rightarrow> bool option" where
  "parse_bool s =
     (if s \<in> {''1'', ''t'', ''T'', ''TRUE'', ''true'', ''True''} then Some True
      else if s \<in> {''0'', ''f'', ''F'', ''FALSE'', ''false'', ''False''} then Some False else None)"

definition value_ok :: "cli \<Rightarrow> string \<times> string \<Rightarrow> bool" where
  "value_ok x kv = (case kv of (k, v) \<Rightarrow>
     (if k \<in> {''quiet'', ''local'', ''trace''} then parse_bool v \<noteq> None
      else if k \<in> {''heartbeat'', ''timeout''} then x_dur x v \<noteq> None
      else if k = ''retries'' then x_int x v \<noteq> None
      else if k = ''forward'' then (case port_set v [] of Inl e \<Rightarrow> False | Inr ps \<Rightarrow> True)
      else if k = ''allow'' then x_key x v
      else True))"

definition checked_args :: "cli \<Rightarrow> flagset \<Rightarrow> string list \<Rightarrow> flag_error + (string \<times> string) list \<times> string list" where
  "checked_args x fs args = (case parseArgs fs args of
     Inl e \<Rightarrow> Inl e
   | Inr (sets, pos) \<Rightarrow> (case filter (\<lambda>kv. \<not> value_ok x kv) sets of
       [] \<Rightarrow> Inr (sets, pos)
     | (k, v) # r \<Rightarrow> Inl (BadValue k v)))"

text \<open>The common start of the client commands: flags, positionals, connection; \<open>use\<close> is the rest.\<close>

definition with_client ::
  "cli \<Rightarrow> flagset \<Rightarrow> string list \<Rightarrow>
     ((string \<times> string) list \<Rightarrow> string list \<Rightarrow> cmd_error + (client \<Rightarrow> outcome \<times> client)) \<Rightarrow>
     outcome \<times> client option" where
  "with_client x fs args use =
     (case checked_args x fs args of
        Inl e \<Rightarrow> (Usage e, None)
      | Inr (sets, pos) \<Rightarrow> (case use sets pos of
          Inl e \<Rightarrow> (Fails e, None)
        | Inr act \<Rightarrow> (case dial x (flag_value ''listen'' '''' sets) (flag_value ''name'' (hostname (x_host x)) sets) of
            Inl e \<Rightarrow> (Fails e, None)
          | Inr c \<Rightarrow> (case act (arrive (x_arr x 2) c) of (out, c1) \<Rightarrow> (out, Some c1)))))"

definition done_or :: "cerror option \<times> client \<Rightarrow> outcome \<times> client" where
  "done_or r = (case r of (None, c) \<Rightarrow> (Prints [], c) | (Some e, c) \<Rightarrow> (Fails (CmdClient e), c))"

definition newline :: char where "newline = CHR 0x0A"

definition print_payload :: "frame \<Rightarrow> bytes" where
  "print_payload f = payload f @ (if payload f = [] \<or> last (payload f) \<noteq> newline then [newline] else [])"

definition print_or :: "(cerror + frame) \<times> client \<Rightarrow> outcome \<times> client" where
  "print_or r = (case r of (Inr f, c) \<Rightarrow> (Prints (print_payload f), c) | (Inl e, c) \<Rightarrow> (Fails (CmdClient e), c))"

definition cmdPut :: "cli \<Rightarrow> string list \<Rightarrow> outcome \<times> client option" where
  "cmdPut x args = with_client x clientFlags args (\<lambda>sets pos. case pos of
     [] \<Rightarrow> Inl (CmdMissing ''put: missing mailbox'')
   | q # words \<Rightarrow> (case cmd_payload x words of
       None \<Rightarrow> Inl CmdStdin
     | Some b \<Rightarrow> Inr (\<lambda>c. done_or (Put (x_cenv x) q b b c))))"

definition cmdTake :: "cli \<Rightarrow> string list \<Rightarrow> outcome \<times> client option" where
  "cmdTake x args = with_client x clientFlags args (\<lambda>sets pos. case pos of
     [] \<Rightarrow> Inl (CmdMissing ''take: missing mailbox'')
   | q # words \<Rightarrow> Inr (\<lambda>c. print_or (Take (x_cenv x) q c)))"

definition cmdPub :: "cli \<Rightarrow> string list \<Rightarrow> outcome \<times> client option" where
  "cmdPub x args = with_client x clientFlags args (\<lambda>sets pos. case pos of
     [] \<Rightarrow> Inl (CmdMissing ''pub: missing topic'')
   | q # words \<Rightarrow> (case cmd_payload x words of
       None \<Rightarrow> Inl CmdStdin
     | Some b \<Rightarrow> Inr (\<lambda>c. done_or (Pub (x_cenv x) q b b c))))"

definition cmdPing :: "cli \<Rightarrow> string list \<Rightarrow> outcome \<times> client option" where
  "cmdPing x args = with_client x clientFlags args (\<lambda>sets pos. Inr (\<lambda>c. case Ping (x_cenv x) c of
     (None, c1) \<Rightarrow> (Prints (''pong'' @ [newline]), c1)
   | (Some e, c1) \<Rightarrow> (Fails (CmdClient e), c1)))"

definition cmdReady :: "cli \<Rightarrow> string list \<Rightarrow> outcome \<times> client option" where
  "cmdReady x args = with_client x clientFlags args (\<lambda>sets pos. case pos of
     [] \<Rightarrow> Inl (CmdMissing ''ready: missing service'')
   | q # words \<Rightarrow> Inr (\<lambda>c. print_or (Ready (x_cenv x) q c)))"

text \<open>The loop of \<open>sub\<close>: one line per message, until the stream ends; a clean end is no error.\<close>

definition tab :: char where "tab = CHR 0x09"

definition sub_line :: "frame \<Rightarrow> bytes" where
  "sub_line f = f_name f @ tab # f_from f @ tab # payload f @ [newline]"

lemma rsp_shorter: "readSkipPing v c = (Inr f, c') \<Longrightarrow> length (c_rest c') < length (c_rest c)"
proof (induction v c rule: readSkipPing.induct)
  case (1 v c)
  obtain r n where r: "read_counted (c_rest c) = (r, n)" by (cases "read_counted (c_rest c)")
  show ?case
  proof (cases r)
    case (Inl e)
    then show ?thesis using r "1.prems" by (simp add: readSkipPing.simps [of v c] Let_def split: if_splits)
  next
    case (Inr g)
    let ?c1 = "c\<lparr>c_rest := drop n (c_rest c)\<rparr>"
    let ?c2 = "snd (send_frame v (no_frame\<lparr>f_op := OpPong, f_id := f_id g\<rparr>) ?c1)"
    have n: "0 < n \<and> n \<le> length (c_rest c)" using read_count_pos r Inr by blast
    show ?thesis
    proof (cases "f_op g = OpPing")
      case True
      then have "readSkipPing v ?c2 = (Inr f, c')"
        using r Inr "1.prems" by (simp add: readSkipPing.simps [of v c] Let_def)
      from "1.IH" [OF r [symmetric] Inr refl True this] n show ?thesis by (simp add: send_frame_def Let_def)
    next
      case False
      then show ?thesis using r Inr "1.prems" n by (auto simp: readSkipPing.simps [of v c] Let_def)
    qed
  qed
qed

function sub_loop :: "cenv \<Rightarrow> client \<Rightarrow> bytes \<Rightarrow> outcome \<times> client" where
  "sub_loop v c out =
     (case Recv v c of
        (Inl e, c1) \<Rightarrow> (if e = EWire Stopped then (Prints out, c1) else (PrintsThenFails out (CmdClient e), c1))
      | (Inr f, c1) \<Rightarrow> sub_loop v c1 (if f_op f = ''msg'' then out @ sub_line f else out))"
  by pat_completeness auto
termination
  by (relation "measure (\<lambda>(v, c, out). length (c_rest c))") (auto simp: Recv_def dest: rsp_shorter [OF sym])

declare sub_loop.simps [simp del]

definition cmdSub :: "cli \<Rightarrow> string list \<Rightarrow> outcome \<times> client option" where
  "cmdSub x args = with_client x clientFlags args (\<lambda>sets pos. Inr (\<lambda>c.
     case Sub (x_cenv x) (case pos of [] \<Rightarrow> '''' | p # ps \<Rightarrow> p) c of
       (Some e, c1) \<Rightarrow> (Fails (CmdClient e), c1)
     | (None, c1) \<Rightarrow> sub_loop (x_cenv x) (arrive (x_arr x 3) c1) []))"

definition reqFlags :: flagset where
  "reqFlags = clientFlags(''timeout'' \<mapsto> ValueFlag, ''retries'' \<mapsto> ValueFlag)"

definition int_flag :: "(string \<Rightarrow> int option) \<Rightarrow> string \<Rightarrow> int \<Rightarrow> (string \<times> string) list \<Rightarrow> int" where
  "int_flag val n dflt sets = (case filter (\<lambda>(k, v). k = n) sets of
     [] \<Rightarrow> dflt
   | xs \<Rightarrow> (case val (snd (last xs)) of Some i \<Rightarrow> i | None \<Rightarrow> dflt))"

definition bool_flag :: "string \<Rightarrow> (string \<times> string) list \<Rightarrow> bool" where
  "bool_flag n sets = (parse_bool (flag_value n ''false'' sets) = Some True)"

definition cmdReq :: "cli \<Rightarrow> string list \<Rightarrow> outcome \<times> client option" where
  "cmdReq x args = with_client x reqFlags args (\<lambda>sets pos. case pos of
     [] \<Rightarrow> Inl (CmdMissing ''req: missing service'')
   | q # words \<Rightarrow> (case cmd_payload x words of
       None \<Rightarrow> Inl CmdStdin
     | Some b \<Rightarrow> Inr (\<lambda>c. print_or (Request (x_cenv x) (\<lambda>k. x_arr x (3 + k)) q b b
         (int_flag (x_int x) ''retries'' 3 sets) c))))"

subsection \<open>Node commands\<close>

definition serveFlags :: flagset where
  "serveFlags = [''listen'' \<mapsto> ValueFlag, ''name'' \<mapsto> ValueFlag, ''quiet'' \<mapsto> BoolFlag, ''local'' \<mapsto> BoolFlag,
     ''mailbox'' \<mapsto> ValueFlag, ''trace'' \<mapsto> BoolFlag, ''heartbeat'' \<mapsto> ValueFlag, ''allow'' \<mapsto> ValueFlag,
     ''forward'' \<mapsto> ValueFlag]"

definition joinFlags :: flagset where
  "joinFlags = [''listen'' \<mapsto> ValueFlag, ''quiet'' \<mapsto> BoolFlag, ''forward'' \<mapsto> ValueFlag]"

datatype run = RunUsage flag_error | RunMissing string | RunFails nerror | Ran bytes

text \<open>A node command runs until it is interrupted and then closes the node: the trace is all of it.
  What \<open>serve\<close> prints is the token.\<close>

definition serve_config :: "cli \<Rightarrow> (string \<times> string) list \<Rightarrow> config" where
  "serve_config x sets =
     \<lparr>g_mailbox = flag_value ''mailbox'' '''' sets, g_heartbeat = int_flag (x_dur x) ''heartbeat'' (5 * ns_second) sets,
      g_listen = flag_value ''listen'' '''' sets, g_local = bool_flag ''local'' sets,
      g_forward = (case ports_of sets [] of Inr ps \<Rightarrow> ps | Inl e \<Rightarrow> [])\<rparr>"

definition cmdServe :: "cli \<Rightarrow> nenv \<Rightarrow> string list \<Rightarrow> run \<times> nevent list" where
  "cmdServe x w args = (case checked_args x serveFlags args of
     Inl e \<Rightarrow> (RunUsage e, [])
   | Inr (sets, pos) \<Rightarrow> (case Serve w (serve_config x sets) of
       (Inl e, tr) \<Rightarrow> (RunFails e, tr)
     | (Inr n, tr) \<Rightarrow> (Ran (if n_token n \<noteq> '''' then n_token n @ [newline] else []),
         tr @ snd (snd (node_close w n)))))"

definition join_config :: "(string \<times> string) list \<Rightarrow> config" where
  "join_config sets =
     \<lparr>g_mailbox = '''', g_heartbeat = 0, g_listen = flag_value ''listen'' '''' sets, g_local = False,
      g_forward = (case ports_of sets [] of Inr ps \<Rightarrow> ps | Inl e \<Rightarrow> [])\<rparr>"

definition cmdJoin :: "cli \<Rightarrow> nenv \<Rightarrow> string list \<Rightarrow> run \<times> nevent list" where
  "cmdJoin x w args = (case checked_args x joinFlags args of
     Inl e \<Rightarrow> (RunUsage e, [])
   | Inr (sets, pos) \<Rightarrow> (case pos of
       [] \<Rightarrow> (RunMissing ''join: missing token'', [])
     | token # r \<Rightarrow> (case Join w token (join_config sets) of
         (Inl e, tr) \<Rightarrow> (RunFails e, tr)
       | (Inr n, tr) \<Rightarrow> (Ran [], tr @ snd (snd (node_close w n))))))"

subsection \<open>The program\<close>

text \<open>
  \<open>main\<close>: the exit status, the standard output, and what was done on the way.  A flag set that
  exits on errors exits with 0 after \<open>-h\<close> or \<open>-help\<close>, which it reports as undefined flags here,
  and with 2 otherwise; \<open>log.Fatal\<close> exits with 1.
\<close>

definition usage_status :: "flag_error \<Rightarrow> nat" where
  "usage_status e = (if e = Undefined ''h'' \<or> e = Undefined ''help'' then 0 else 2)"

type_synonym main_result = "nat \<times> bytes \<times> client option \<times> nevent list"

definition client_exit :: "outcome \<times> client option \<Rightarrow> main_result" where
  "client_exit r = (case r of
     (Usage e, c) \<Rightarrow> (usage_status e, [], c, [])
   | (Fails e, c) \<Rightarrow> (1, [], c, [])
   | (Prints s, c) \<Rightarrow> (0, s, c, [])
   | (PrintsThenFails s e, c) \<Rightarrow> (1, s, c, []))"

definition node_exit :: "run \<times> nevent list \<Rightarrow> main_result" where
  "node_exit r = (case r of
     (RunUsage e, tr) \<Rightarrow> (usage_status e, [], None, tr)
   | (RunMissing s, tr) \<Rightarrow> (1, [], None, tr)
   | (RunFails e, tr) \<Rightarrow> (1, [], None, tr)
   | (Ran s, tr) \<Rightarrow> (0, s, None, tr))"

definition zmqcat_main :: "cli \<Rightarrow> nenv \<Rightarrow> string list \<Rightarrow> main_result" where
  "zmqcat_main x w os_args = (case os_args of
     [] \<Rightarrow> (0, [], None, [])
   | cmd # args \<Rightarrow>
       if cmd = ''-h'' \<or> cmd = ''--help'' then (0, [], None, [])
       else if cmd = ''serve'' then node_exit (cmdServe x w args)
       else if cmd = ''join'' then node_exit (cmdJoin x w args)
       else if cmd = ''put'' then client_exit (cmdPut x args)
       else if cmd = ''take'' then client_exit (cmdTake x args)
       else if cmd = ''pub'' then client_exit (cmdPub x args)
       else if cmd = ''sub'' then client_exit (cmdSub x args)
       else if cmd = ''ping'' then client_exit (cmdPing x args)
       else if cmd = ''ready'' then client_exit (cmdReady x args)
       else if cmd = ''req'' then client_exit (cmdReq x args)
       else (2, [], None, []))"

end
