(* ===== verification/Command_Props.thy ===== *)
theory Command_Props
  imports Commands Client_Props
begin

text \<open>
  Properties of the command line: what \<open>put\<close> sends for any order of words and flags, what
  \<open>sub\<close> prints, and the ports \<open>--forward\<close> accepts.
\<close>

subsection \<open>What a call writes and keeps\<close>

lemma rsp_keeps:
  "\<exists>r. c_wrote (snd (readSkipPing v c)) = c_wrote c @ r"
  "c_name (snd (readSkipPing v c)) = c_name c"
proof -
  have "(\<exists>r. c_wrote (snd (readSkipPing v c)) = c_wrote c @ r) \<and> c_name (snd (readSkipPing v c)) = c_name c"
  proof (induction v c rule: readSkipPing.induct)
    case (1 v c)
    obtain r n where r: "read_counted (c_rest c) = (r, n)" by (cases "read_counted (c_rest c)")
    show ?case
    proof (cases r)
      case (Inl e)
      then show ?thesis using r by (simp add: rsp_error)
    next
      case (Inr f)
      let ?c2 = "snd (send_frame v (no_frame\<lparr>f_op := OpPong, f_id := f_id f\<rparr>) (c\<lparr>c_rest := drop n (c_rest c)\<rparr>))"
      show ?thesis
      proof (cases "f_op f = OpPing")
        case True
        then have e: "readSkipPing v c = readSkipPing v ?c2"
          using r Inr by (simp add: readSkipPing.simps [of v c] Let_def)
        obtain t where "c_wrote ?c2 = c_wrote c @ [t]" "c_name ?c2 = c_name c"
          by (simp add: send_frame_def Let_def)
        then show ?thesis unfolding e using "1.IH" [OF r [symmetric] Inr refl True] by auto
      next
        case False
        then show ?thesis using r Inr by (simp add: readSkipPing.simps [of v c] Let_def)
      qed
    qed
  qed
  then show "\<exists>r. c_wrote (snd (readSkipPing v c)) = c_wrote c @ r" "c_name (snd (readSkipPing v c)) = c_name c"
    by blast+
qed

text \<open>On a session that is not broken a call writes its request first.\<close>

lemma roundTrip_writes:
  assumes "\<not> c_desync c" and "f_id req = ''''"
  shows "\<exists>i e r. c_wrote (snd (roundTrip v req c)) = c_wrote c @ (req\<lparr>f_id := i\<rparr>, e) # r"
proof -
  obtain i c1 where i: "nextID v c = (i, c1)" by (cases "nextID v c")
  then have c1: "c_wrote c1 = c_wrote c" by (auto simp: nextID_def Let_def)
  obtain e c2 where s: "send_frame v (req\<lparr>f_id := i\<rparr>) c1 = (e, c2)" by (cases "send_frame v (req\<lparr>f_id := i\<rparr>) c1")
  then have c2: "c_wrote c2 = c_wrote c @ [(req\<lparr>f_id := i\<rparr>, e)]" using c1 by (auto simp: send_frame_def Let_def)
  obtain r where r: "c_wrote (snd (readSkipPing v c2)) = c_wrote c2 @ r" using rsp_keeps(1) by blast
  show ?thesis
  proof (cases e)
    case None
    then show ?thesis using assms i s c2 r by (intro exI [of _ i] exI [of _ e] exI [of _ r]) (simp add: roundTrip_def)
  next
    case (Some x)
    then show ?thesis using assms i s c2 by (intro exI [of _ i] exI [of _ e] exI [of _ "[]"]) (simp add: roundTrip_def)
  qed
qed

lemma roundTrip_name: "c_name (snd (roundTrip v req c)) = c_name c"
proof (cases "c_desync c")
  case False
  obtain i c1 where i: "(if f_id req = '''' then nextID v c else (f_id req, c)) = (i, c1)"
    by (cases "if f_id req = '''' then nextID v c else (f_id req, c)")
  then have c1: "c_name c1 = c_name c" by (auto simp: nextID_def Let_def split: if_splits)
  obtain e c2 where s: "send_frame v (req\<lparr>f_id := i\<rparr>) c1 = (e, c2)" by (cases "send_frame v (req\<lparr>f_id := i\<rparr>) c1")
  then have "c_name c2 = c_name c" using c1 by (auto simp: send_frame_def Let_def)
  then show ?thesis using False i s rsp_keeps(2) [of v c2] by (cases e) (simp_all add: roundTrip_def)
qed (simp add: roundTrip_def)

lemma roundTrip_desync_no: "fst (roundTrip v req c) = Inr f \<Longrightarrow> \<not> c_desync (snd (roundTrip v req c))"
proof -
  assume r: "fst (roundTrip v req c) = Inr f"
  then have d: "\<not> c_desync c" by (auto simp: roundTrip_def)
  obtain i c1 where i: "(if f_id req = '''' then nextID v c else (f_id req, c)) = (i, c1)"
    by (cases "if f_id req = '''' then nextID v c else (f_id req, c)")
  then have c1: "\<not> c_desync c1" using d by (auto simp: nextID_def Let_def split: if_splits)
  obtain e c2 where s: "send_frame v (req\<lparr>f_id := i\<rparr>) c1 = (e, c2)" by (cases "send_frame v (req\<lparr>f_id := i\<rparr>) c1")
  then have c2: "\<not> c_desync c2" using c1 by (auto simp: send_frame_def Let_def)
  have e: "e = None" using r d i s by (cases e) (simp_all add: roundTrip_def)
  obtain x c3 where x: "readSkipPing v c2 = (x, c3)" by (cases "readSkipPing v c2")
  then show ?thesis using r d i s e c2 rsp_kind [where v = v and c = c2] by (simp add: roundTrip_def)
qed

lemma Hello_ok:
  assumes "Hello v n c = (None, c1)"
  shows "c_name c1 = (if n \<noteq> '''' then n else c_name c)" and "\<not> c_desync c1"
proof -
  let ?c = "if n \<noteq> '''' then c\<lparr>c_name := n\<rparr> else c"
  let ?r = "roundTrip v (no_frame\<lparr>f_op := OpHello, f_from := c_name ?c\<rparr>) ?c"
  have c1: "c1 = snd ?r" and ok: "\<exists>f. fst ?r = Inr f"
    using assms by (cases ?r; cases "fst ?r"; simp add: Hello_def Let_def checked_def no_reply_def split: if_splits)+
  show "c_name c1 = (if n \<noteq> '''' then n else c_name c)" using roundTrip_name [of v _ ?c] unfolding c1 by simp
  show "\<not> c_desync c1" using ok roundTrip_desync_no unfolding c1 by blast
qed

lemma dial_ok:
  assumes "dial x l n = Inr c"
  shows "c_name c = n" and "\<not> c_desync c"
proof -
  obtain c1 where h: "Hello (x_cenv x) '''' (arrive (x_arr x 0) new_client) = (None, c1)"
    using assms by (auto simp: dial_def Dial_def split: if_splits option.splits prod.splits sum.splits)
  have "c_name (arrive (x_arr x 0) new_client) = ''''" by (simp add: arrive_def new_client_def)
  then have n1: "c_name c1 = ''''" "\<not> c_desync c1" using Hello_ok [OF h] by simp_all
  have "c_name c = n \<and> \<not> c_desync c"
  proof (cases "n = ''''")
    case True
    then show ?thesis using assms h n1 by (simp add: dial_def Dial_def split: if_splits sum.splits)
  next
    case False
    then obtain c2 where "Hello (x_cenv x) n (arrive (x_arr x 1) c1) = (None, c2)" "c = c2"
      using assms h by (auto simp: dial_def Dial_def split: if_splits option.splits prod.splits sum.splits)
    then show ?thesis using Hello_ok False by auto
  qed
  then show "c_name c = n" "\<not> c_desync c" by simp_all
qed

subsection \<open>\<open>put\<close>\<close>

lemma settings_flags: "\<forall>t\<in>set ts. good_item fs t \<Longrightarrow> (k, v) \<in> set (settings ts) \<Longrightarrow> fs k \<noteq> None"
  by (induction ts rule: settings.induct) auto

lemma client_args:
  assumes "\<forall>t\<in>set ts. good_item clientFlags t"
  shows "checked_args x clientFlags (concat (map render ts)) = Inr (settings ts, positionals ts)"
proof -
  have "value_ok x kv" if "kv \<in> set (settings ts)" for kv
  proof -
    obtain k v where kv: "kv = (k, v)" by (cases kv)
    then have "clientFlags k \<noteq> None" using settings_flags [OF assms] that by blast
    then have "k = ''listen'' \<or> k = ''name''" by (auto simp: clientFlags_def split: if_splits)
    then show ?thesis by (auto simp: kv value_ok_def)
  qed
  then have "filter (\<lambda>kv. \<not> value_ok x kv) (settings ts) = []" by (simp add: filter_empty_conv)
  then show ?thesis by (simp add: checked_args_def parse_items [OF assms])
qed

lemma Put_writes:
  assumes "\<not> c_desync c"
  shows "\<exists>i e r. c_wrote (snd (Put v q text body c)) = c_wrote c @
    (no_frame\<lparr>f_op := OpPut, f_name := q, f_from := c_name c, f_text := text, f_body := body, f_id := i\<rparr>, e) # r"
proof -
  let ?req = "no_frame\<lparr>f_op := OpPut, f_name := q, f_from := c_name c, f_text := text, f_body := body\<rparr>"
  have "f_id ?req = ''''" by (simp add: no_frame_def)
  note r = roundTrip_writes [OF assms this, of v]
  have "snd (Put v q text body c) = snd (roundTrip v ?req c)"
    by (cases "roundTrip v ?req c"; cases "fst (roundTrip v ?req c)";
        simp add: Put_def checked_def no_reply_def)
  with r show ?thesis by (metis (no_types, lifting) frame.update_convs(3))
qed

text \<open>For every order of words and flags, \<open>zmqcat put\<close> that reaches the hub
  writes first the put of exactly these words: the first one is the mailbox, the others joined
  by single spaces are the body, sent as text and as bytes, and the sender is the name given
  last or else the host name.\<close>

theorem cmd_put_sends:
  assumes "\<forall>t\<in>set ts. good_item clientFlags t" and "positionals ts = q # w # words"
    and "dial x (flag_value ''listen'' '''' (settings ts))
           (flag_value ''name'' (hostname (x_host x)) (settings ts)) = Inr c"
  shows "\<exists>out c' f e r. cmdPut x (concat (map render ts)) = (out, Some c') \<and>
    c_wrote c' = c_wrote c @ (f, e) # r \<and> f_op f = OpPut \<and> f_name f = q \<and>
    f_from f = flag_value ''name'' (hostname (x_host x)) (settings ts) \<and>
    f_body f = join_spaces (w # words) \<and> f_text f = join_spaces (w # words)"
proof -
  let ?b = "join_spaces (w # words)" and ?c = "arrive (x_arr x 2) c"
  have c: "c_name ?c = flag_value ''name'' (hostname (x_host x)) (settings ts)" "\<not> c_desync ?c" "c_wrote ?c = c_wrote c"
    using dial_ok [OF assms(3)] by (simp_all add: arrive_def)
  obtain i e r where w: "c_wrote (snd (Put (x_cenv x) q ?b ?b ?c)) = c_wrote ?c @
    (no_frame\<lparr>f_op := OpPut, f_name := q, f_from := c_name ?c, f_text := ?b, f_body := ?b, f_id := i\<rparr>, e) # r"
    using Put_writes [OF c(2)] by blast
  obtain p c' where p: "Put (x_cenv x) q ?b ?b ?c = (p, c')" by (cases "Put (x_cenv x) q ?b ?b ?c")
  have pay: "cmd_payload x (w # words) = Some ?b" by (simp add: cmd_payload_def)
  have "cmdPut x (concat (map render ts)) = (fst (done_or (p, c')), Some c')"
    unfolding cmdPut_def with_client_def client_args [OF assms(1)]
    using assms(2,3) pay p by (cases p) (simp_all add: done_or_def del: join_spaces.simps)
  then show ?thesis using w p c
    by (intro exI [of _ "fst (done_or (p, c'))"] exI [of _ c'] exI [of _ e] exI [of _ r]
        exI [of _ "no_frame\<lparr>f_op := OpPut, f_name := q, f_from := c_name ?c, f_text := ?b, f_body := ?b, f_id := i\<rparr>"]) simp
qed

subsection \<open>\<open>sub\<close>\<close>

lemma sub_loop_ping:
  assumes "good_frame f" and "f_op (carried f) = OpPing" and "c_rest c = wire_bytes f @ r"
  shows "sub_loop v c out = sub_loop v (c\<lparr>c_rest := r, c_wrote := c_wrote c @ [pong_entry v f]\<rparr>) out"
  by (subst (1 2) sub_loop.simps) (simp add: Recv_def rsp_ping [OF assms])

lemma sub_loop_frame:
  assumes "good_frame f" and "f_op (carried f) \<noteq> OpPing" and "c_rest c = wire_bytes f @ r"
  shows "sub_loop v c out = sub_loop v (c\<lparr>c_rest := r\<rparr>) (if f_op (carried f) = ''msg'' then out @ sub_line (carried f) else out)"
  by (subst sub_loop.simps) (simp add: Recv_def rsp_frame [OF assms])

text \<open>The messages among the frames, and the answers to the pings.\<close>

definition msgs_of :: "frame list \<Rightarrow> frame list" where
  "msgs_of fs = filter (\<lambda>f. f_op f = ''msg'') (map carried fs)"

definition pongs_of :: "cenv \<Rightarrow> frame list \<Rightarrow> (frame \<times> wire_error option) list" where
  "pongs_of v fs = map (pong_entry v) (filter (\<lambda>f. f_op (carried f) = OpPing) fs)"

lemma sub_loop_frames:
  assumes "\<forall>f\<in>set fs. good_frame f" and "c_rest c = concat (map wire_bytes fs) @ r"
  shows "sub_loop v c out = sub_loop v (c\<lparr>c_rest := r, c_wrote := c_wrote c @ pongs_of v fs\<rparr>)
    (out @ concat (map sub_line (msgs_of fs)))"
  using assms
proof (induction fs arbitrary: c out)
  case Nil
  then have "c\<lparr>c_rest := r, c_wrote := c_wrote c @ []\<rparr> = c" by simp
  then show ?case by (simp add: msgs_of_def pongs_of_def)
next
  case (Cons f fs)
  let ?r = "concat (map wire_bytes fs) @ r"
  have f: "good_frame f" "c_rest c = wire_bytes f @ ?r" "\<forall>f\<in>set fs. good_frame f" using Cons.prems by simp_all
  show ?case
  proof (cases "f_op (carried f) = OpPing")
    case True
    then have "f_op (carried f) \<noteq> ''msg''" by (simp add: OpPing_def)
    then show ?thesis
      using sub_loop_ping [OF f(1) True f(2), of v out] Cons.IH [OF f(3), of "c\<lparr>c_rest := ?r, c_wrote := c_wrote c @ [pong_entry v f]\<rparr>" out] True
      by (simp add: msgs_of_def pongs_of_def)
  next
    case False
    then show ?thesis
      using sub_loop_frame [OF f(1) False f(2), of v out] Cons.IH [OF f(3), of "c\<lparr>c_rest := ?r\<rparr>"]
      by (simp add: msgs_of_def pongs_of_def)
  qed
qed

lemma sub_loop_end:
  assumes "read_counted (c_rest c) = (Inl e, n)"
  shows "fst (sub_loop v c out) =
    (if n = 0 \<and> e = Stopped then Prints out
     else PrintsThenFails out (CmdClient (if n = 0 then EWire e else EDesync (Some e))))"
  by (subst sub_loop.simps) (use rsp_error [OF assms, of v] in \<open>auto simp: Recv_def\<close>)



subsection \<open>Exit status\<close>

lemma with_client_usage:
  assumes w: "with_client x fs args act = (Usage e, c)"
    and a: "\<And>sets pos f d. act sets pos = Inr f \<Longrightarrow> fst (f d) \<noteq> Usage e"
  shows "c = None"
proof (cases "checked_args x fs args")
  case (Inl e1)
  then show ?thesis using w by (simp add: with_client_def)
next
  case (Inr sp)
  obtain sets pos where sp: "sp = (sets, pos)" by (cases sp)
  show ?thesis
  proof (cases "act sets pos")
    case (Inl e1)
    then show ?thesis using w Inr sp by (simp add: with_client_def)
  next
    case f: (Inr f)
    then show ?thesis using w Inr sp a [OF f]
      by (auto simp: with_client_def split: sum.splits prod.splits) (metis fst_conv)
  qed
qed

lemma never_usage: "fst (done_or r) \<noteq> Usage e" "fst (print_or p) \<noteq> Usage e"
  by (simp_all add: done_or_def print_or_def split: prod.split option.split sum.split)

lemma sub_loop_usage: "fst (sub_loop v c out) \<noteq> Usage e"
proof (induction v c out rule: sub_loop.induct)
  case (1 v c out)
  show ?case
  proof (cases "Recv v c")
    case (Pair r c1)
    show ?thesis
    proof (cases r)
      case (Inl x)
      then show ?thesis using Pair by (subst sub_loop.simps) simp
    next
      case (Inr f)
      then show ?thesis using Pair "1.IH" [OF Pair [symmetric] Inr] by (subst sub_loop.simps) simp
    qed
  qed
qed

lemma client_usage:
  "cmdPut x args = (Usage e, c) \<Longrightarrow> c = None" "cmdTake x args = (Usage e, c) \<Longrightarrow> c = None"
  "cmdPub x args = (Usage e, c) \<Longrightarrow> c = None" "cmdSub x args = (Usage e, c) \<Longrightarrow> c = None"
  "cmdPing x args = (Usage e, c) \<Longrightarrow> c = None" "cmdReady x args = (Usage e, c) \<Longrightarrow> c = None"
  "cmdReq x args = (Usage e, c) \<Longrightarrow> c = None"
  unfolding cmdPut_def cmdTake_def cmdPub_def cmdSub_def cmdPing_def cmdReady_def cmdReq_def
  by (erule with_client_usage; auto simp: never_usage sub_loop_usage split: list.splits option.splits prod.splits)+

lemma node_usage:
  "cmdServe x w args = (RunUsage e, tr) \<Longrightarrow> tr = []" "cmdJoin x w args = (RunUsage e, tr) \<Longrightarrow> tr = []"
  by (auto simp: cmdServe_def cmdJoin_def split: sum.splits prod.splits list.splits)

lemma client_exit_usage:
  "fst (client_exit r) = 2 \<Longrightarrow> \<exists>e c. r = (Usage e, c) \<and> client_exit r = (2, [], c, [])"
  by (auto simp: client_exit_def split: prod.splits outcome.splits)

lemma node_exit_usage: "fst (node_exit r) = 2 \<Longrightarrow> \<exists>e tr. r = (RunUsage e, tr) \<and> node_exit r = (2, [], None, tr)"
  by (auto simp: node_exit_def split: prod.splits run.splits)

text \<open>When \<open>zmqcat\<close> exits with status 2 - an unknown command, or
  flags that do not parse - it has printed nothing on standard output, has opened no session and
  has not listened anywhere.\<close>

theorem usage_harmless:
  assumes "fst (zmqcat_main x w args) = 2"
  shows "snd (zmqcat_main x w args) = ([], None, [])"
proof -
  have "zmqcat_main x w args = (2, [], None, [])"
    using assms client_usage node_usage
    by (auto simp: zmqcat_main_def split: list.splits if_splits dest!: client_exit_usage node_exit_usage)
  then show ?thesis by simp
qed

subsection \<open>A command line that can run\<close>

text \<open>A command line that reaches a hub which answers every call with ok.\<close>

definition cli0 :: cli where
  "cli0 = \<lparr>x_host = Some ''me'', x_stdin = Terminal, x_uid = 1000, x_dial = (\<lambda>_. True), x_cenv = cenv0,
     x_int = (\<lambda>_. None), x_dur = (\<lambda>_. None), x_key = (\<lambda>_. False),
     x_arr = (\<lambda>k. wire_bytes (small_frame OpOK ''r''))\<rparr>"

theorem usage_harmless_witness:
  "\<exists>w. zmqcat_main cli0 w [''take'', ''--listen'', ''s'', ''--nmae'', ''b'', ''jobs''] = (2, [], None, [])"
proof -
  have f: "fst (zmqcat_main cli0 w [''take'', ''--listen'', ''s'', ''--nmae'', ''b'', ''jobs'']) = 2" for w
    by (simp add: zmqcat_main_def cmdTake_def with_client_def checked_args_def parseArgs_def clientFlags_def
        flag_body_def client_exit_def usage_status_def)
  show ?thesis using f usage_harmless [OF f] by (metis prod.collapse)
qed

lemma Hello_works:
  assumes "\<not> c_desync c" and "c_rest c = []" and "nextID cenv0 c = (i, c1)" and "length i \<le> 100"
    and "length n \<le> 100" and "length (c_name c) \<le> 100"
  shows "\<exists>e. Hello cenv0 n (arrive (wire_bytes (small_frame OpOK ''r'')) c) =
    (None, (if n \<noteq> '''' then c1\<lparr>c_name := n\<rparr> else c1)\<lparr>c_wrote := e\<rparr>)"
proof -
  let ?ans = "small_frame OpOK ''r''" and ?c = "if n \<noteq> '''' then c\<lparr>c_name := n\<rparr> else c"
  let ?req = "no_frame\<lparr>f_op := OpHello, f_from := c_name ?c\<rparr>"
  have c: "\<not> c_desync ?c" "c_rest ?c = []" "length (c_name ?c) \<le> 100" using assms by simp_all
  have i: "nextID cenv0 ?c = (i, if n \<noteq> '''' then c1\<lparr>c_name := n\<rparr> else c1)"
    using assms(3) by (auto simp: nextID_def Let_def)
  have g: "good_frame (?req\<lparr>f_id := i\<rparr>)"
    using assms(4) c(3) by (intro short_reply_good) (simp_all add: no_frame_def OpHello_def)
  have w: "v_write cenv0 (?req\<lparr>f_id := i\<rparr>) = (True, True)" by (simp add: cenv0_def)
  have a: "good_frame ?ans" "f_op (carried ?ans) \<noteq> OpPing" by (simp_all add: small_good)
  have "f_id ?req = ''''" by (simp add: no_frame_def)
  note r = roundTrip_fresh [OF c(1) this i w g a c(2)]
  have eq: "(if n \<noteq> '''' then (arrive (wire_bytes ?ans) c)\<lparr>c_name := n\<rparr> else arrive (wire_bytes ?ans) c) =
    arrive (wire_bytes ?ans) ?c" "c_name (arrive (wire_bytes ?ans) ?c) = c_name ?c"
    by (simp_all add: arrive_def)
  show ?thesis
    unfolding Hello_def Let_def eq by (simp add: r checked_def no_reply_def del: op_defs) (intro conjI impI exI; rule refl)
qed

lemma dial_works: "length n \<le> 100 \<Longrightarrow> \<exists>c. dial cli0 '''' n = Inr c"
proof -
  assume n: "length n \<le> 100"
  let ?p = "''0102030405060708''"
  have p: "hex_string (the (v_rand cenv0)) = ?p" by (simp add: cenv0_def hexd_def byte_eq)
  have l: "length (?p @ ''-'' @ dec_string (unat s)) \<le> 100" if "s = 1 \<or> s = (2 :: 64 word)" for s
    using that by (auto simp: dec_string.simps [of 2] dec_string.simps [of "Suc 0"])
  let ?c1 = "new_client\<lparr>c_prefix := Some ?p, c_seq := 1\<rparr>"
  have i1: "nextID cenv0 new_client = (?p @ ''-'' @ dec_string (unat (1 :: 64 word)), ?c1)"
    using p by (simp add: nextID_def Let_def cenv0_def new_client_def)
  have "\<not> c_desync new_client" "c_rest new_client = []" "length (c_name new_client) \<le> 100"
    by (simp_all add: new_client_def)
  from Hello_works [OF this(1,2) i1 l _ this(3), of "''''"] obtain e where
    h1: "Hello cenv0 '''' (arrive (wire_bytes (small_frame OpOK ''r'')) new_client) = (None, ?c1\<lparr>c_wrote := e\<rparr>)"
    by auto
  let ?d = "?c1\<lparr>c_wrote := e\<rparr>"
  have i2: "nextID cenv0 ?d = (?p @ ''-'' @ dec_string (unat (2 :: 64 word)), ?d\<lparr>c_seq := 2\<rparr>)"
    by (simp add: nextID_def Let_def)
  have "\<not> c_desync ?d" "c_rest ?d = []" "length (c_name ?d) \<le> 100" by (simp_all add: new_client_def)
  from Hello_works [OF this(1,2) i2 l n this(3)] obtain e2 where
    "\<exists>c. Hello cenv0 n (arrive (wire_bytes (small_frame OpOK ''r'')) ?d) = (None, c)" by auto
  moreover obtain cs where "listenDial 1000 '''' = Inr cs"
    using parse_unix [of 1000 "''/tmp/zmqcat-'' @ dec_string 1000 @ ''.sock''"]
    by (simp add: listenDial_def dial_calls_def default_addr_def unix_scheme_def)
  ultimately show ?thesis using h1
    by (cases "n = ''''") (auto simp: dial_def Dial_def cli0_def list_all_iff)
qed

theorem cmd_put_sends_witness:
  "\<exists>out c' i f e j. cmdPut cli0 [''jobs'', ''--name'', ''ann'', ''a'', ''b''] = (out, Some c') \<and>
     c_wrote c' = i @ (f, e) # j \<and> f_op f = OpPut \<and> f_name f = ''jobs'' \<and> f_body f = ''a b'' \<and> f_from f = ''ann''"
proof -
  let ?ts = "[Pos ''jobs'', FlagVal ''name'' ''ann'', Pos ''a'', Pos ''b'']"
  have g: "\<forall>t\<in>set ?ts. good_item clientFlags t" by (simp add: good_name_def clientFlags_def)
  have p: "positionals ?ts = ''jobs'' # ''a'' # [''b'']" by simp
  have n: "flag_value ''name'' (hostname (x_host cli0)) (settings ?ts) = ''ann''" by (simp add: flag_value_def)
  obtain c where "dial cli0 (flag_value ''listen'' '''' (settings ?ts))
      (flag_value ''name'' (hostname (x_host cli0)) (settings ?ts)) = Inr c"
    using dial_works [of "''ann''"] n by (auto simp: flag_value_def)
  from cmd_put_sends [OF g p this] obtain out c' f e r where
      run: "cmdPut cli0 (concat (map render ?ts)) = (out, Some c')"
      "c_wrote c' = c_wrote c @ (f, e) # r" "f_op f = OpPut" "f_name f = ''jobs''"
      "f_from f = flag_value ''name'' (hostname (x_host cli0)) (settings ?ts)" "f_body f = join_spaces (''a'' # [''b''])"
    by blast
  show ?thesis
    using run n by (intro exI [of _ out] exI [of _ c'] exI [of _ "c_wrote c"] exI [of _ f] exI [of _ e] exI [of _ r]) simp
qed

end
