(* ===== verification/Spec2Isabelle.thy ===== *)
theory Spec2Isabelle
  imports System_Props Bus_Props Store_Props PubSub_Props Sweeper Reserve Failover Hub_System_Props
    Node_System Command_Props
begin

text \<open>
  zmqcat is a mailbox bus: local programs talk to a sidecar over a unix or TCP socket, and the
  sidecar keeps named job queues (push/pull, with leases and acknowledgements), prefix topics
  (lossy pub/sub) and request/reply routing.  This development models the Go implementation and
  proves what it keeps true.

  The parts of the program and the theories that model them:

  \<^item> \<open>internal/mailbox/mailbox.go\<close>, \<open>Bus\<close>: the queues, leases, waiters and the dedup index.
    \<open>Go_Prelude\<close> has the shared vocabulary, \<open>Chan\<close> the buffered channels (a store, because a
    box and a blocked goroutine share them), \<open>Dedup\<close> the index and its contract
    \<open>ref_index\<close>, \<open>Bus\<close> the state and one definition per critical section of the mutex.
    A result \<open>None\<close> is a panic or a goroutine blocked for ever under the mutex.
  \<^item> its proofs: \<open>Bus_Inv\<close> (the invariant), \<open>Bus_Ops\<close> (every operation returns, keeps it and
    moves jobs without losing any), \<open>Bus_Chan\<close> (which channels an operation may fill or
    register), \<open>Bus_System\<close> (all goroutines together: a step relation over critical sections,
    with the blocking \<open>Take\<close> cut at its \<open>select\<close>, and its reachable states), \<open>Sweeper\<close> (the
    sweeper goroutine and the calls of \<open>Close\<close> on top of it), \<open>Reserve\<close> (\<open>Reserve\<close> and \<open>newID\<close>).
  \<^item> \<open>PubSub\<close>: \<open>Pub\<close>, \<open>Sub\<close>, cancellation, the last-value cache, and \<open>Close\<close>'s effects.
  \<^item> \<open>Store\<close>: \<open>persistLocked\<close> call by call over a file system that may crash, and
    \<open>OpenPersistent\<close>.  The bus model uses one flag for the success of \<open>persistLocked\<close>; the
    refinement between the two is proved.
  \<^item> \<open>internal/hub/hub.go\<close>: \<open>Hub\<close> has sessions, the pending table and one definition per
    handler; \<open>Hub_Inv\<close> the interface \<open>lease_store\<close> through which a session gives its
    deliveries back, interpreted on the bus.  \<open>Shutdown\<close> says what \<open>Hub.Close\<close> leaves in the
    durable file.
  \<^item> the hub with its goroutines interleaved: in \<open>Hub_Step\<close> a goroutine is the list of critical
    sections it has still to make and \<open>act_step\<close> makes one of them; \<open>Hub_Seq\<close> proves that the
    sequential definitions of \<open>Hub\<close> are its executions in which nothing comes in between;
    \<open>Hub_System\<close> is the step relation \<open>hub_step\<close> of all goroutines, with the bytes written to
    each connection, and proves by \<open>Refinement\<close> (forward simulation, a locale) that the hub
    refines \<open>Bus_System\<close>.  \<open>Bus_Leases\<close> says what each operation of the bus does to the
    leases; \<open>Hub_Leases\<close> and \<open>Hub_Requests\<close> have the invariants on leases and on requests.
  \<^item> \<open>internal/wire/wire.go\<close>: \<open>Frame\<close> has the frame type and \<open>Payload\<close>, \<open>Wire\<close> the header,
    \<open>Write\<close> as its two calls and \<open>ReadCounted\<close> with its byte count.  The JSON text is modelled
    as \<open>encoding/json\<close> reads and writes it: \<open>Json\<close> has UTF-8, string escapes and base64,
    \<open>Json_Syntax\<close> numbers and the grammar.  \<open>Wire_Props\<close>: the round trip, interrupted reads,
    interleaved writes, and which frames fit.
  \<^item> \<open>client.go\<close>: \<open>Client\<close> has every call over the bytes of its connection; \<open>Client_Props\<close>
    heartbeats, desynchronisation, late replies, retries and correlation ids.
  \<^item> \<open>End_To_End\<close>, \<open>Job_Delivery\<close>, \<open>Request_Reply\<close> and \<open>Failover\<close> compose client, wire, hub and bus: a put and
    a take from the call of one client to what it returns, a worker that goes away, and a request
    from \<open>Request\<close> through the worker's \<open>Ready\<close> and \<open>Rep\<close> back to what \<open>Request\<close> returns, also
    when the first worker dies.
  \<^item> \<open>node.go\<close>: \<open>Node\<close> has \<open>Serve\<close>, \<open>Join\<close> and \<open>Close\<close> with what they open and close, the
    ports of the tunnel, and \<open>splice\<close> as a step relation; \<open>Node_Props\<close>.  \<open>Node_System\<close> is the
    running node: its accept loops, the handlers of the tunnel and one goroutine per connection
    (\<open>spliceDial\<close>, \<open>forwardLocal\<close>), started by \<open>Serve\<close> or \<open>Join\<close>, and what \<open>Close\<close> stops.
  \<^item> \<open>internal/addr/addr.go\<close>: \<open>Addr\<close>.  \<open>cmd/zmqcat/args.go\<close>: \<open>Cli\<close>.
    \<open>cmd/zmqcat/main.go\<close>: \<open>Commands\<close> has \<open>main\<close> and every command; \<open>Command_Props\<close>.

  The theorems are in \<open>System_Props\<close> (reachable states of the concurrent bus), \<open>Bus_Props\<close>
  (each operation on every branch, FIFO order, leases, expiry, \<open>Close\<close>), \<open>Store_Props\<close>
  (crash atomicity, restart, durability and its limits), \<open>PubSub_Props\<close>, \<open>Hub_Props\<close>,
  \<open>Hub_Seq\<close>, \<open>Hub_System_Props\<close> (what holds in every interleaving of the hub, and what does not),
  \<open>Wire_Props\<close>, \<open>Client_Props\<close>, \<open>End_To_End\<close>, \<open>Job_Delivery\<close>, \<open>Request_Reply\<close>, \<open>Failover\<close>, \<open>Sweeper\<close>, \<open>Shutdown\<close>,
  \<open>Node_Props\<close>, \<open>Node_System\<close>, \<open>Command_Props\<close>, \<open>Addr\<close> and \<open>Cli\<close>.

  What comes from outside is an argument: the clock (\<open>now\<close>, nanoseconds since Go's zero time), new
  ids, the success of file system calls, of listening and of socket writes, the order in which Go
  ranges over a map, the cache entry an eviction hits, the user id, the bytes that arrive on a
  connection before a read stops, tailcat, the terminal, and the parsers of durations, integers
  and node keys.  The theorems hold for every choice of these; a fresh delivery id is assumed new,
  as twelve random bytes are.

  There is no fuel anywhere: every recursion is structural over a finite list or has a measure
  (the bytes not yet read, the length of the JSON text; the tests of lengths in \<open>parse_json\<close>
  always succeed, lemma \<open>json_shorter\<close>, and the nesting depth of 10000 is Go's own limit).
  Message bodies are kept at their length, queue limits and times as integers; the products of
  durations that can overflow in the hub are taken on \<open>64 word\<close>, ports on \<open>16 word\<close>.

  The interleaved hub allows more orders than the program: each frame of a session is handled by a
  goroutine of its own, where the read loop handles one after the other; a write that fails leaves
  no bytes on the connection; the cancel functions of an \<open>unsub\<close> run one by one, where the program
  holds the session's mutex around them.  Its invariants therefore hold of the program; its error
  runs (\<open>orphan_happens\<close>, \<open>writers_corrupt\<close>) use only goroutines that the program runs at the
  same time: a delivery and the end of its session, an answer and a heartbeat.  The ghost fields
  \<open>used\<close>, \<open>orphans\<close> and \<open>asked\<close> record the past and decide nothing.

  Not modelled: the JSON text of the durable file, deadlines of sockets (they are the choice of the
  bytes that arrive and of the writes that succeed), logging and tracing, the text of usage and
  error messages, signals, the tailcat tunnel, and the Lua and Python
  clients.
\<close>

end
